(* ===== verification/Prelude.thy ===== *)
theory Prelude
  imports Main "HOL-Library.Word" "HOL-Library.Char_ord" "HOL-Library.Sublist"
begin

text \<open>
  Shared ground of the development: the collections of facts that component proofs draw
  on, the width-named machine integers, the C library's string comparisons over bytes, and
  generic lemmas on lists and options that several components use.
\<close>

unbundle bit_operations_syntax

named_theorems type_defs \<open>definitions that unfold the accessors of the value type\<close>
named_theorems frame \<open>what an operation leaves unchanged\<close>

type_synonym num = "64 word"
type_synonym objid = int
type_synonym float64 = "64 word"

section \<open>C conversions\<close>

text \<open>
  An expression of type int64_t returned from a function of type int keeps its low 32
  bits, read as two's complement.
\<close>

definition to_int32 :: "int \<Rightarrow> int" where
  "to_int32 x = signed_take_bit 31 x"

lemma to_int32_id: "- (2 ^ 31) \<le> x \<Longrightarrow> x < 2 ^ 31 \<Longrightarrow> to_int32 x = x"
  unfolding to_int32_def by (rule signed_take_bit_int_eq_self) auto

lemma to_int32_zero [simp]: "to_int32 0 = 0"
  by (simp add: to_int32_def)

lemma to_int32_range: "- (2 ^ 31) \<le> to_int32 x \<and> to_int32 x < 2 ^ 31"
  unfolding to_int32_def
  using signed_take_bit_int_greater_eq_minus_exp [of 31 x] signed_take_bit_int_less_exp [of 31 x]
  by simp

section \<open>Bytes and C strings\<close>

text \<open>
  A C string is the list of its bytes before the terminating NUL. A byte is a
  \<^typ>\<open>char\<close>; its unsigned value is \<open>byte_of\<close>.
\<close>

definition byte_of :: "char \<Rightarrow> nat" where
  "byte_of c = of_char c"

lemma byte_of_bound [simp]: "byte_of c < 256"
  by (simp add: byte_of_def)

lemma byte_of_inject [simp]: "byte_of c = byte_of d \<longleftrightarrow> c = d"
  by (simp add: byte_of_def)

lemma byte_of_neq_less: "c \<noteq> d \<Longrightarrow> \<not> byte_of d < byte_of c \<Longrightarrow> byte_of c < byte_of d"
  by (metis byte_of_inject linorder_neqE_nat)

lemma char_of_byte_of [simp]: "char_of (byte_of c) = c"
  by (simp add: byte_of_def)

lemma byte_of_char_of [simp]: "n < 256 \<Longrightarrow> byte_of (char_of n) = n"
  by (simp add: byte_of_def)

section \<open>Generic list lemmas\<close>

lemma list_all2_sym_on:
  "(\<And>x y. x \<in> set xs \<Longrightarrow> P x y \<Longrightarrow> P y x) \<Longrightarrow> list_all2 P xs ys \<Longrightarrow> list_all2 P ys xs"
  by (auto simp: list_all2_conv_all_nth)

lemma list_all2_trans_on:
  assumes "\<And>x y z. x \<in> set xs \<Longrightarrow> P x y \<Longrightarrow> P y z \<Longrightarrow> P x z"
    and "list_all2 P xs ys" and "list_all2 P ys zs"
  shows "list_all2 P xs zs"
  using assms by (auto simp: list_all2_conv_all_nth)

lemma list_all2_refl_on: "(\<And>x. x \<in> set xs \<Longrightarrow> P x x) \<Longrightarrow> list_all2 P xs xs"
  by (auto simp: list_all2_conv_all_nth)

lemma find_append:
  "List.find P (xs @ ys) = (case List.find P xs of None \<Rightarrow> List.find P ys | Some x \<Rightarrow> Some x)"
  by (induction xs) auto

end
