(* ===== verification/Values.thy ===== *)
theory Values
  imports Prelude
begin

text \<open>
  The MOO value type of \<^verbatim>\<open>structures.h\<close> and the routines of
  \<^verbatim>\<open>utils.cc\<close> that classify and compare values: \<^verbatim>\<open>is_true\<close>,
  \<^verbatim>\<open>compare\<close>, \<^verbatim>\<open>equality\<close>, with \<^verbatim>\<open>ismember\<close> of
  \<^verbatim>\<open>collection.cc\<close>. Reference counts and pointer identity of shared values are
  not modelled: a value is what its pointers denote. Doubles are their IEEE-754 bit
  patterns; comparisons on them are defined here.
\<close>

section \<open>Errors, types and values (structures.h)\<close>

datatype error =
    E_NONE | E_TYPE | E_DIV | E_PERM | E_PROPNF | E_VERBNF | E_VARNF | E_INVIND
  | E_RECMOVE | E_MAXREC | E_RANGE | E_ARGS | E_NACC | E_INVARG | E_QUOTA | E_FLOAT
  | E_FILE | E_EXEC | E_INTRPT

fun error_code :: "error \<Rightarrow> int" where
  "error_code E_NONE = 0" | "error_code E_TYPE = 1" | "error_code E_DIV = 2"
| "error_code E_PERM = 3" | "error_code E_PROPNF = 4" | "error_code E_VERBNF = 5"
| "error_code E_VARNF = 6" | "error_code E_INVIND = 7" | "error_code E_RECMOVE = 8"
| "error_code E_MAXREC = 9" | "error_code E_RANGE = 10" | "error_code E_ARGS = 11"
| "error_code E_NACC = 12" | "error_code E_INVARG = 13" | "error_code E_QUOTA = 14"
| "error_code E_FLOAT = 15" | "error_code E_FILE = 16" | "error_code E_EXEC = 17"
| "error_code E_INTRPT = 18"

text \<open>The special object numbers.\<close>

abbreviation SYSTEM_OBJECT :: objid where "SYSTEM_OBJECT \<equiv> 0"
abbreviation NOTHING :: objid where "NOTHING \<equiv> - 1"
abbreviation AMBIGUOUS :: objid where "AMBIGUOUS \<equiv> - 2"
abbreviation FAILED_MATCH :: objid where "FAILED_MATCH \<equiv> - 3"

text \<open>
  Nodes and trees of \<^verbatim>\<open>map.cc\<close> (\<^verbatim>\<open>rbnode\<close>: color, key, value, two links;
  \<^verbatim>\<open>rbtree\<close>: root and size), as the trees their pointers span.
\<close>

datatype 'v rbnode = RBNil | RBNode bool 'v 'v "'v rbnode" "'v rbnode"

datatype 'v rbtree = RBTree (rbroot: "'v rbnode") (rbsize: nat)

text \<open>
  \<^verbatim>\<open>struct Var\<close>: one constructor per \<^verbatim>\<open>var_type\<close>. Anonymous objects, waifs
  and map iterators are references; a null anonymous reference is \<open>VANON None\<close>.
\<close>

datatype var =
    VINT num
  | VOBJ objid
  | VSTR string
  | VERR error
  | VLIST "var list"
  | VCLEAR
  | VNONE
  | VCATCH num
  | VFINALLY num
  | VFLOAT float64
  | VMAP "var rbtree"
  | VITER nat
  | VANON "nat option"
  | VWAIF nat
  | VBOOL bool

text \<open>The in-memory numbers of \<^verbatim>\<open>var_type\<close>: complex types carry the flag 0x80.\<close>

fun type_of :: "var \<Rightarrow> int" where
  "type_of (VINT _) = 0"
| "type_of (VOBJ _) = 1"
| "type_of (VSTR _) = 2 + 128"
| "type_of (VERR _) = 3"
| "type_of (VLIST _) = 4 + 128"
| "type_of VCLEAR = 5"
| "type_of VNONE = 6"
| "type_of (VCATCH _) = 7"
| "type_of (VFINALLY _) = 8"
| "type_of (VFLOAT _) = 9"
| "type_of (VMAP _) = 10 + 128"
| "type_of (VITER _) = 11 + 128"
| "type_of (VANON _) = 12 + 128"
| "type_of (VWAIF _) = 13 + 128"
| "type_of (VBOOL _) = 14"

definition is_complex :: "var \<Rightarrow> bool" where
  "is_complex v = (128 AND type_of v \<noteq> 0)"

definition is_collection :: "var \<Rightarrow> bool" where
  "is_collection v = (case v of VLIST _ \<Rightarrow> True | VMAP _ \<Rightarrow> True | VANON _ \<Rightarrow> True | _ \<Rightarrow> False)"

definition is_object :: "var \<Rightarrow> bool" where
  "is_object v = (case v of VOBJ _ \<Rightarrow> True | VANON _ \<Rightarrow> True | VWAIF _ \<Rightarrow> True | _ \<Rightarrow> False)"

section \<open>Double comparison\<close>

text \<open>
  A double is NaN when its exponent bits are all ones and its mantissa is not zero. Other
  doubles are ordered as the sign-magnitude integers of their bits, the two zeros equal.
\<close>

definition f_isnan :: "float64 \<Rightarrow> bool" where
  "f_isnan w = (2047 * 2 ^ 52 < uint w mod 2 ^ 63)"

definition f_ord :: "float64 \<Rightarrow> int" where
  "f_ord w = (if uint w < 2 ^ 63 then uint w else - (uint w - 2 ^ 63))"

definition f_eq :: "float64 \<Rightarrow> float64 \<Rightarrow> bool" where
  "f_eq a b = (\<not> f_isnan a \<and> \<not> f_isnan b \<and> f_ord a = f_ord b)"

definition f_less :: "float64 \<Rightarrow> float64 \<Rightarrow> bool" where
  "f_less a b = (\<not> f_isnan a \<and> \<not> f_isnan b \<and> f_ord a < f_ord b)"

section \<open>C string comparison\<close>

text \<open>
  \<^verbatim>\<open>cmap\<close> of \<^verbatim>\<open>utils.cc\<close>: the table that folds the ASCII capitals to
  lower case and keeps every other byte.
\<close>

definition cmap :: "char \<Rightarrow> char" where
  "cmap c = (if 65 \<le> byte_of c \<and> byte_of c \<le> 90 then char_of (byte_of c + 32) else c)"

text \<open>
  \<^verbatim>\<open>strcmp\<close> and \<^verbatim>\<open>strcasecmp\<close> of the C library: the difference of the first
  bytes that differ, the terminating NUL counting as byte 0.
\<close>

fun strcmp :: "string \<Rightarrow> string \<Rightarrow> int" where
  "strcmp [] [] = 0"
| "strcmp [] (b # bs) = - int (byte_of b)"
| "strcmp (a # as) [] = int (byte_of a)"
| "strcmp (a # as) (b # bs) =
     (if a = b then strcmp as bs else int (byte_of a) - int (byte_of b))"

definition strcasecmp :: "string \<Rightarrow> string \<Rightarrow> int" where
  "strcasecmp s t = strcmp (map cmap s) (map cmap t)"

text \<open>A C string holds no NUL byte.\<close>

definition c_string :: "string \<Rightarrow> bool" where
  "c_string s = list_all (\<lambda>c. byte_of c \<noteq> 0) s"

section \<open>In-order contents of a map\<close>

text \<open>What \<^verbatim>\<open>mapforeach\<close> visits, in order: left link, node, right link.\<close>

fun rb_items :: "'v rbnode \<Rightarrow> ('v \<times> 'v) list" where
  "rb_items RBNil = []"
| "rb_items (RBNode _ k v l r) = rb_items l @ (k, v) # rb_items r"

definition map_items :: "'v rbtree \<Rightarrow> ('v \<times> 'v) list" where
  "map_items t = rb_items (rbroot t)"

lemma rb_items_size:
  "(k, v) \<in> set (rb_items n) \<Longrightarrow> size k < size_rbnode size n \<and> size v < size_rbnode size n"
  by (induction n) auto

lemma map_items_size [termination_simp]:
  assumes "(k, v) \<in> set (map_items t)"
  shows "size k < size_rbtree size t" and "size v < size_rbtree size t"
  using rb_items_size [of k v "rbroot t"] assms by (cases t; auto simp: map_items_def)+

section \<open>Truth, order and equality (utils.cc)\<close>

fun is_true :: "var \<Rightarrow> bool" where
  "is_true (VINT n) = (n \<noteq> 0)"
| "is_true (VFLOAT f) = (\<not> f_eq f 0)"
| "is_true (VSTR s) = (s \<noteq> [])"
| "is_true (VLIST xs) = (length xs \<noteq> 0)"
| "is_true (VMAP t) = (rbsize t \<noteq> 0)"
| "is_true (VBOOL b) = b"
| "is_true _ = False"

text \<open>
  Reads of the union in \<^verbatim>\<open>struct Var\<close>. They are used after the type of the
  value is known; the results at other types are never used.
\<close>

definition v_num :: "var \<Rightarrow> num" where
  [type_defs]: "v_num v = (case v of VINT n \<Rightarrow> n | _ \<Rightarrow> 0)"
definition v_obj :: "var \<Rightarrow> objid" where
  [type_defs]: "v_obj v = (case v of VOBJ n \<Rightarrow> n | _ \<Rightarrow> 0)"
definition v_str :: "var \<Rightarrow> string" where
  [type_defs]: "v_str v = (case v of VSTR s \<Rightarrow> s | _ \<Rightarrow> [])"
definition v_err :: "var \<Rightarrow> error" where
  [type_defs]: "v_err v = (case v of VERR e \<Rightarrow> e | _ \<Rightarrow> E_NONE)"
definition v_fnum :: "var \<Rightarrow> float64" where
  [type_defs]: "v_fnum v = (case v of VFLOAT f \<Rightarrow> f | _ \<Rightarrow> 0)"
definition v_list :: "var \<Rightarrow> var list" where
  [type_defs]: "v_list v = (case v of VLIST xs \<Rightarrow> xs | _ \<Rightarrow> [])"
definition v_map :: "var \<Rightarrow> (var \<times> var) list" where
  [type_defs]: "v_map v = (case v of VMAP t \<Rightarrow> map_items t | _ \<Rightarrow> [])"
definition v_ref :: "var \<Rightarrow> nat option" where
  [type_defs]: "v_ref v = (case v of VANON a \<Rightarrow> a | VWAIF w \<Rightarrow> Some w | _ \<Rightarrow> None)"
definition v_truth :: "var \<Rightarrow> bool" where
  [type_defs]: "v_truth v = (case v of VBOOL b \<Rightarrow> b | _ \<Rightarrow> False)"

text \<open>
  \<^verbatim>\<open>compare\<close>: the difference of two integers or object numbers is returned as an
  \<^verbatim>\<open>int\<close>, so only its low 32 bits survive. \<open>None\<close> is the
  \<^verbatim>\<open>panic_moo\<close> on two values of one type that has no order.
\<close>

definition compare :: "var \<Rightarrow> var \<Rightarrow> bool \<Rightarrow> int option" where
  "compare lhs rhs case_matters =
     (if type_of lhs = type_of rhs then
        (case lhs of
           VINT a \<Rightarrow> Some (to_int32 (sint (a - v_num rhs)))
         | VOBJ a \<Rightarrow> Some (to_int32 (a - v_obj rhs))
         | VERR e \<Rightarrow> Some (error_code e - error_code (v_err rhs))
         | VSTR s \<Rightarrow> Some (if s = v_str rhs then 0
                       else if case_matters then strcmp s (v_str rhs)
                       else strcasecmp s (v_str rhs))
         | VFLOAT f \<Rightarrow> Some (if f_eq f (v_fnum rhs) then 0
                         else if f_less f (v_fnum rhs) then - 1 else 1)
         | VWAIF w \<Rightarrow> Some (if Some w = v_ref rhs then 0 else 1)
         | VANON a \<Rightarrow> Some (if a = v_ref rhs then 0 else 1)
         | VBOOL b \<Rightarrow> Some (if b = v_truth rhs then 0 else 1)
         | _ \<Rightarrow> None)
      else Some (type_of lhs - type_of rhs))"

text \<open>
  The element loops of \<^verbatim>\<open>listequal\<close> and \<^verbatim>\<open>mapequal\<close>: stop at the first
  pair that differs; equal when both sides end together. \<open>None\<close> is a panic inside a
  comparison.
\<close>

fun eq_all :: "('a \<Rightarrow> 'b \<Rightarrow> bool option) \<Rightarrow> 'a list \<Rightarrow> 'b list \<Rightarrow> bool option" where
  "eq_all eq [] [] = Some True"
| "eq_all eq (x # xs) (y # ys) =
     (case eq x y of
        None \<Rightarrow> None
      | Some b \<Rightarrow> if b then eq_all eq xs ys else Some False)"
| "eq_all eq _ _ = Some False"

lemma eq_all_cong [fundef_cong]:
  "xs = xs' \<Longrightarrow> ys = ys' \<Longrightarrow> (\<And>x y. x \<in> set xs' \<Longrightarrow> y \<in> set ys' \<Longrightarrow> eq x y = eq' x y) \<Longrightarrow>
   eq_all eq xs ys = eq_all eq' xs' ys'"
  by (induction eq xs ys arbitrary: xs' ys' rule: eq_all.induct) (auto split: option.split)

text \<open>One step of \<^verbatim>\<open>mapequal\<close>'s loop: keys first, then values.\<close>

definition eq_pair :: "('a \<Rightarrow> 'a \<Rightarrow> bool option) \<Rightarrow> 'a \<times> 'a \<Rightarrow> 'a \<times> 'a \<Rightarrow> bool option" where
  "eq_pair eq p q =
     (case eq (fst p) (fst q) of
        None \<Rightarrow> None
      | Some b \<Rightarrow> if b then eq (snd p) (snd q) else Some False)"

lemma eq_pair_cong [fundef_cong]:
  "p = p' \<Longrightarrow> q = q' \<Longrightarrow> (\<And>y. eq (fst p') y = eq' (fst p') y) \<Longrightarrow>
   (\<And>y. eq (snd p') y = eq' (snd p') y) \<Longrightarrow> eq_pair eq p q = eq_pair eq' p' q'"
  by (auto simp: eq_pair_def split: option.split)

lemma map_items_fst_size [termination_simp]:
  "p \<in> set (map_items t) \<Longrightarrow> size (fst p) < size_rbtree size t"
  by (cases p) (auto dest: map_items_size)

lemma map_items_snd_size [termination_simp]:
  "p \<in> set (map_items t) \<Longrightarrow> size (snd p) < size_rbtree size t"
  by (cases p) (auto dest: map_items_size)

text \<open>
  \<^verbatim>\<open>equality\<close>. Two values of different type are equal only as a truth value and
  the integer 0 or 1 it stands for.
\<close>

fun equality :: "var \<Rightarrow> var \<Rightarrow> bool \<Rightarrow> bool option" where
  "equality lhs rhs case_matters =
     (if type_of lhs = type_of rhs then
        (case lhs of
           VCLEAR \<Rightarrow> Some True
         | VNONE \<Rightarrow> Some True
         | VINT a \<Rightarrow> Some (a = v_num rhs)
         | VOBJ a \<Rightarrow> Some (a = v_obj rhs)
         | VERR e \<Rightarrow> Some (e = v_err rhs)
         | VSTR s \<Rightarrow> Some (if s = v_str rhs then True
                       else if length s \<noteq> length (v_str rhs) then False
                       else if case_matters then strcmp s (v_str rhs) = 0
                       else strcasecmp s (v_str rhs) = 0)
         | VFLOAT f \<Rightarrow> Some (f_eq f (v_fnum rhs))
         | VLIST xs \<Rightarrow>
             (if length xs \<noteq> length (v_list rhs) then Some False
              else eq_all (\<lambda>x y. equality x y case_matters) xs (v_list rhs))
         | VMAP t \<Rightarrow>
             eq_all (eq_pair (\<lambda>x y. equality x y case_matters)) (map_items t) (v_map rhs)
         | VANON a \<Rightarrow> Some (a = v_ref rhs)
         | VWAIF w \<Rightarrow> Some (Some w = v_ref rhs)
         | VBOOL b \<Rightarrow> Some (b = v_truth rhs)
         | _ \<Rightarrow> None)
      else
        (case (lhs, rhs) of
           (VBOOL b, VINT n) \<Rightarrow> Some (n = of_bool b)
         | (VINT n, VBOOL b) \<Rightarrow> Some (n = of_bool b)
         | _ \<Rightarrow> Some False))"

declare equality.simps [simp del]

text \<open>
  \<^verbatim>\<open>ismember\<close> (\<^verbatim>\<open>collection.cc\<close>): the one-based position of the first
  element of a list, or of the first value of a map, that equals \<open>lhs\<close>; 0 when there is
  none or when \<open>rhs\<close> is no collection.
\<close>

fun first_equal :: "(var \<Rightarrow> bool option) \<Rightarrow> nat \<Rightarrow> var list \<Rightarrow> nat option" where
  "first_equal eq i [] = Some 0"
| "first_equal eq i (y # ys) =
     (case eq y of
        None \<Rightarrow> None
      | Some b \<Rightarrow> if b then Some i else first_equal eq (Suc i) ys)"

definition ismember :: "var \<Rightarrow> var \<Rightarrow> bool \<Rightarrow> nat option" where
  "ismember lhs rhs case_matters =
     (case rhs of
        VLIST ys \<Rightarrow> first_equal (\<lambda>y. equality lhs y case_matters) 1 ys
      | VMAP t \<Rightarrow> first_equal (\<lambda>y. equality y lhs case_matters) 1 (map snd (map_items t))
      | _ \<Rightarrow> Some 0)"

section \<open>Well-formed values\<close>

text \<open>
  Values a MOO program can hold: no on-stack marker or iterator, no NaN (arithmetic that
  would produce one raises an error), strings without NUL bytes.
\<close>

fun storable :: "var \<Rightarrow> bool" where
  "storable (VCATCH _) = False"
| "storable (VFINALLY _) = False"
| "storable (VITER _) = False"
| "storable (VFLOAT f) = (\<not> f_isnan f)"
| "storable (VSTR s) = c_string s"
| "storable (VLIST xs) = list_all storable xs"
| "storable (VMAP t) = list_all (\<lambda>p. storable (fst p) \<and> storable (snd p)) (map_items t)"
| "storable _ = True"

section \<open>Lemmas on string comparison\<close>

lemma byte_of_cmap: "byte_of (cmap c) = (if 65 \<le> byte_of c \<and> byte_of c \<le> 90 then byte_of c + 32 else byte_of c)"
  by (simp add: cmap_def)

lemma cmap_idem [simp]: "cmap (cmap c) = cmap c"
  by (simp add: cmap_def)

lemma c_string_cmap [simp]: "c_string (map cmap s) = c_string s"
  by (induction s) (auto simp: c_string_def byte_of_cmap)

lemma c_string_Cons [simp]: "c_string (c # s) \<longleftrightarrow> byte_of c \<noteq> 0 \<and> c_string s"
  and c_string_Nil [simp]: "c_string []"
  by (simp_all add: c_string_def)

lemma strcmp_refl [simp]: "strcmp s s = 0"
  by (induction s) auto

lemma strcmp_zero_iff:
  "c_string s \<Longrightarrow> c_string t \<Longrightarrow> strcmp s t = 0 \<longleftrightarrow> s = t"
  by (induction s t rule: strcmp.induct) auto

lemma strcasecmp_zero_iff:
  "c_string s \<Longrightarrow> c_string t \<Longrightarrow> strcasecmp s t = 0 \<longleftrightarrow> map cmap s = map cmap t"
  by (simp add: strcasecmp_def strcmp_zero_iff)

lemma strcmp_swap: "strcmp t s = - strcmp s t"
  by (induction s t rule: strcmp.induct) auto

lemma strcasecmp_swap: "strcasecmp t s = - strcasecmp s t"
  unfolding strcasecmp_def by (rule strcmp_swap)

text \<open>Sign of \<^const>\<open>strcmp\<close> on C strings: the order of the byte sequences.\<close>

lemma strcmp_neg_iff:
  "c_string s \<Longrightarrow> c_string t \<Longrightarrow>
   strcmp s t < 0 \<longleftrightarrow> ord_class.lexordp (map byte_of s) (map byte_of t)"
  by (induction s t rule: strcmp.induct)
    (auto simp: ord_class.lexordp_simps dest: byte_of_neq_less)

section \<open>Lemmas on equality\<close>

text \<open>The case in which two values are equal, one line per type.\<close>

definition str_equal :: "bool \<Rightarrow> string \<Rightarrow> string \<Rightarrow> bool" where
  "str_equal cm s t \<longleftrightarrow>
     s = t \<or> length s = length t \<and> (if cm then strcmp s t = 0 else strcasecmp s t = 0)"

lemma equality_type_eq:
  "equality (VSTR s) (VSTR t) cm = Some (str_equal cm s t)"
  "equality (VLIST xs) (VLIST ys) cm =
     (if length xs \<noteq> length ys then Some False else eq_all (\<lambda>x y. equality x y cm) xs ys)"
  "equality (VMAP m) (VMAP n) cm =
     eq_all (eq_pair (\<lambda>x y. equality x y cm)) (map_items m) (map_items n)"
  "equality (VINT a) (VINT b) cm = Some (a = b)"
  "equality (VOBJ i) (VOBJ j) cm = Some (i = j)"
  "equality (VERR d) (VERR e) cm = Some (d = e)"
  "equality (VFLOAT f) (VFLOAT g) cm = Some (f_eq f g)"
  "equality (VANON p) (VANON q) cm = Some (p = q)"
  "equality (VWAIF u) (VWAIF w) cm = Some (u = w)"
  "equality (VBOOL k) (VBOOL l) cm = Some (k = l)"
  "equality (VBOOL k) (VINT b) cm = Some (b = of_bool k)"
  "equality (VINT b) (VBOOL k) cm = Some (b = of_bool k)"
  "equality VCLEAR VCLEAR cm = Some True"
  "equality VNONE VNONE cm = Some True"
  by (auto simp: equality.simps type_defs str_equal_def)

lemma strcmp_zero_same_length: "length s = length t \<Longrightarrow> strcmp s t = 0 \<longleftrightarrow> s = t"
  by (induction s t rule: strcmp.induct) auto

lemma str_equal_iff: "str_equal cm s t \<longleftrightarrow> (if cm then s = t else map cmap s = map cmap t)"
  by (auto simp: str_equal_def strcasecmp_def strcmp_zero_same_length dest: map_eq_imp_length_eq)

section \<open>Equality is sameness of normal forms\<close>

text \<open>
  The normal form of a value: truth values as the integers they equal, strings folded to
  lower case unless case matters, doubles as their place in the order, maps as the sequence
  of their entries.
\<close>

datatype nf =
    NInt num | NObj objid | NStr string | NErr error | NList "nf list" | NClear | NNone
  | NFloat int | NMap "(nf \<times> nf) list" | NAnon "nat option" | NWaif nat | NMarker

fun nform :: "bool \<Rightarrow> var \<Rightarrow> nf" where
  "nform cm (VINT n) = NInt n"
| "nform cm (VBOOL b) = NInt (of_bool b)"
| "nform cm (VOBJ i) = NObj i"
| "nform cm (VSTR s) = NStr (if cm then s else map cmap s)"
| "nform cm (VERR e) = NErr e"
| "nform cm (VLIST xs) = NList (map (nform cm) xs)"
| "nform cm VCLEAR = NClear"
| "nform cm VNONE = NNone"
| "nform cm (VFLOAT f) = NFloat (f_ord f)"
| "nform cm (VMAP t) = NMap (map (\<lambda>p. (nform cm (fst p), nform cm (snd p))) (map_items t))"
| "nform cm (VANON a) = NAnon a"
| "nform cm (VWAIF w) = NWaif w"
| "nform cm _ = NMarker"

lemma eq_all_map:
  "(\<And>x y. x \<in> set xs \<Longrightarrow> y \<in> set ys \<Longrightarrow> eq x y = Some (f x = g y)) \<Longrightarrow>
   eq_all eq xs ys = Some (map f xs = map g ys)"
  by (induction eq xs ys rule: eq_all.induct) auto

lemma equality_nform_scalar:
  "storable l \<Longrightarrow> storable r \<Longrightarrow> (\<forall>xs. l \<noteq> VLIST xs) \<Longrightarrow> (\<forall>t. l \<noteq> VMAP t) \<Longrightarrow>
   equality l r cm = Some (nform cm l = nform cm r)"
  by (cases l; cases r) (auto simp: equality_type_eq str_equal_iff f_eq_def, auto simp: equality.simps)

lemma equality_nform:
  "storable l \<Longrightarrow> storable r \<Longrightarrow> equality l r cm = Some (nform cm l = nform cm r)"
proof (induction l arbitrary: r rule: storable.induct)
  case (6 xs)
  show ?case
  proof (cases "\<exists>ys. r = VLIST ys")
    case True
    then obtain ys where r: "r = VLIST ys" by blast
    have "eq_all (\<lambda>x y. equality x y cm) xs ys = Some (map (nform cm) xs = map (nform cm) ys)"
      by (rule eq_all_map) (use 6 r in \<open>auto simp: list_all_iff\<close>)
    then show ?thesis unfolding r by (auto simp: equality_type_eq dest: map_eq_imp_length_eq)
  next
    case False
    then show ?thesis by (cases r) (auto simp: equality.simps)
  qed
next
  case (7 t)
  show ?case
  proof (cases "\<exists>u. r = VMAP u")
    case True
    then obtain u where r: "r = VMAP u" by blast
    let ?f = "\<lambda>p. (nform cm (fst p), nform cm (snd p))"
    have "eq_all (eq_pair (\<lambda>x y. equality x y cm)) (map_items t) (map_items u) =
          Some (map ?f (map_items t) = map ?f (map_items u))"
      by (rule eq_all_map) (use 7 r in \<open>auto simp: list_all_iff eq_pair_def\<close>)
    then show ?thesis unfolding r by (simp add: equality_type_eq)
  next
    case False
    then show ?thesis by (cases r) (auto simp: equality.simps)
  qed
qed (simp_all add: equality_nform_scalar)

lemma equality_True_iff:
  "storable l \<Longrightarrow> storable r \<Longrightarrow> equality l r cm = Some True \<longleftrightarrow> nform cm l = nform cm r"
  by (simp add: equality_nform)

text \<open>\<^verbatim>\<open>ismember\<close> on a list finds the first element with the normal form sought.\<close>

lemma first_equal_Some:
  assumes "\<And>y. y \<in> set ys \<Longrightarrow> eq y = Some (P y)"
  shows "first_equal eq i ys =
    Some (case List.find P ys of
            None \<Rightarrow> 0
          | Some _ \<Rightarrow> i + length (takeWhile (\<lambda>y. \<not> P y) ys))"
  using assms by (induction ys arbitrary: i) (auto split: option.split)

section \<open>Order and equality properties\<close>

lemma to_int32_eq_0_iff: "to_int32 x = 0 \<longleftrightarrow> x mod 2 ^ 32 = 0"
proof -
  have "signed_take_bit 31 x = 0 \<longleftrightarrow> take_bit (Suc 31) x = take_bit (Suc 31) (0::int)"
    using signed_take_bit_eq_iff_take_bit_eq [of 31 x 0] by simp
  then show ?thesis by (simp add: to_int32_def take_bit_eq_mod)
qed

lemma sint_diff_mod32: "sint (a - b :: num) mod 2 ^ 32 = (uint a - uint b) mod 2 ^ 32"
proof -
  have "take_bit 32 (sint (a - b)) = take_bit 32 (take_bit 64 (sint (a - b)))"
    by simp
  also have "take_bit 64 (sint (a - b)) = uint (a - b)"
    by (simp add: uint_sint)
  also have "take_bit 32 (uint (a - b)) = take_bit 32 (uint a - uint b)"
    by (simp add: uint_word_arith_bintrs(2) take_bit_take_bit min_def)
  finally show ?thesis by (simp add: take_bit_eq_mod)
qed

text \<open>
  C39: on storable values \<^verbatim>\<open>equality\<close> never panics and decides sameness of normal
  form, so it is an equivalence relation, case-sensitively and case-insensitively.
\<close>

theorem equality_equivalence:
  assumes "storable a" "storable b" "storable c"
  shows "equality a b cm = Some (nform cm a = nform cm b) \<and>
    equality a a cm = Some True \<and>
    equality b a cm = equality a b cm \<and>
    (equality a b cm = Some True \<longrightarrow> equality b c cm = Some True \<longrightarrow> equality a c cm = Some True)"
  using assms by (auto simp: equality_nform)

theorem equality_equivalence_witness:
  "storable (VBOOL True) \<and> storable (VINT 1) \<and> storable (VINT 1) \<and>
   equality (VBOOL True) (VINT 1) False = Some True"
proof -
  have a: "storable (VBOOL True)" and b: "storable (VINT 1)" by simp_all
  show ?thesis using equality_equivalence [OF a b b, of False] a b by simp
qed

text \<open>
  C40: \<^verbatim>\<open>compare\<close> calls two integers equal exactly when they agree in their low 32
  bits: the 64-bit difference is returned as an \<^verbatim>\<open>int\<close>.
\<close>

theorem compare_int_zero_iff:
  "compare (VINT a) (VINT b) cm = Some 0 \<longleftrightarrow> uint a mod 2 ^ 32 = uint b mod 2 ^ 32"
proof -
  have "sint (a - b) mod 2 ^ 32 = 0 \<longleftrightarrow> (2 ^ 32) dvd (uint a - uint b)"
    by (metis mod_eq_0_iff_dvd sint_diff_mod32)
  then show ?thesis
    by (simp add: compare_def v_num_def to_int32_eq_0_iff mod_eq_dvd_iff)
qed

end
