(* ===== verification/Strings.thy ===== *)
theory Strings
  imports Values
begin

text \<open>
  The string routines of \<^verbatim>\<open>utils.cc\<close>: verb-name patterns, the case-insensitive
  hash, searching and substitution, and the two encodings of raw bytes as MOO strings.
  A C string pointer that walks over a string is the list of bytes that remain.
\<close>

section \<open>Verb-name patterns (verbcasecmp)\<close>

datatype star = StarNone | StarInner | StarEnd

abbreviation SP :: char where "SP \<equiv> CHR '' ''"
abbreviation STARCH :: char where "STARCH \<equiv> CHR ''*''"

text \<open>\<open>at_end v\<close> is the source's test \<^verbatim>\<open>!*v || *v == ' '\<close>.\<close>

definition at_end :: "string \<Rightarrow> bool" where
  "at_end v = (case v of [] \<Rightarrow> True | c # _ \<Rightarrow> c = SP)"

fun skip_stars :: "string \<Rightarrow> star \<Rightarrow> string \<times> star" where
  "skip_stars (c # v) star =
     (if c = STARCH then skip_stars v (if at_end v then StarEnd else StarInner)
      else (c # v, star))"
| "skip_stars [] star = ([], star)"

text \<open>The \<^verbatim>\<open>while (1)\<close> loop over one name of the verb.\<close>

fun vc_inner :: "string \<Rightarrow> string \<Rightarrow> star \<Rightarrow> string \<times> string \<times> star" where
  "vc_inner v [] star = (let (v1, star1) = skip_stars v star in (v1, [], star1))"
| "vc_inner v (d # w) star =
     (let (v1, star1) = skip_stars v star in
      if at_end v1 \<or> cmap d \<noteq> cmap (hd v1) then (v1, d # w, star1)
      else vc_inner (tl v1) w star1)"

definition next_name :: "string \<Rightarrow> string" where
  "next_name v = dropWhile (\<lambda>c. c = SP) (dropWhile (\<lambda>c. c \<noteq> SP) v)"

lemma length_skip_stars: "length (fst (skip_stars v star)) \<le> length v"
  by (induction v star rule: skip_stars.induct) auto

lemma length_vc_inner: "length (fst (vc_inner v w star)) \<le> length v"
proof (induction v w star rule: vc_inner.induct)
  case (1 v star)
  then show ?case using length_skip_stars [of v star] by (auto split: prod.split)
next
  case (2 v d w star)
  obtain v1 star1 where v1: "skip_stars v star = (v1, star1)" by fastforce
  with length_skip_stars [of v star] have "length v1 \<le> length v" by simp
  with 2 [of "(v1, star1)" v1 star1] v1 show ?case by (auto intro: order_trans)
qed

lemma length_next_name: "v \<noteq> [] \<Longrightarrow> length (next_name v) < length v"
proof -
  assume "v \<noteq> []"
  have "length (dropWhile P u) \<le> length u" for P and u :: string
    by (rule length_dropWhile_le)
  then show ?thesis using \<open>v \<noteq> []\<close>
    by (cases v) (auto simp: next_name_def less_Suc_eq_le intro: order_trans)
qed

text \<open>
  The outer loop, one name of the verb per round; \<open>same\<close> says that the two pointers are
  the same one, the source's first test.
\<close>

function vc_names :: "string \<Rightarrow> string \<Rightarrow> bool" where
  "vc_names v word =
     (if v = [] then False
      else let (v1, w1, star) = vc_inner v word StarNone in
        if (if w1 = [] then star \<noteq> StarNone \<or> at_end v1 else star = StarEnd) then True
        else vc_names (next_name v1) word)"
  by pat_completeness auto
termination
proof (relation "measure (\<lambda>(v, word). length v)", simp, clarsimp)
  fix v word v1 w1 star
  assume v: "v \<noteq> []" and eq: "(v1, w1, star) = vc_inner v word StarNone"
  from length_vc_inner [of v word StarNone] eq have "length v1 \<le> length v"
    by (metis fst_conv)
  with v length_next_name [of v1] show "length (next_name v1) < length v"
    by (cases "v1 = []") (auto simp: next_name_def)
qed

declare vc_names.simps [simp del]

definition verbcasecmp :: "bool \<Rightarrow> string \<Rightarrow> string \<Rightarrow> bool" where
  "verbcasecmp same verb word = (same \<or> vc_names verb word)"

subsection \<open>What a verb-name pattern means\<close>

text \<open>
  The names of a verb are separated by spaces. A name matches a word when the word is the
  name's letters; or, if the name has a star, when the word is a prefix of the letters at
  least as long as the part before the first star; or, if the name ends in a star, when
  the word extends the letters. Letters compare without case.
\<close>

function verb_alts :: "string \<Rightarrow> string list" where
  "verb_alts v =
     (if v = [] then [] else takeWhile (\<lambda>c. c \<noteq> SP) v # verb_alts (next_name v))"
  by pat_completeness auto
termination
  by (relation "measure length") (auto simp: length_next_name)

declare verb_alts.simps [simp del]

definition letters :: "string \<Rightarrow> string" where
  "letters alt = map cmap (filter (\<lambda>c. c \<noteq> STARCH) alt)"

definition alt_matches :: "string \<Rightarrow> string \<Rightarrow> bool" where
  "alt_matches alt word \<longleftrightarrow>
     (let w = map cmap word in
      w = letters alt
      \<or> STARCH \<in> set alt \<and> prefix w (letters alt)
          \<and> length (takeWhile (\<lambda>c. c \<noteq> STARCH) alt) \<le> length word
      \<or> alt \<noteq> [] \<and> last alt = STARCH \<and> prefix (letters alt) w)"

lemma vc_inner_Nil [simp]: "vc_inner [] w star = ([], w, star)"
  by (cases w) (auto simp: at_end_def)

lemma vc_inner_star [simp]:
  "vc_inner (STARCH # v) w star = vc_inner v w (if at_end v then StarEnd else StarInner)"
  by (cases w) auto

lemma vc_inner_letter [simp]:
  "c \<noteq> STARCH \<Longrightarrow> vc_inner (c # v) w star =
     (case w of
        [] \<Rightarrow> (c # v, [], star)
      | d # w' \<Rightarrow> if c = SP \<or> cmap d \<noteq> cmap c then (c # v, w, star) else vc_inner v w' star)"
  by (cases w) (auto simp: at_end_def)

text \<open>The test after the inner loop.\<close>

definition vc_accept :: "string \<times> string \<times> star \<Rightarrow> bool" where
  "vc_accept r = (case r of (v, w, star) \<Rightarrow>
     if w = [] then star \<noteq> StarNone \<or> at_end v else star = StarEnd)"

text \<open>What the inner loop accepts from the middle of a name, given the stars seen so far.\<close>

definition alt_accepts :: "string \<Rightarrow> string \<Rightarrow> star \<Rightarrow> bool" where
  "alt_accepts alt word star \<longleftrightarrow>
     (let w = map cmap word in
      w = letters alt
      \<or> prefix w (letters alt) \<and> (star \<noteq> StarNone
          \<or> STARCH \<in> set alt \<and> length (takeWhile (\<lambda>c. c \<noteq> STARCH) alt) \<le> length word)
      \<or> prefix (letters alt) w \<and> (if alt = [] then star = StarEnd else last alt = STARCH))"

lemma letters_simps [simp]:
  "letters [] = []" "letters (STARCH # v) = letters v"
  "c \<noteq> STARCH \<Longrightarrow> letters (c # v) = cmap c # letters v"
  by (simp_all add: letters_def)

lemma at_end_append: "SP \<notin> set alt \<Longrightarrow> at_end rest \<Longrightarrow> at_end (alt @ rest) \<longleftrightarrow> alt = []"
  by (cases alt) (auto simp: at_end_def)

lemma vc_inner_accepts:
  assumes "SP \<notin> set alt" and "at_end rest" and "star = StarEnd \<Longrightarrow> alt = []"
  shows "vc_accept (vc_inner (alt @ rest) word star) \<longleftrightarrow> alt_accepts alt word star"
  using assms(1,3)
proof (induction alt arbitrary: word star)
  case Nil
  have "vc_inner rest word star = (rest, word, star)"
    using assms(2) by (cases rest; cases word) (auto simp: at_end_def)
  with assms(2) show ?case
    by (auto simp: vc_accept_def alt_accepts_def)
next
  case (Cons c alt)
  show ?case
  proof (cases "c = STARCH")
    case True
    let ?s = "if at_end (alt @ rest) then StarEnd else StarInner"
    have "vc_accept (vc_inner (alt @ rest) word ?s) = alt_accepts alt word ?s"
      using Cons.prems assms(2) by (intro Cons.IH) (auto simp: at_end_append split: if_splits)
    moreover have "alt_accepts alt word ?s = alt_accepts (c # alt) word star"
      using Cons.prems assms(2) True by (auto simp: alt_accepts_def at_end_append Let_def)
    ultimately show ?thesis using True by simp
  next
    case False
    with Cons.prems(1) have c: "c \<noteq> SP" by auto
    have no_end: "star \<noteq> StarEnd" using Cons.prems by auto
    show ?thesis
    proof (cases word)
      case Nil
      with False c no_end show ?thesis
        by (auto simp: vc_accept_def alt_accepts_def at_end_def)
    next
      case (Cons d word')
      show ?thesis
      proof (cases "cmap d = cmap c")
        case True
        have "vc_accept (vc_inner (alt @ rest) word' star) = alt_accepts alt word' star"
          using Cons.prems no_end by (intro Cons.IH) auto
        moreover have "alt_accepts alt word' star = alt_accepts (c # alt) word star"
          using True False no_end \<open>word = _\<close> by (auto simp: alt_accepts_def Let_def)
        ultimately show ?thesis using \<open>word = _\<close> True False c by (simp add: at_end_def)
      next
        case neq: False
        then show ?thesis using \<open>word = _\<close> False c no_end
          by (auto simp: vc_accept_def alt_accepts_def)
      qed
    qed
  qed
qed

lemma alt_accepts_matches: "alt_accepts alt word StarNone \<longleftrightarrow> alt_matches alt word"
  by (auto simp: alt_accepts_def alt_matches_def Let_def)

lemma vc_inner_rest:
  "SP \<notin> set alt \<Longrightarrow> at_end rest \<Longrightarrow>
   \<exists>alt'. SP \<notin> set alt' \<and> fst (vc_inner (alt @ rest) word star) = alt' @ rest"
proof (induction alt arbitrary: word star)
  case Nil
  then show ?case
    by (cases rest; cases word) (auto simp: at_end_def intro: exI [of _ "[]"])
next
  case (Cons c alt)
  show ?case
  proof (cases "c = STARCH")
    case True
    then show ?thesis using Cons by simp
  next
    case False
    with Cons show ?thesis
      by (auto split: list.split intro: exI [of _ "c # alt"])
  qed
qed

lemma next_name_append: "SP \<notin> set alt \<Longrightarrow> next_name (alt @ rest) = next_name rest"
  by (induction alt) (auto simp: next_name_def)

lemma vc_names_correct: "vc_names v word \<longleftrightarrow> (\<exists>alt \<in> set (verb_alts v). alt_matches alt word)"
proof (induction v rule: verb_alts.induct)
  case (1 v)
  show ?case
  proof (cases "v = []")
    case True
    then show ?thesis by (simp add: vc_names.simps verb_alts.simps)
  next
    case False
    define alt where "alt = takeWhile (\<lambda>c. c \<noteq> SP) v"
    define rest where "rest = dropWhile (\<lambda>c. c \<noteq> SP) v"
    have v: "v = alt @ rest" by (simp add: alt_def rest_def)
    have sp: "SP \<notin> set alt" by (auto simp: alt_def dest: set_takeWhileD)
    have ae: "at_end rest"
      using dropWhile_eq_Cons_conv [of "\<lambda>c. c \<noteq> SP" v] by (auto simp: rest_def at_end_def split: list.split)
    obtain v1 w1 star where r: "vc_inner v word StarNone = (v1, w1, star)" by (metis prod_cases3)
    have acc: "(if w1 = [] then star \<noteq> StarNone \<or> at_end v1 else star = StarEnd) \<longleftrightarrow> alt_matches alt word"
      using vc_inner_accepts [OF sp ae, of StarNone word] r
      by (simp add: vc_accept_def alt_accepts_matches v [symmetric])
    from vc_inner_rest [OF sp ae, of word StarNone] r obtain alt' where
      "SP \<notin> set alt'" "v1 = alt' @ rest" by (auto simp: v [symmetric])
    then have "next_name v1 = next_name v" using sp by (simp add: next_name_append v)
    then have "vc_names v word \<longleftrightarrow> alt_matches alt word \<or> vc_names (next_name v) word"
      using False r acc by (subst vc_names.simps) auto
    moreover have "set (verb_alts v) = insert alt (set (verb_alts (next_name v)))"
      using False by (subst verb_alts.simps) (simp add: alt_def)
    ultimately show ?thesis using 1 False by auto
  qed
qed

section \<open>The case-insensitive hash (str_hash)\<close>

text \<open>
  The table entry is a (signed) \<^verbatim>\<open>char\<close>, so it is sign-extended before it is
  added to the 32-bit hash.
\<close>

definition hash_step :: "32 word \<Rightarrow> char \<Rightarrow> 32 word" where
  "hash_step ans c =
     push_bit 3 ans + drop_bit 28 ans + scast (of_nat (byte_of (cmap c)) :: 8 word)"

definition str_hash :: "string \<Rightarrow> 32 word" where
  "str_hash s = foldl hash_step 0 s"

section \<open>Searching (strindex, strrindex)\<close>

text \<open>
  \<^verbatim>\<open>strncmp(s, what, n) == 0\<close> and \<^verbatim>\<open>strncasecmp\<close>: the first \<open>n\<close> bytes
  agree, where the strings end they end together.
\<close>

definition strn_eq :: "bool \<Rightarrow> nat \<Rightarrow> string \<Rightarrow> string \<Rightarrow> bool" where
  "strn_eq case_counts n s t =
     (if case_counts then take n s = take n t else map cmap (take n s) = map cmap (take n t))"

text \<open>
  The forward loop: \<open>k\<close> positions are left to try, \<open>i\<close> is the offset of the next one.
  The backward loop starts at the last position.
\<close>

fun strindex_from :: "bool \<Rightarrow> string \<Rightarrow> string \<Rightarrow> nat \<Rightarrow> nat \<Rightarrow> nat" where
  "strindex_from cc source what i 0 = 0"
| "strindex_from cc source what i (Suc k) =
     (if strn_eq cc (length what) (drop i source) what then i + 1
      else strindex_from cc source what (Suc i) k)"

definition strindex :: "string \<Rightarrow> string \<Rightarrow> bool \<Rightarrow> nat" where
  "strindex source what case_counts =
     (if length source < length what then 0
      else strindex_from case_counts source what 0 (Suc (length source - length what)))"

fun strrindex_from :: "bool \<Rightarrow> string \<Rightarrow> string \<Rightarrow> nat \<Rightarrow> nat" where
  "strrindex_from cc source what 0 =
     (if strn_eq cc (length what) source what then 1 else 0)"
| "strrindex_from cc source what (Suc i) =
     (if strn_eq cc (length what) (drop (Suc i) source) what then Suc i + 1
      else strrindex_from cc source what i)"

definition strrindex :: "string \<Rightarrow> string \<Rightarrow> bool \<Rightarrow> nat" where
  "strrindex source what case_counts =
     (if length source < length what then 0
      else strrindex_from case_counts source what (length source - length what))"

section \<open>Substitution (stream_add_strsub)\<close>

text \<open>
  The loop never advances when \<open>what\<close> is empty and found, so it may not end; \<open>None\<close>
  is that. What it appends to the stream is the result.
\<close>

partial_function (option) strsub :: "bool \<Rightarrow> string \<Rightarrow> string \<Rightarrow> string \<Rightarrow> string \<Rightarrow> string option"
  where [code]: "strsub cc what with_str out source =
     (if source = [] then Some out
      else if strn_eq cc (length what) source what
        then strsub cc what with_str (out @ with_str) (drop (length what) source)
      else strsub cc what with_str (out @ [hd source]) (tl source))"

section \<open>Raw bytes as MOO strings\<close>

text \<open>\<^verbatim>\<open>isgraph\<close> of the C library in the default locale.\<close>

definition isgraph :: "char \<Rightarrow> bool" where
  "isgraph c = (33 \<le> byte_of c \<and> byte_of c \<le> 126)"

definition raw_bytes_to_clean :: "string \<Rightarrow> string" where
  "raw_bytes_to_clean buffer = filter (\<lambda>c. isgraph c \<or> c = SP) buffer"

text \<open>The two hexadecimal digits that \<^verbatim>\<open>~%02X\<close> prints.\<close>

definition hex_digit :: "nat \<Rightarrow> char" where
  "hex_digit n = (if n < 10 then char_of (48 + n) else char_of (55 + n))"

abbreviation TILDE :: char where "TILDE \<equiv> CHR ''~''"

definition encode_byte :: "char \<Rightarrow> string" where
  "encode_byte c =
     (if c \<noteq> TILDE \<and> (isgraph c \<or> c = SP) then [c]
      else [TILDE, hex_digit (byte_of c div 16), hex_digit (byte_of c mod 16)])"

definition raw_bytes_to_binary :: "string \<Rightarrow> string" where
  "raw_bytes_to_binary buffer = concat (map encode_byte buffer)"

text \<open>\<^verbatim>\<open>toupper\<close> and the digit test of \<^verbatim>\<open>binary_to_raw_bytes\<close>.\<close>

definition c_toupper :: "char \<Rightarrow> char" where
  "c_toupper c = (if 97 \<le> byte_of c \<and> byte_of c \<le> 122 then char_of (byte_of c - 32) else c)"

definition hex_value :: "char \<Rightarrow> nat option" where
  "hex_value ch =
     (let c = byte_of (c_toupper ch) in
      if 48 \<le> c \<and> c \<le> 57 then Some (c - 48)
      else if 65 \<le> c \<and> c \<le> 70 then Some (c - 65 + 10)
      else None)"

text \<open>\<open>None\<close> is the null pointer returned on a malformed escape.\<close>

fun binary_to_raw_bytes :: "string \<Rightarrow> string option" where
  "binary_to_raw_bytes [] = Some []"
| "binary_to_raw_bytes (c # s) =
     (if c \<noteq> TILDE then map_option ((#) c) (binary_to_raw_bytes s)
      else (case s of
          h # l # s' \<Rightarrow>
            (case (hex_value h, hex_value l) of
               (Some a, Some b) \<Rightarrow>
                 map_option ((#) (char_of (a * 16 + b))) (binary_to_raw_bytes s')
             | _ \<Rightarrow> None)
        | _ \<Rightarrow> None))"

section \<open>Lemmas\<close>

lemma hash_step_cmap: "hash_step a (cmap c) = hash_step a c"
  by (simp add: hash_step_def)

lemma str_hash_cmap: "str_hash (map cmap s) = str_hash s"
  unfolding str_hash_def by (simp add: foldl_map hash_step_cmap)

text \<open>The positions at which \<open>what\<close> occurs in \<open>source\<close>.\<close>

definition occurs_at :: "bool \<Rightarrow> string \<Rightarrow> string \<Rightarrow> nat \<Rightarrow> bool" where
  "occurs_at cc source what i \<longleftrightarrow>
     i + length what \<le> length source \<and> strn_eq cc (length what) (drop i source) what"

lemma strindex_from_zero:
  "strindex_from cc source what i k = 0 \<Longrightarrow> i \<le> j \<Longrightarrow> j < i + k \<Longrightarrow>
   \<not> strn_eq cc (length what) (drop j source) what"
proof (induction k arbitrary: i)
  case (Suc k)
  then show ?case by (cases "j = i") (auto split: if_splits)
qed simp

lemma strindex_from_Suc:
  "strindex_from cc source what i k = Suc p \<Longrightarrow>
   i \<le> p \<and> p < i + k \<and> strn_eq cc (length what) (drop p source) what \<and>
   (\<forall>j. i \<le> j \<longrightarrow> j < p \<longrightarrow> \<not> strn_eq cc (length what) (drop j source) what)"
proof (induction k arbitrary: i)
  case (Suc k)
  show ?case
  proof (cases "strn_eq cc (length what) (drop i source) what")
    case True
    with Suc.prems show ?thesis by auto
  next
    case False
    with Suc.IH [of "Suc i"] Suc.prems have
      IH: "Suc i \<le> p" "p < Suc i + k" "strn_eq cc (length what) (drop p source) what"
        "\<And>j. Suc i \<le> j \<Longrightarrow> j < p \<Longrightarrow> \<not> strn_eq cc (length what) (drop j source) what"
      by auto
    have "\<not> strn_eq cc (length what) (drop j source) what" if "i \<le> j" "j < p" for j
      using that False IH(4) [of j] by (cases "j = i") auto
    with IH show ?thesis by auto
  qed
qed simp

lemma strrindex_from_zero:
  "strrindex_from cc source what i = 0 \<Longrightarrow> j \<le> i \<Longrightarrow> \<not> strn_eq cc (length what) (drop j source) what"
  by (induction i) (auto simp: le_Suc_eq split: if_splits)

lemma strrindex_from_Suc:
  "strrindex_from cc source what i = Suc p \<Longrightarrow>
   p \<le> i \<and> strn_eq cc (length what) (drop p source) what \<and>
   (\<forall>j. p < j \<longrightarrow> j \<le> i \<longrightarrow> \<not> strn_eq cc (length what) (drop j source) what)"
  by (induction i) (auto simp: le_Suc_eq split: if_splits)

lemma strindex_zero_iff: "strindex source what cc = 0 \<longleftrightarrow> (\<forall>i. \<not> occurs_at cc source what i)"
proof (cases "length source < length what")
  case False
  show ?thesis
  proof
    assume "strindex source what cc = 0"
    then have "strindex_from cc source what 0 (Suc (length source - length what)) = 0"
      using False by (simp add: strindex_def del: strindex_from.simps)
    from strindex_from_zero [OF this] False show "\<forall>i. \<not> occurs_at cc source what i"
      by (force simp: occurs_at_def)
  next
    assume no: "\<forall>i. \<not> occurs_at cc source what i"
    show "strindex source what cc = 0"
    proof (rule ccontr)
      assume "strindex source what cc \<noteq> 0"
      then obtain p where
        "strindex_from cc source what 0 (Suc (length source - length what)) = Suc p"
        using False by (auto simp: strindex_def gr0_conv_Suc simp del: strindex_from.simps)
      from strindex_from_Suc [OF this] False have "occurs_at cc source what p"
        by (auto simp: occurs_at_def)
      with no show False by blast
    qed
  qed
qed (auto simp: strindex_def occurs_at_def)

lemma strindex_Suc:
  "strindex source what cc = Suc p \<Longrightarrow>
   occurs_at cc source what p \<and> (\<forall>j < p. \<not> occurs_at cc source what j)"
  by (auto simp: strindex_def occurs_at_def simp del: strindex_from.simps
      split: if_splits dest!: strindex_from_Suc)

lemma strrindex_zero: "strrindex source what cc = 0 \<Longrightarrow> \<not> occurs_at cc source what i"
  using strrindex_from_zero [of cc source what "length source - length what" i]
  by (auto simp: strrindex_def occurs_at_def split: if_splits)

lemma strrindex_Suc:
  "strrindex source what cc = Suc p \<Longrightarrow>
   occurs_at cc source what p \<and> (\<forall>j > p. \<not> occurs_at cc source what j)"
  by (auto simp: strrindex_def occurs_at_def split: if_splits dest!: strrindex_from_Suc)

lemma hex_value_digit: "n < 16 \<Longrightarrow> hex_value (hex_digit n) = Some n"
  by (auto simp: hex_value_def hex_digit_def c_toupper_def Let_def)

lemma binary_encode_byte:
  "binary_to_raw_bytes (encode_byte c @ s) = map_option ((#) c) (binary_to_raw_bytes s)"
proof -
  have "byte_of c div 16 < 16" and "byte_of c mod 16 < 16"
    using byte_of_bound [of c] by (simp_all add: less_mult_imp_div_less)
  then have "hex_value (hex_digit (byte_of c div 16)) = Some (byte_of c div 16)"
    and "hex_value (hex_digit (byte_of c mod 16)) = Some (byte_of c mod 16)"
    by (simp_all only: hex_value_digit)
  moreover have "byte_of c div 16 * 16 + byte_of c mod 16 = byte_of c" by simp
  ultimately show ?thesis by (auto simp: encode_byte_def simp del: One_nat_def)
qed

lemma binary_roundtrip: "binary_to_raw_bytes (raw_bytes_to_binary b) = Some b"
  by (induction b) (auto simp: raw_bytes_to_binary_def binary_encode_byte)

lemma strsub_terminates:
  "what \<noteq> [] \<Longrightarrow> \<exists>r. strsub cc what with_str out source = Some (out @ r)"
proof (induction "length source" arbitrary: source out rule: less_induct)
  case less
  show ?case
  proof (cases "source = []")
    case True
    then show ?thesis by (simp add: strsub.simps)
  next
    case False
    have "\<exists>r. strsub cc what with_str (out @ with_str) (drop (length what) source) = Some ((out @ with_str) @ r)"
      using less.hyps [of "drop (length what) source" "out @ with_str"] less.prems False by simp
    moreover have "\<exists>r. strsub cc what with_str (out @ [hd source]) (tl source) = Some ((out @ [hd source]) @ r)"
      using less.hyps [of "tl source" "out @ [hd source]"] less.prems False by simp
    ultimately show ?thesis using False by (subst strsub.simps) auto
  qed
qed

fun join :: "string \<Rightarrow> string list \<Rightarrow> string" where
  "join sep [] = []"
| "join sep [p] = p"
| "join sep (p # q # ps) = p @ sep @ join sep (q # ps)"

lemma join_Cons: "ps \<noteq> [] \<Longrightarrow> join sep (p # ps) = p @ sep @ join sep ps"
  by (cases ps) auto

lemma join_char: "ps \<noteq> [] \<Longrightarrow> join sep ((c # hd ps) # tl ps) = c # join sep ps"
  by (cases ps; cases "tl ps") auto

lemma strsub_pieces:
  "what \<noteq> [] \<Longrightarrow>
   \<exists>ps. ps \<noteq> [] \<and> source = join what ps \<and> strsub True what w out source = Some (out @ join w ps)"
proof (induction "length source" arbitrary: source out rule: less_induct)
  case less
  show ?case
  proof (cases "source = []")
    case True
    then show ?thesis by (intro exI [of _ "[[]]"]) (simp add: strsub.simps)
  next
    case False
    show ?thesis
    proof (cases "strn_eq True (length what) source what")
      case True
      then have src: "source = what @ drop (length what) source"
        by (simp add: strn_eq_def) (metis append_take_drop_id)
      from less.hyps [of "drop (length what) source" "out @ w"] less.prems False obtain ps where
        "ps \<noteq> []" "drop (length what) source = join what ps"
        "strsub True what w (out @ w) (drop (length what) source) = Some ((out @ w) @ join w ps)"
        by auto
      with True False src show ?thesis
        by (intro exI [of _ "[] # ps"]) (subst strsub.simps, simp add: join_Cons, metis)
    next
      case neq: False
      from less.hyps [of "tl source" "out @ [hd source]"] less.prems False obtain ps where
        "ps \<noteq> []" "tl source = join what ps"
        "strsub True what w (out @ [hd source]) (tl source) = Some ((out @ [hd source]) @ join w ps)"
        by auto
      with False neq show ?thesis
        by (intro exI [of _ "(hd source # hd ps) # tl ps"])
           (subst strsub.simps, simp add: join_char, metis list.collapse)
    qed
  qed
qed

section \<open>Properties\<close>

text \<open>
  C32: \<^verbatim>\<open>verbcasecmp\<close> accepts a word exactly when one of the verb's space-separated
  names matches it, under the star rules of verb names.
\<close>

theorem verbcasecmp_correct:
  "verbcasecmp False verb word \<longleftrightarrow> (\<exists>alt \<in> set (verb_alts verb). alt_matches alt word)"
  by (simp add: verbcasecmp_def vc_names_correct)

text \<open>
  C33: decoding the binary-string encoding of any bytes gives the bytes back, and the
  encoding holds printable characters and spaces only.
\<close>

theorem binary_string_roundtrip:
  "binary_to_raw_bytes (raw_bytes_to_binary b) = Some b \<and>
   raw_bytes_to_clean (raw_bytes_to_binary b) = raw_bytes_to_binary b"
proof -
  have "isgraph (hex_digit n)" if "n < 16" for n
    using that by (auto simp: isgraph_def hex_digit_def)
  moreover have "byte_of c div 16 < 16" for c
    using byte_of_bound [of c] by (simp add: less_mult_imp_div_less)
  moreover have "isgraph TILDE" by (simp add: isgraph_def byte_of_def)
  ultimately have "\<forall>c \<in> set (raw_bytes_to_binary b). isgraph c \<or> c = SP"
    by (auto simp: raw_bytes_to_binary_def encode_byte_def split: if_splits)
  then show ?thesis
    by (simp add: binary_roundtrip raw_bytes_to_clean_def filter_id_conv)
qed

text \<open>
  C36: \<^verbatim>\<open>strindex\<close> returns the one-based position of the first occurrence,
  \<^verbatim>\<open>strrindex\<close> that of the last, and both return 0 exactly when there is none.
\<close>

theorem strindex_strrindex_correct:
  "(strindex source what cc = 0 \<longleftrightarrow> (\<forall>i. \<not> occurs_at cc source what i)) \<and>
   (strindex source what cc = Suc p \<longrightarrow>
      occurs_at cc source what p \<and> (\<forall>j < p. \<not> occurs_at cc source what j)) \<and>
   (strrindex source what cc = 0 \<longleftrightarrow> strindex source what cc = 0) \<and>
   (strrindex source what cc = Suc q \<longrightarrow>
      occurs_at cc source what q \<and> (\<forall>j > q. \<not> occurs_at cc source what j))"
proof -
  have "strrindex source what cc = 0 \<longleftrightarrow> strindex source what cc = 0"
    using strindex_zero_iff [of source what cc] strrindex_zero [of source what cc]
      strrindex_Suc [of source what cc] by (metis not0_implies_Suc)
  then show ?thesis using strindex_zero_iff strindex_Suc strrindex_Suc by blast
qed

theorem strindex_strrindex_correct_witness:
  "strindex ''abcabc'' ''BC'' False = Suc 1 \<and> strrindex ''abcabc'' ''BC'' False = Suc 4 \<and>
   occurs_at False ''abcabc'' ''BC'' 1 \<and> \<not> occurs_at False ''abcabc'' ''BC'' 0 \<and>
   occurs_at False ''abcabc'' ''BC'' 4 \<and> \<not> occurs_at False ''abcabc'' ''BC'' 5"
proof -
  have a: "strindex ''abcabc'' ''BC'' False = Suc 1" and b: "strrindex ''abcabc'' ''BC'' False = Suc 4"
    by code_simp+
  show ?thesis
    using strindex_strrindex_correct [of "''abcabc''" "''BC''" False 1 4] a b by simp
qed

text \<open>
  Names that compare equal without case have the same hash, so the hash test that
  guards every property-name comparison never hides a match.
\<close>

theorem str_hash_respects_case:
  "c_string s \<Longrightarrow> c_string t \<Longrightarrow> strcasecmp s t = 0 \<Longrightarrow> str_hash s = str_hash t"
  by (metis strcasecmp_zero_iff str_hash_cmap)

theorem str_hash_respects_case_witness:
  "c_string ''Foo_Bar'' \<and> c_string ''foo_bar'' \<and> strcasecmp ''Foo_Bar'' ''foo_bar'' = 0 \<and>
   str_hash ''Foo_Bar'' = str_hash ''foo_bar''"
proof -
  have a: "c_string ''Foo_Bar''" and b: "c_string ''foo_bar''"
    and c: "strcasecmp ''Foo_Bar'' ''foo_bar'' = 0"
    by code_simp+
  show ?thesis using a b c str_hash_respects_case [OF a b c] by blast
qed



end
