(* ===== verification/Lists.thy ===== *)
theory Lists
  imports Strings
begin

text \<open>
  The list and string-range operations of \<^verbatim>\<open>list.cc\<close>. A MOO list is the sequence
  of its elements; positions are one-based, as in the source, where element 0 of the
  array holds the length. A read or write outside the array is \<open>None\<close>.
\<close>

section \<open>Operations\<close>

definition in_range :: "'a list \<Rightarrow> int \<Rightarrow> bool" where
  "in_range xs i = (1 \<le> i \<and> i \<le> int (length xs))"

text \<open>The elements at positions \<open>lo\<close> to \<open>hi\<close>; \<open>None\<close> if one is out of range.\<close>

definition elements :: "'a list \<Rightarrow> int \<Rightarrow> int \<Rightarrow> 'a list option" where
  "elements xs lo hi =
     (if hi < lo then Some []
      else if in_range xs lo \<and> in_range xs hi
      then Some (take (nat (hi - lo + 1)) (drop (nat (lo - 1)) xs)) else None)"

definition listset :: "'a list \<Rightarrow> 'a \<Rightarrow> int \<Rightarrow> 'a list option" where
  "listset xs v pos = (if in_range xs pos then Some (xs[nat (pos - 1) := v]) else None)"

text \<open>
  \<^verbatim>\<open>doinsert\<close>: positions below \<open>pos\<close> are copied, then the value, then the rest;
  its callers keep \<open>pos\<close> between 1 and the length plus one.
\<close>

definition doinsert :: "'a list \<Rightarrow> 'a \<Rightarrow> int \<Rightarrow> 'a list" where
  "doinsert xs v pos = take (nat (pos - 1)) xs @ v # drop (nat (pos - 1)) xs"

definition listinsert :: "'a list \<Rightarrow> 'a \<Rightarrow> int \<Rightarrow> 'a list" where
  "listinsert xs v pos =
     doinsert xs v (if pos \<le> 0 then 1
                    else if int (length xs) < pos then int (length xs) + 1 else pos)"

definition listappend :: "'a list \<Rightarrow> 'a \<Rightarrow> 'a list" where
  "listappend xs v = doinsert xs v (int (length xs) + 1)"

definition listdelete :: "'a list \<Rightarrow> int \<Rightarrow> 'a list option" where
  "listdelete xs pos =
     (if in_range xs pos then Some (take (nat (pos - 1)) xs @ drop (nat pos) xs) else None)"

definition listconcat :: "'a list \<Rightarrow> 'a list \<Rightarrow> 'a list" where
  "listconcat first second = first @ second"

definition setadd :: "var list \<Rightarrow> var \<Rightarrow> var list option" where
  "setadd xs v =
     (case ismember v (VLIST xs) False of
        None \<Rightarrow> None
      | Some i \<Rightarrow> Some (if i \<noteq> 0 then xs else listappend xs v))"

definition setremove :: "var list \<Rightarrow> var \<Rightarrow> var list option" where
  "setremove xs v =
     (case ismember v (VLIST xs) False of
        None \<Rightarrow> None
      | Some i \<Rightarrow> if i \<noteq> 0 then listdelete xs (int i) else Some xs)"

text \<open>
  The three copy loops of \<^verbatim>\<open>listrangeset\<close>; \<^verbatim>\<open>strrangeset\<close> runs the same
  loops over the bytes of strings.
\<close>

definition listrangeset :: "'a list \<Rightarrow> int \<Rightarrow> int \<Rightarrow> 'a list \<Rightarrow> 'a list option" where
  "listrangeset base from to value =
     (let base_len = int (length base);
          lenleft = (if from > 1 then from - 1 else 0);
          lenright = (if base_len > to then base_len - to else 0)
      in case (elements base 1 lenleft, elements base (to + 1) (to + lenright)) of
           (Some l, Some r) \<Rightarrow> Some (l @ value @ r)
         | _ \<Rightarrow> None)"

definition sublist :: "'a list \<Rightarrow> int \<Rightarrow> int \<Rightarrow> 'a list option" where
  "sublist xs lower upper = (if lower > upper then Some [] else elements xs lower upper)"

definition strrangeset :: "string \<Rightarrow> int \<Rightarrow> int \<Rightarrow> string \<Rightarrow> string option" where
  "strrangeset base from to value =
     (let base_len = int (length base);
          lenleft = (if from > 1 then from - 1 else 0);
          lenright = (if base_len > to then base_len - to else 0)
      in case (elements base 1 lenleft, elements base (to + 1) (to + lenright)) of
           (Some l, Some r) \<Rightarrow> Some (l @ value @ r)
         | _ \<Rightarrow> None)"

definition substr :: "string \<Rightarrow> int \<Rightarrow> int \<Rightarrow> string option" where
  "substr str lower upper = (if lower > upper then Some [] else elements str lower upper)"

definition strget :: "string \<Rightarrow> int \<Rightarrow> string option" where
  "strget str i = (if in_range str i then Some [str ! nat (i - 1)] else None)"

text \<open>\<^verbatim>\<open>enlist_var\<close> of \<^verbatim>\<open>list.h\<close>.\<close>

definition enlist_var :: "var \<Rightarrow> var list" where
  "enlist_var v = (case v of VLIST xs \<Rightarrow> xs | _ \<Rightarrow> [v])"

section \<open>Lemmas\<close>

lemma listappend_eq [simp]: "listappend xs v = xs @ [v]"
  by (simp add: listappend_def doinsert_def)

lemma length_listinsert [simp]: "length (listinsert xs v pos) = Suc (length xs)"
  by (auto simp: listinsert_def doinsert_def min_def)

lemma set_listinsert [simp]: "set (listinsert xs v pos) = insert v (set xs)"
  unfolding listinsert_def doinsert_def
  by (simp, metis Un_insert_right append_take_drop_id list.simps(15) set_append)

lemma mset_like_listdelete:
  "listdelete xs pos = Some ys \<Longrightarrow> in_range xs pos \<and> length ys = length xs - 1"
  by (auto simp: listdelete_def in_range_def split: if_splits)

lemma elements_Some_length:
  "elements xs lo hi = Some ys \<Longrightarrow> lo \<le> hi \<Longrightarrow> length ys = nat (hi - lo + 1)"
  by (auto simp: elements_def in_range_def split: if_splits)

lemma listrangeset_eq:
  assumes "1 \<le> from" "from \<le> to + 1" "to \<le> int (length base)"
  shows "listrangeset base from to value = Some (take (nat (from - 1)) base @ value @ drop (nat to) base)"
proof -
  have l: "elements base 1 (if from > 1 then from - 1 else 0) = Some (take (nat (from - 1)) base)"
    using assms by (auto simp: elements_def in_range_def)
  have r: "elements base (to + 1) (to + (if int (length base) > to then int (length base) - to else 0))
    = Some (drop (nat to) base)"
    using assms by (auto simp: elements_def in_range_def)
  show ?thesis by (simp add: listrangeset_def l r)
qed

lemma sublist_eq:
  assumes "1 \<le> lower" "lower \<le> upper + 1" "upper \<le> int (length xs)"
  shows "sublist xs lower upper = Some (take (nat (upper - lower + 1)) (drop (nat (lower - 1)) xs))"
  using assms by (auto simp: sublist_def elements_def in_range_def)

lemma in_range_listinsert_pos:
  "listdelete (listinsert xs v pos) (max 1 (min pos (int (length xs) + 1))) = Some xs"
proof -
  define n where "n = nat (max 1 (min pos (int (length xs) + 1)) - 1)"
  have n: "max 1 (min pos (int (length xs) + 1)) = int n + 1" "n \<le> length xs"
    by (auto simp: n_def)
  have "listinsert xs v pos = doinsert xs v (max 1 (min pos (int (length xs) + 1)))"
    by (auto simp: listinsert_def max_def min_def intro!: arg_cong [where f = "doinsert xs v"])
  then have "listinsert xs v pos = take n xs @ v # drop n xs"
    unfolding n by (simp add: doinsert_def)
  then show ?thesis
    unfolding n using n(2) by (simp add: listdelete_def in_range_def nat_add_distrib)
qed

lemma first_equal_list:
  assumes "storable v" "list_all storable xs"
  shows "ismember v (VLIST xs) cm =
     Some (if nform cm v \<in> nform cm ` set xs
           then Suc (length (takeWhile (\<lambda>y. nform cm v \<noteq> nform cm y) xs)) else 0)"
proof -
  have "first_equal (\<lambda>y. equality v y cm) 1 xs =
    Some (case List.find (\<lambda>y. nform cm v = nform cm y) xs of None \<Rightarrow> 0
      | Some _ \<Rightarrow> 1 + length (takeWhile (\<lambda>y. \<not> nform cm v = nform cm y) xs))"
    using assms by (intro first_equal_Some) (auto simp: equality_nform list_all_iff)
  moreover have "List.find (\<lambda>y. nform cm v = nform cm y) xs = None \<longleftrightarrow> nform cm v \<notin> nform cm ` set xs"
    by (auto simp: find_None_iff)
  ultimately show ?thesis
    by (auto simp: ismember_def split: option.split)
qed

lemma takeWhile_first_less:
  "v \<in> f ` set xs \<Longrightarrow> length (takeWhile (\<lambda>y. v \<noteq> f y) xs) < length xs"
  by (induction xs) auto

lemma map_remove_first:
  "v \<in> f ` set xs \<Longrightarrow>
   map f (take (length (takeWhile (\<lambda>y. v \<noteq> f y) xs)) xs @
          drop (Suc (length (takeWhile (\<lambda>y. v \<noteq> f y) xs))) xs) = remove1 v (map f xs)"
  by (induction xs) auto

section \<open>Properties\<close>

text \<open>
  Replacing a range of a list puts the new value there and nothing else moves:
  reading the range back gives the value, the left part is kept, and replacing it by what
  was there before restores the list.
\<close>

theorem listrangeset_sublist:
  assumes "1 \<le> from" "from \<le> to + 1" "to \<le> int (length base)"
  shows "\<exists>res old. listrangeset base from to value = Some res \<and>
    sublist base from to = Some old \<and>
    int (length res) = int (length base) + int (length value) - (to - from + 1) \<and>
    sublist res from (from + int (length value) - 1) = Some value \<and>
    sublist res 1 (from - 1) = sublist base 1 (from - 1) \<and>
    listrangeset res from (from + int (length value) - 1) old = Some base"
proof -
  define n where "n = nat (from - 1)"
  define m where "m = nat to"
  have nm: "n \<le> m" "m \<le> length base" "from = int n + 1" "to = int m"
    using assms by (auto simp: n_def m_def)
  let ?res = "take n base @ value @ drop m base"
  let ?old = "take (m - n) (drop n base)"
  have res: "listrangeset base from to value = Some ?res"
    using listrangeset_eq [OF assms] by (simp add: n_def m_def)
  moreover have "sublist base from to = Some ?old"
    using sublist_eq [OF assms] nm by (simp add: nat_diff_distrib)
  moreover have "sublist ?res from (from + int (length value) - 1) = Some value"
    using nm by (subst sublist_eq) auto
  moreover have "sublist ?res 1 (from - 1) = sublist base 1 (from - 1)"
    using nm by (subst (1 2) sublist_eq) auto
  moreover have "listrangeset ?res from (from + int (length value) - 1) ?old = Some base"
  proof -
    have "listrangeset ?res from (from + int (length value) - 1) ?old =
          Some (take n base @ ?old @ drop m base)"
      using nm by (subst listrangeset_eq) (auto simp: nat_add_distrib)
    also have "take n base @ ?old @ drop m base = base"
      using nm by (metis append.assoc append_take_drop_id le_add_diff_inverse take_add)
    finally show ?thesis .
  qed
  moreover have "int (length ?res) = int (length base) + int (length value) - (to - from + 1)"
    using nm by auto
  ultimately show ?thesis by blast
qed

theorem listrangeset_sublist_witness:
  "(1::int) \<le> 2 \<and> (2::int) \<le> 3 + 1 \<and> (3::int) \<le> int (length [10, 20, 30, 40::nat]) \<and>
   (\<exists>res old. listrangeset [10, 20, 30, 40::nat] 2 3 [7] = Some res \<and>
     sublist [10, 20, 30, 40] 2 3 = Some old \<and>
     int (length res) = int (length [10, 20, 30, 40::nat]) + int (length [7::nat]) - (3 - 2 + 1) \<and>
     sublist res 2 (2 + int (length [7::nat]) - 1) = Some [7] \<and>
     sublist res 1 (2 - 1) = sublist [10, 20, 30, 40] 1 (2 - 1) \<and>
     listrangeset res 2 (2 + int (length [7::nat]) - 1) old = Some [10, 20, 30, 40])"
  using listrangeset_sublist [of 2 3 "[10, 20, 30, 40::nat]" "[7]"] by simp

text \<open>
  \<^verbatim>\<open>setadd\<close> and \<^verbatim>\<open>setremove\<close> treat a list as a set under
  case-insensitive equality: adding appends only a value that is not there, removing drops
  the first occurrence only, and adding then removing a new value gives the list back.
\<close>

theorem setadd_setremove:
  assumes "storable v" "list_all storable xs"
  shows "setadd xs v = Some (if nform False v \<in> nform False ` set xs then xs else xs @ [v]) \<and>
    (\<exists>zs. setremove xs v = Some zs \<and>
          map (nform False) zs = remove1 (nform False v) (map (nform False) xs)) \<and>
    (nform False v \<notin> nform False ` set xs \<longrightarrow>
       setremove (xs @ [v]) v = Some xs)"
proof -
  let ?n = "nform False v"
  have add: "setadd xs v = Some (if ?n \<in> nform False ` set xs then xs else xs @ [v])"
    by (simp add: setadd_def first_equal_list [OF assms])
  have rem: "\<exists>zs. setremove xs v = Some zs \<and>
          map (nform False) zs = remove1 ?n (map (nform False) xs)"
  proof (cases "?n \<in> nform False ` set xs")
    case True
    let ?k = "length (takeWhile (\<lambda>y. ?n \<noteq> nform False y) xs)"
    have "?k < length xs"
      using True by (rule takeWhile_first_less)
    then have "setremove xs v = Some (take ?k xs @ drop (Suc ?k) xs)"
      using True
      by (simp add: setremove_def first_equal_list [OF assms] listdelete_def in_range_def nat_add_distrib)
    with map_remove_first [OF True] show ?thesis by blast
  next
    case False
    then show ?thesis
      by (auto simp: setremove_def first_equal_list [OF assms] remove1_idem)
  qed
  have "setremove (xs @ [v]) v = Some xs" if new: "?n \<notin> nform False ` set xs"
  proof -
    have "list_all storable (xs @ [v])" using assms by simp
    moreover have "takeWhile (\<lambda>y. ?n \<noteq> nform False y) (xs @ [v]) = xs"
      using new by (subst takeWhile_append2) auto
    ultimately show ?thesis
      using first_equal_list [OF assms(1), of "xs @ [v]" False] new
      by (simp add: setremove_def listdelete_def in_range_def)
  qed
  with add rem show ?thesis by blast
qed

theorem setadd_setremove_witness:
  "storable (VSTR ''B'') \<and> list_all storable [VSTR ''a'', VINT 1] \<and>
   setadd [VSTR ''a'', VINT 1] (VSTR ''B'') = Some [VSTR ''a'', VINT 1, VSTR ''B''] \<and>
   setremove [VSTR ''a'', VINT 1, VSTR ''B''] (VSTR ''B'') = Some [VSTR ''a'', VINT 1]"
proof -
  have a: "storable (VSTR ''B'')" and b: "list_all storable [VSTR ''a'', VINT 1]"
    by code_simp+
  have c: "nform False (VSTR ''B'') \<notin> nform False ` set [VSTR ''a'', VINT 1]"
    by code_simp
  from setadd_setremove [OF a b] c
  have "setadd [VSTR ''a'', VINT 1] (VSTR ''B'') = Some ([VSTR ''a'', VINT 1] @ [VSTR ''B''])"
    and "setremove ([VSTR ''a'', VINT 1] @ [VSTR ''B'']) (VSTR ''B'') = Some [VSTR ''a'', VINT 1]"
    by (simp_all only: if_False HOL.simp_thms)
  with a b show ?thesis by simp
qed

end
