(* ===== verification/DbObjects.thy ===== *)
theory DbObjects
  imports Lists "HOL-Library.AList"
begin

text \<open>
  The object table of \<^verbatim>\<open>db_objects.cc\<close>: objects and their attributes, creation and
  destruction, the graph walks behind ancestors, descendants, locations and contents, and
  the ancestor cache. The table \<^verbatim>\<open>objects\<close> is the list of its
  \<^verbatim>\<open>max_objects\<close> slots. Anonymous objects live outside the table, in a store from
  references to objects. \<open>None\<close> as the result of an operation is a panic or a
  dereference of a null or dangling pointer.
\<close>

section \<open>Objects (db_private.h)\<close>

record verbdef =
  vd_name :: string
  vd_program :: "nat option"
  vd_owner :: objid
  vd_perms :: int
  vd_prep :: int

record propdef =
  pd_name :: string
  pd_hash :: "32 word"

record pval =
  pv_var :: var
  pv_owner :: objid
  pv_perms :: "16 word"

text \<open>
  \<^verbatim>\<open>parents\<close> is one object number or a list of them (\<^verbatim>\<open>TYPE_OBJ\<close> or
  \<^verbatim>\<open>TYPE_LIST\<close>); \<^verbatim>\<open>children\<close> and \<^verbatim>\<open>contents\<close> are always lists
  of object numbers and \<^verbatim>\<open>location\<close> always an object number.
\<close>

datatype parents = POne objid | PMany "objid list"

record object =
  o_location :: objid
  o_last_move :: var
  o_contents :: "objid list"
  o_parents :: parents
  o_children :: "objid list"
  o_propdefs :: "propdef list"
  o_id :: objid
  o_owner :: objid
  o_name :: string
  o_propval :: "pval list"
  o_verbdefs :: "verbdef list"
  o_waif_propdefs :: "nat option"
  o_flags :: "32 word"

text \<open>A \<^verbatim>\<open>Var\<close> that refers to an object: a permanent or an anonymous one.\<close>

datatype oref = Perm objid | Anon nat

text \<open>
  An entry of the verb cache (\<^verbatim>\<open>vc_entry\<close> of \<^verbatim>\<open>db_verbs.cc\<close>): the object
  and name looked up and the handle found, a definer and the number of the verb on it.
\<close>

record vc_entry =
  vc_hash :: "32 word"
  vc_object :: oref
  vc_verbname :: string
  vc_handle :: "(oref \<times> nat) option"

text \<open>
  The state of the database: the object table, the anonymous objects, which of them are
  children of an object (\<^verbatim>\<open>anonymous_objects\<close>), the users, the ancestor cache, the
  buckets of the verb cache, \<open>None\<close> before its first use, and the counters of the verb cache.
\<close>

record db =
  objects :: "object option list"
  num_objects :: int
  array_size :: nat
  anon_store :: "nat \<Rightarrow> object option"
  anonymous_objects :: "(objid \<times> nat list) list"
  all_users :: "objid list"
  ancestor_cache :: "objid \<Rightarrow> objid list option"
  vc_table :: "(32 word \<Rightarrow> vc_entry list) option"
  db_verb_generation :: int
  verbcache_hit :: int
  verbcache_neg_hit :: int
  verbcache_miss :: int

abbreviation max_objects :: "db \<Rightarrow> int" where
  "max_objects d \<equiv> int (length (objects d))"

text \<open>\<^verbatim>\<open>db_object_flag\<close>, by bit number.\<close>

abbreviation "FLAG_USER \<equiv> 0 :: nat"
abbreviation "FLAG_PROGRAMMER \<equiv> 1 :: nat"
abbreviation "FLAG_WIZARD \<equiv> 2 :: nat"
abbreviation "FLAG_READ \<equiv> 4 :: nat"
abbreviation "FLAG_WRITE \<equiv> 5 :: nat"
abbreviation "FLAG_FERTILE \<equiv> 7 :: nat"
abbreviation "FLAG_ANONYMOUS \<equiv> 8 :: nat"
abbreviation "FLAG_INVALID \<equiv> 9 :: nat"
abbreviation "FLAG_RECYCLED \<equiv> 10 :: nat"

section \<open>Table access\<close>

definition find_in :: "object option list \<Rightarrow> objid \<Rightarrow> object option" where
  "find_in objs oid = (if oid < 0 \<or> oid \<ge> int (length objs) then None else objs ! nat oid)"

definition dbpriv_find_object :: "db \<Rightarrow> objid \<Rightarrow> object option" where
  "dbpriv_find_object d oid = find_in (objects d) oid"

definition valid :: "db \<Rightarrow> objid \<Rightarrow> bool" where
  "valid d oid = (dbpriv_find_object d oid \<noteq> None)"

fun dbpriv_dereference :: "db \<Rightarrow> oref \<Rightarrow> object option" where
  "dbpriv_dereference d (Perm oid) = dbpriv_find_object d oid"
| "dbpriv_dereference d (Anon a) = anon_store d a"

text \<open>An assignment to a field of \<^verbatim>\<open>*objects[oid]\<close> or of an anonymous object.\<close>

definition upd_obj :: "objid \<Rightarrow> (object \<Rightarrow> object) \<Rightarrow> db \<Rightarrow> db" where
  "upd_obj oid f d =
     (case dbpriv_find_object d oid of
        None \<Rightarrow> d
      | Some ob \<Rightarrow> d\<lparr>objects := (objects d)[nat oid := Some (f ob)]\<rparr>)"

fun upd_ref :: "oref \<Rightarrow> (object \<Rightarrow> object) \<Rightarrow> db \<Rightarrow> db" where
  "upd_ref (Perm oid) f d = upd_obj oid f d"
| "upd_ref (Anon a) f d =
     (case anon_store d a of
        None \<Rightarrow> d
      | Some ob \<Rightarrow> d\<lparr>anon_store := (anon_store d)(a := Some (f ob))\<rparr>)"

definition db_last_used_objid :: "db \<Rightarrow> objid" where
  "db_last_used_objid d = num_objects d - 1"

text \<open>
  The loops that step \<^verbatim>\<open>num_objects\<close> down over empty slots; reading
  \<^verbatim>\<open>objects[-1]\<close> is \<open>None\<close>.
\<close>

fun reset_last :: "object option list \<Rightarrow> nat \<Rightarrow> nat option" where
  "reset_last objs 0 = None"
| "reset_last objs (Suc n) = (if objs ! n \<noteq> None then Some (Suc n) else reset_last objs n)"

definition db_clear_ancestor_cache :: "db \<Rightarrow> db" where
  "db_clear_ancestor_cache d = d\<lparr>ancestor_cache := \<lambda>_. None\<rparr>"

definition db_reset_last_used_objid :: "db \<Rightarrow> db option" where
  "db_reset_last_used_objid d =
     map_option (\<lambda>n. db_clear_ancestor_cache (d\<lparr>num_objects := int n\<rparr>))
       (reset_last (objects d) (nat (num_objects d)))"

fun set_last :: "object option list \<Rightarrow> objid \<Rightarrow> nat \<Rightarrow> nat option" where
  "set_last objs oid 0 = None"
| "set_last objs oid (Suc n) =
     (if objs ! n = None \<and> int (Suc n) > oid then set_last objs oid n else Some (Suc n))"

definition db_set_last_used_objid :: "objid \<Rightarrow> db \<Rightarrow> db option" where
  "db_set_last_used_objid oid d =
     map_option (\<lambda>n. d\<lparr>num_objects := int n\<rparr>)
       (set_last (objects d) oid (nat (num_objects d)))"

text \<open>\<^verbatim>\<open>db_priv_affected_callable_verb_lookup\<close>: the verb cache is emptied.\<close>

definition db_priv_affected_callable_verb_lookup :: "db \<Rightarrow> db" where
  "db_priv_affected_callable_verb_lookup d =
     (case vc_table d of
        None \<Rightarrow> d
      | Some _ \<Rightarrow> d\<lparr>db_verb_generation := db_verb_generation d + 1, vc_table := Some (\<lambda>_. [])\<rparr>)"

section \<open>Growing the table\<close>

text \<open>\<^verbatim>\<open>for (size = start; size <= n; size *= 2)\<close>\<close>

function grow_size :: "nat \<Rightarrow> nat \<Rightarrow> nat" where
  "grow_size sz n = (if 0 < sz \<and> sz \<le> n then grow_size (sz * 2) n else sz)"
  by pat_completeness auto
termination
  by (relation "measure (\<lambda>(sz, n). Suc n - sz)") auto

declare grow_size.simps [simp del]

definition extend :: "nat \<Rightarrow> db \<Rightarrow> db" where
  "extend new_objects d =
     (let sz = grow_size 128 new_objects; asize = grow_size 4096 new_objects;
          objs = (if objects d = [] then replicate sz None
                  else if sz > length (objects d)
                  then objects d @ replicate (sz - length (objects d)) None
                  else objects d)
      in d\<lparr>objects := objs,
          array_size := (if array_size d = 0 then asize
                         else if asize > array_size d then asize else array_size d)\<rparr>)"

definition ensure_new_object :: "db \<Rightarrow> db" where
  "ensure_new_object d = extend (nat (num_objects d + 1)) d"

text \<open>
  \<^verbatim>\<open>dbpriv_after_load\<close>: slots at and above \<^verbatim>\<open>num_objects\<close>, where the loader
  parked anonymous objects, are emptied.
\<close>

definition dbpriv_after_load :: "db \<Rightarrow> db" where
  "dbpriv_after_load d =
     d\<lparr>objects := map (\<lambda>i. if int i < num_objects d then objects d ! i else None)
                    [0..<length (objects d)]\<rparr>"

section \<open>Creation and destruction\<close>

text \<open>The server option \<^verbatim>\<open>clear_last_move\<close> and an empty map.\<close>

abbreviation new_map :: var where "new_map \<equiv> VMAP (RBTree RBNil 0)"

definition db_init_object :: "bool \<Rightarrow> bool \<Rightarrow> object \<Rightarrow> object" where
  "db_init_object clear_last_move anonymous ob =
     ob\<lparr>o_name := [], o_flags := 0, o_parents := POne NOTHING, o_children := [],
        o_location := NOTHING,
        o_last_move := (if anonymous then VINT 0
                        else if clear_last_move then VINT 0 else new_map),
        o_contents := [], o_propval := [], o_propdefs := [], o_verbdefs := [],
        o_waif_propdefs := None\<rparr>"

text \<open>
  Memory fresh from the allocator: its contents are unspecified, and every field but
  \<^verbatim>\<open>owner\<close> is set before it is read.
\<close>

definition fresh_object :: "object \<Rightarrow> objid \<Rightarrow> object" where
  "fresh_object mem oid = mem\<lparr>o_id := oid, o_waif_propdefs := None\<rparr>"

definition dbpriv_new_object :: "object \<Rightarrow> objid \<Rightarrow> db \<Rightarrow> objid \<times> db" where
  "dbpriv_new_object mem new_objid d =
     (let (oid, d1) =
        (if new_objid \<le> 0 \<or> new_objid \<ge> num_objects d
         then (num_objects d, (ensure_new_object d)\<lparr>num_objects := num_objects d + 1\<rparr>)
         else (new_objid, d))
      in (oid, d1\<lparr>objects := (objects d1)[nat oid := Some (fresh_object mem oid)]\<rparr>))"

definition dbpriv_new_anonymous_object :: "object \<Rightarrow> db \<Rightarrow> db" where
  "dbpriv_new_anonymous_object mem d =
     (let d1 = ensure_new_object d
      in d1\<lparr>objects := (objects d1)[nat (num_objects d) := Some (fresh_object mem NOTHING)],
            num_objects := num_objects d + 1\<rparr>)"

definition dbpriv_new_recycled_object :: "db \<Rightarrow> db" where
  "dbpriv_new_recycled_object d = (ensure_new_object d)\<lparr>num_objects := num_objects d + 1\<rparr>"

definition db_create_object :: "bool \<Rightarrow> object \<Rightarrow> objid \<Rightarrow> bool \<Rightarrow> db \<Rightarrow> objid \<times> db" where
  "db_create_object clear_last_move mem new_objid anonymous d =
     (let want = (if new_objid \<le> 0 \<or> new_objid > num_objects d then num_objects d else new_objid);
          (oid, d1) = dbpriv_new_object mem want d
      in (oid, upd_obj oid (db_init_object clear_last_move anonymous) d1))"

definition has_flag :: "object \<Rightarrow> nat \<Rightarrow> bool" where
  "has_flag ob f = ((o_flags ob) AND (push_bit f 1) \<noteq> 0)"

definition set_flag :: "nat \<Rightarrow> object \<Rightarrow> object" where
  "set_flag f ob = ob\<lparr>o_flags := o_flags ob OR push_bit f 1\<rparr>"

definition clear_flag :: "nat \<Rightarrow> object \<Rightarrow> object" where
  "clear_flag f ob = ob\<lparr>o_flags := o_flags ob AND NOT (push_bit f 1)\<rparr>"

definition db_object_has_flag :: "db \<Rightarrow> objid \<Rightarrow> nat \<Rightarrow> bool" where
  "db_object_has_flag d oid f =
     (case dbpriv_find_object d oid of None \<Rightarrow> False | Some ob \<Rightarrow> has_flag ob f)"

definition is_wizard :: "db \<Rightarrow> objid \<Rightarrow> bool" where
  "is_wizard d oid = (valid d oid \<and> db_object_has_flag d oid FLAG_WIZARD)"

definition is_programmer :: "db \<Rightarrow> objid \<Rightarrow> bool" where
  "is_programmer d oid = (valid d oid \<and> db_object_has_flag d oid FLAG_PROGRAMMER)"

definition is_user :: "db \<Rightarrow> objid \<Rightarrow> bool" where
  "is_user d oid = (valid d oid \<and> db_object_has_flag d oid FLAG_USER)"

text \<open>
  \<^verbatim>\<open>setadd\<close>, \<^verbatim>\<open>setremove\<close> and \<^verbatim>\<open>ismember\<close> on lists of object
  numbers, where \<^verbatim>\<open>equality\<close> is equality of the numbers.
\<close>

definition oset_add :: "objid list \<Rightarrow> objid \<Rightarrow> objid list" where
  "oset_add xs x = (if x \<in> set xs then xs else xs @ [x])"

definition oset_remove :: "objid list \<Rightarrow> objid \<Rightarrow> objid list" where
  "oset_remove xs x = remove1 x xs"

definition db_set_object_flag :: "objid \<Rightarrow> nat \<Rightarrow> db \<Rightarrow> db" where
  "db_set_object_flag oid f d =
     (let d1 = upd_obj oid (set_flag f) d
      in if f = FLAG_USER then d1\<lparr>all_users := oset_add (all_users d) oid\<rparr> else d1)"

definition db_clear_object_flag :: "objid \<Rightarrow> nat \<Rightarrow> db \<Rightarrow> db" where
  "db_clear_object_flag oid f d =
     (let d1 = upd_obj oid (clear_flag f) d
      in if f = FLAG_USER then d1\<lparr>all_users := oset_remove (all_users d) oid\<rparr> else d1)"

text \<open>\<^verbatim>\<open>parents\<close> of an orphan: \<^verbatim>\<open>#-1\<close> or the empty list.\<close>

definition no_parents :: "parents \<Rightarrow> bool" where
  "no_parents p = (case p of POne x \<Rightarrow> x = NOTHING | PMany xs \<Rightarrow> xs = [])"

definition db_destroy_object :: "objid \<Rightarrow> db \<Rightarrow> db option" where
  "db_destroy_object oid d =
     (let d0 = db_priv_affected_callable_verb_lookup d in
      case dbpriv_find_object d0 oid of
        None \<Rightarrow> None
      | Some ob \<Rightarrow>
          if o_location ob \<noteq> NOTHING \<or> o_contents ob \<noteq> [] \<or> \<not> no_parents (o_parents ob)
             \<or> o_children ob \<noteq> [] then None
          else
            let d1 = (if is_user d0 oid
                      then d0\<lparr>all_users := oset_remove (all_users d0) oid\<rparr> else d0)
            in Some (d1\<lparr>objects := (objects d1)[nat oid := None]\<rparr>))"

section \<open>Graph walks (the DEFUNC macro)\<close>

text \<open>
  \<^verbatim>\<open>DEFUNC(name, field)\<close> generates a counting pass, a collecting pass and a driver
  for one field of the object. Both passes visit, depth first, every valid object that is
  reached through the field and whose bit is not yet set. The recursion is written with
  its pending objects as an explicit stack: an object's own field is visited before what
  was pending. \<open>bits\<close> lists the objects whose bit is set.
\<close>

definition unmarked :: "object option list \<Rightarrow> objid list \<Rightarrow> nat" where
  "unmarked objs bits = card {i. i < length objs \<and> int i \<notin> set bits}"

lemma unmarked_mark:
  assumes "find_in objs oid = Some ob" and "oid \<notin> set bits"
  shows "unmarked objs (oid # bits) < unmarked objs bits"
  unfolding unmarked_def
proof (rule psubset_card_mono)
  show "finite {i. i < length objs \<and> int i \<notin> set bits}" by simp
  have "nat oid < length objs" and "int (nat oid) = oid"
    using assms(1) by (auto simp: find_in_def split: if_splits)
  then have "nat oid \<in> {i. i < length objs \<and> int i \<notin> set bits}"
    and "nat oid \<notin> {i. i < length objs \<and> int i \<notin> set (oid # bits)}"
    using assms(2) by auto
  moreover have "{i. i < length objs \<and> int i \<notin> set (oid # bits)} \<subseteq>
        {i. i < length objs \<and> int i \<notin> set bits}"
    by auto
  ultimately show "{i. i < length objs \<and> int i \<notin> set (oid # bits)} \<subset>
        {i. i < length objs \<and> int i \<notin> set bits}"
    by blast
qed

function db1_count ::
  "object option list \<Rightarrow> (object \<Rightarrow> objid list) \<Rightarrow> objid list \<Rightarrow> objid list \<Rightarrow> nat \<Rightarrow> nat" where
  "db1_count objs fld [] bits n = n"
| "db1_count objs fld (oid # stack) bits n =
     (case find_in objs oid of
        None \<Rightarrow> db1_count objs fld stack bits n
      | Some o2 \<Rightarrow>
          if oid \<in> set bits then db1_count objs fld stack bits n
          else db1_count objs fld (fld o2 @ stack) (oid # bits) (n + 1))"
  by pat_completeness auto
termination
  by (relation "measures [\<lambda>(objs, fld, stack, bits, n). unmarked objs bits,
                          \<lambda>(objs, fld, stack, bits, n). length stack]")
     (auto intro: unmarked_mark)

function db2_add ::
  "object option list \<Rightarrow> (object \<Rightarrow> objid list) \<Rightarrow> objid list \<Rightarrow> objid list \<Rightarrow> objid list \<Rightarrow> objid list"
where
  "db2_add objs fld [] bits plist = plist"
| "db2_add objs fld (oid # stack) bits plist =
     (case find_in objs oid of
        None \<Rightarrow> db2_add objs fld stack bits plist
      | Some o2 \<Rightarrow>
          if oid \<in> set bits then db2_add objs fld stack bits plist
          else db2_add objs fld (fld o2 @ stack) (oid # bits) (plist @ [oid]))"
  by pat_completeness auto
termination
  by (relation "measures [\<lambda>(objs, fld, stack, bits, plist). unmarked objs bits,
                          \<lambda>(objs, fld, stack, bits, plist). length stack]")
     (auto intro: unmarked_mark)

text \<open>
  The driver. \<open>fld ob = []\<close> or \<open>fld ob = [NOTHING]\<close> of a single-valued field is the
  source's early exit; otherwise the two passes run over cleared bits, and the list gets
  the objects of the second pass, after the object itself if \<open>full\<close>.
\<close>

definition db_walk ::
  "(object \<Rightarrow> objid list) \<Rightarrow> (object \<Rightarrow> bool) \<Rightarrow> db \<Rightarrow> oref \<Rightarrow> bool \<Rightarrow> oref list option" where
  "db_walk fld nofld d obj full =
     (case dbpriv_dereference d obj of
        None \<Rightarrow> None
      | Some ob \<Rightarrow>
          Some (if nofld ob then (if full then [obj] else [])
                else (if full then [obj] else []) @
                     map Perm (db2_add (objects d) fld (fld ob) [] [])))"

text \<open>\<^verbatim>\<open>enlist_var\<close> on the parents.\<close>

definition parent_list :: "parents \<Rightarrow> objid list" where
  "parent_list p = (case p of POne x \<Rightarrow> [x] | PMany xs \<Rightarrow> xs)"

definition o_parent_list :: "object \<Rightarrow> objid list" where
  "o_parent_list ob = parent_list (o_parents ob)"

definition db_descendants :: "db \<Rightarrow> oref \<Rightarrow> bool \<Rightarrow> oref list option" where
  "db_descendants = db_walk o_children (\<lambda>ob. o_children ob = [])"

definition db_all_locations :: "db \<Rightarrow> oref \<Rightarrow> bool \<Rightarrow> oref list option" where
  "db_all_locations = db_walk (\<lambda>ob. [o_location ob]) (\<lambda>ob. o_location ob = NOTHING)"

definition db_all_contents :: "db \<Rightarrow> oref \<Rightarrow> bool \<Rightarrow> oref list option" where
  "db_all_contents = db_walk o_contents (\<lambda>ob. o_contents ob = [])"

definition db_find_ancestors :: "db \<Rightarrow> oref \<Rightarrow> bool \<Rightarrow> oref list option" where
  "db_find_ancestors = db_walk o_parent_list (\<lambda>ob. no_parents (o_parents ob))"

text \<open>
  \<^verbatim>\<open>db_ancestors\<close> with the ancestor cache. For a list of parents the test
  \<^verbatim>\<open>o->parents.v.obj == NOTHING\<close> reads a pointer and fails.
\<close>

definition cached_ancestors :: "db \<Rightarrow> objid \<Rightarrow> object \<Rightarrow> objid list" where
  "cached_ancestors d oid ob =
     (case ancestor_cache d (o_id ob) of
        Some as \<Rightarrow> as
      | None \<Rightarrow> if no_parents (o_parents ob) then []
                else db2_add (objects d) o_parent_list (o_parent_list ob) [] [])"

definition db_ancestors :: "oref \<Rightarrow> bool \<Rightarrow> db \<Rightarrow> (oref list \<times> db) option" where
  "db_ancestors obj full d =
     (case obj of
        Anon a \<Rightarrow> map_option (\<lambda>l. (l, d)) (db_find_ancestors d obj full)
      | Perm oid \<Rightarrow>
          (case dbpriv_find_object d oid of
             None \<Rightarrow> None
           | Some ob \<Rightarrow>
               if o_parents ob = POne NOTHING
               then map_option (\<lambda>l. (l, d)) (db_find_ancestors d obj full)
               else
                 let as = cached_ancestors d oid ob;
                     d1 = d\<lparr>ancestor_cache := (ancestor_cache d)(o_id ob := Some as)\<rparr>
                 in Some (if full then listinsert (map Perm as) obj 1 else map Perm as, d1)))"

section \<open>Validity of references\<close>

text \<open>
  \<^verbatim>\<open>parents_ok\<close> marks an anonymous object with a dead parent as invalid; the
  operation returns the answer and the new state.
\<close>

definition dead_parent :: "db \<Rightarrow> parents \<Rightarrow> bool" where
  "dead_parent d p =
     (case p of PMany xs \<Rightarrow> \<not> list_all (valid d) xs
              | POne x \<Rightarrow> x \<noteq> NOTHING \<and> \<not> valid d x)"

definition parents_ok :: "nat \<Rightarrow> object \<Rightarrow> db \<Rightarrow> bool \<times> db" where
  "parents_ok a ob d =
     (if dead_parent d (o_parents ob) then (False, upd_ref (Anon a) (set_flag FLAG_INVALID) d)
      else (True, d))"

definition anon_valid :: "nat \<Rightarrow> db \<Rightarrow> bool \<times> db" where
  "anon_valid a d =
     (case anon_store d a of
        None \<Rightarrow> (False, d)
      | Some ob \<Rightarrow> if has_flag ob FLAG_INVALID then (False, d) else parents_ok a ob d)"

fun is_valid :: "oref \<Rightarrow> db \<Rightarrow> bool \<times> db" where
  "is_valid (Anon a) d = anon_valid a d"
| "is_valid (Perm oid) d = (valid d oid, d)"

section \<open>Anonymous objects\<close>

text \<open>The anonymous children of an object.\<close>

definition anon_children :: "db \<Rightarrow> objid \<Rightarrow> nat list" where
  "anon_children d parent =
     (case map_of (anonymous_objects d) parent of None \<Rightarrow> [] | Some as \<Rightarrow> as)"

definition dbpriv_remove_anon :: "objid \<Rightarrow> nat \<Rightarrow> db \<Rightarrow> db" where
  "dbpriv_remove_anon parent a d =
     (case map_of (anonymous_objects d) parent of
        None \<Rightarrow> d
      | Some as \<Rightarrow>
          let as1 = removeAll a as
          in d\<lparr>anonymous_objects :=
                 (if as1 = [] then AList.delete parent (anonymous_objects d)
                  else AList.update parent as1 (anonymous_objects d))\<rparr>)"

definition dbpriv_add_anon :: "objid \<Rightarrow> nat \<Rightarrow> db \<Rightarrow> db" where
  "dbpriv_add_anon parent a d =
     d\<lparr>anonymous_objects :=
         AList.update parent (List.insert a (anon_children d parent)) (anonymous_objects d)\<rparr>"

text \<open>
  \<^verbatim>\<open>dbpriv_append_anon_list\<close>: appends the anonymous children of \<open>root\<close> that have
  not been seen; \<open>seen\<close> starts empty and holds exactly the appended ones.
\<close>

definition dbpriv_append_anon_list :: "db \<Rightarrow> objid \<Rightarrow> nat list \<Rightarrow> nat list" where
  "dbpriv_append_anon_list d root seen =
     seen @ filter (\<lambda>a. a \<notin> set seen) (anon_children d root)"

definition db_make_anonymous :: "nat \<Rightarrow> objid \<Rightarrow> objid \<Rightarrow> db \<Rightarrow> db option" where
  "db_make_anonymous a oid last_oid d =
     (case dbpriv_find_object d oid of
        None \<Rightarrow> None
      | Some ob \<Rightarrow>
          map_option (\<lambda>d1. d1\<lparr>anon_store := (anon_store d1)(a := Some (ob\<lparr>o_id := NOTHING\<rparr>))\<rparr>)
            (db_set_last_used_objid last_oid (d\<lparr>objects := (objects d)[nat oid := None]\<rparr>)))"

definition db_destroy_anonymous_object :: "nat \<Rightarrow> db \<Rightarrow> db option" where
  "db_destroy_anonymous_object a d =
     (case anon_store d a of
        None \<Rightarrow> None
      | Some ob \<Rightarrow>
          let d1 = (case o_parents ob of
                      POne x \<Rightarrow> if x \<noteq> NOTHING then dbpriv_remove_anon x a d else d
                    | PMany xs \<Rightarrow> fold (\<lambda>x. dbpriv_remove_anon x a) xs d)
          in Some (upd_ref (Anon a)
               (\<lambda>ob. set_flag FLAG_INVALID
                  (ob\<lparr>o_name := [], o_propdefs := [], o_propval := [], o_verbdefs := []\<rparr>)) d1))"

section \<open>What the walks compute\<close>

text \<open>One step of the graph of a field, between valid objects.\<close>

definition edge :: "object option list \<Rightarrow> (object \<Rightarrow> objid list) \<Rightarrow> objid \<Rightarrow> objid \<Rightarrow> bool" where
  "edge objs fld a b \<longleftrightarrow>
     (\<exists>ob. find_in objs a = Some ob \<and> b \<in> set (fld ob)) \<and> find_in objs b \<noteq> None"

text \<open>The objects visited, in order, when the bits in \<open>bits\<close> are set at the start.\<close>

function walk ::
  "object option list \<Rightarrow> (object \<Rightarrow> objid list) \<Rightarrow> objid list \<Rightarrow> objid list \<Rightarrow> objid list" where
  "walk objs fld [] bits = []"
| "walk objs fld (oid # stack) bits =
     (case find_in objs oid of
        None \<Rightarrow> walk objs fld stack bits
      | Some ob \<Rightarrow>
          if oid \<in> set bits then walk objs fld stack bits
          else oid # walk objs fld (fld ob @ stack) (oid # bits))"
  by pat_completeness auto
termination
  by (relation "measures [\<lambda>(objs, fld, stack, bits). unmarked objs bits,
                          \<lambda>(objs, fld, stack, bits). length stack]")
     (auto intro: unmarked_mark)

lemma db2_add_walk: "db2_add objs fld stack bits plist = plist @ walk objs fld stack bits"
  by (induction objs fld stack bits plist rule: db2_add.induct) (auto split: option.split)

lemma db1_count_walk: "db1_count objs fld stack bits n = n + length (walk objs fld stack bits)"
  by (induction objs fld stack bits n rule: db1_count.induct) (auto split: option.split)

lemma walk_sound:
  "x \<in> set (walk objs fld stack bits) \<Longrightarrow>
   x \<notin> set bits \<and> find_in objs x \<noteq> None \<and> (\<exists>a \<in> set stack. find_in objs a \<noteq> None \<and> (edge objs fld)\<^sup>*\<^sup>* a x)"
proof (induction objs fld stack bits rule: walk.induct)
  case (2 objs fld oid stack bits)
  show ?case
  proof (cases "find_in objs oid = None \<or> oid \<in> set bits")
    case True
    then show ?thesis using 2 by (auto split: option.splits)
  next
    case False
    then obtain ob where ob: "find_in objs oid = Some ob" and nb: "oid \<notin> set bits" by auto
    show ?thesis
    proof (cases "x = oid")
      case True
      then show ?thesis using ob nb by auto
    next
      case neq: False
      with 2 ob nb have IH: "x \<notin> set bits" "find_in objs x \<noteq> None"
        and "\<exists>a \<in> set (fld ob @ stack). find_in objs a \<noteq> None \<and> (edge objs fld)\<^sup>*\<^sup>* a x"
        by auto
      then obtain a where a: "a \<in> set (fld ob @ stack)" "find_in objs a \<noteq> None" "(edge objs fld)\<^sup>*\<^sup>* a x"
        by blast
      show ?thesis
      proof (cases "a \<in> set stack")
        case False
        with a ob have "edge objs fld oid a" by (auto simp: edge_def)
        then have "(edge objs fld)\<^sup>*\<^sup>* oid x"
          using a(3) by (rule converse_rtranclp_into_rtranclp)
        with IH ob show ?thesis by auto
      qed (use IH a in auto)
    qed
  qed
qed simp

lemma walk_distinct: "distinct (walk objs fld stack bits)"
proof (induction objs fld stack bits rule: walk.induct)
  case (2 objs fld oid stack bits)
  then show ?case by (auto split: option.split dest: walk_sound)
qed simp

text \<open>What is marked at the end is closed under the field, if it was but for the stack.\<close>

definition closed_but :: "object option list \<Rightarrow> (object \<Rightarrow> objid list) \<Rightarrow> objid set \<Rightarrow> objid set \<Rightarrow> bool" where
  "closed_but objs fld marked pending \<longleftrightarrow>
     (\<forall>v \<in> marked. \<forall>w. edge objs fld v w \<longrightarrow> w \<in> marked \<union> pending)"

lemma walk_closed:
  "closed_but objs fld (set bits) (set stack) \<Longrightarrow>
   {a \<in> set stack. find_in objs a \<noteq> None} \<subseteq> set bits \<union> set (walk objs fld stack bits) \<and>
   closed_but objs fld (set bits \<union> set (walk objs fld stack bits)) {}"
proof (induction objs fld stack bits rule: walk.induct)
  case (2 objs fld oid stack bits)
  show ?case
  proof (cases "find_in objs oid = None \<or> oid \<in> set bits")
    case True
    have "w \<noteq> oid \<or> oid \<in> set bits" if "edge objs fld v w" for v w
      using True that by (auto simp: edge_def)
    with 2(4) have "closed_but objs fld (set bits) (set stack)"
      unfolding closed_but_def by (metis UnE UnCI set_ConsD)
    with True 2(1,2) show ?thesis by (auto split: option.splits)
  next
    case False
    then obtain ob where ob: "find_in objs oid = Some ob" and nb: "oid \<notin> set bits" by auto
    have pre: "closed_but objs fld (set (oid # bits)) (set (fld ob @ stack))"
      using 2(4) ob by (auto simp: closed_but_def edge_def)
    have "set bits \<union> set (walk objs fld (oid # stack) bits) =
          set (oid # bits) \<union> set (walk objs fld (fld ob @ stack) (oid # bits))"
      using ob nb by auto
    with 2(3) [OF ob nb pre] show ?thesis by auto
  qed
qed (simp add: closed_but_def)

lemma set_walk:
  "set (walk objs fld stack []) =
   {x. \<exists>a \<in> set stack. find_in objs a \<noteq> None \<and> (edge objs fld)\<^sup>*\<^sup>* a x}"
proof
  show "set (walk objs fld stack []) \<subseteq> {x. \<exists>a \<in> set stack. find_in objs a \<noteq> None \<and> (edge objs fld)\<^sup>*\<^sup>* a x}"
    using walk_sound by blast
  let ?W = "set (walk objs fld stack [])"
  have start: "a \<in> ?W" if "a \<in> set stack" "find_in objs a \<noteq> None" for a
    using walk_closed [of objs fld "[]" stack] that by (auto simp: closed_but_def)
  have closed: "w \<in> ?W" if "v \<in> ?W" "edge objs fld v w" for v w
    using walk_closed [of objs fld "[]" stack] that by (auto simp: closed_but_def)
  have "x \<in> ?W" if "(edge objs fld)\<^sup>*\<^sup>* a x" "a \<in> ?W" for a x
    using that by (induction rule: rtranclp_induct) (auto intro: closed)
  with start show "{x. \<exists>a \<in> set stack. find_in objs a \<noteq> None \<and> (edge objs fld)\<^sup>*\<^sup>* a x} \<subseteq> ?W"
    by blast
qed

text \<open>The recursive form of the walk: a stack is visited piece by piece.\<close>

lemma walk_append:
  "walk objs fld (xs @ ys) bits =
   walk objs fld xs bits @ walk objs fld ys (rev (walk objs fld xs bits) @ bits)"
proof (induction objs fld xs bits rule: walk.induct)
  case (2 objs fld oid stack bits)
  then show ?case by (auto split: option.split)
qed simp

lemma walk_bits_cong: "set bits = set bits' \<Longrightarrow> walk objs fld stack bits = walk objs fld stack bits'"
proof (induction objs fld stack bits arbitrary: bits' rule: walk.induct)
  case (2 objs fld oid stack bits)
  then show ?case by (fastforce split: option.split)
qed simp

end
