(* ===== verification/DbProperties.thy ===== *)
theory DbProperties
  imports DbObjects
begin

text \<open>
  Properties (\<^verbatim>\<open>db_properties.cc\<close>). An object stores its property values in one
  array, laid out by the order of its ancestors: first the properties it defines itself,
  then those of each ancestor in turn. The operations here add, delete, rename and find
  properties, check a change of parents for name clashes and lay the values out again
  after one. They consult the ancestor cache, so they pass the database along.
\<close>

section \<open>State passing\<close>

text \<open>Sequencing of operations that may panic: \<open>None\<close> ends the computation.\<close>

definition sbind ::
  "(db \<Rightarrow> ('a \<times> db) option) \<Rightarrow> ('a \<Rightarrow> db \<Rightarrow> ('b \<times> db) option) \<Rightarrow> db \<Rightarrow> ('b \<times> db) option" where
  "sbind m f d = (case m d of None \<Rightarrow> None | Some (x, d1) \<Rightarrow> f x d1)"

definition sreturn :: "'a \<Rightarrow> db \<Rightarrow> ('a \<times> db) option" where
  "sreturn x d = Some (x, d)"

definition sget :: "(db \<Rightarrow> 'a option) \<Rightarrow> db \<Rightarrow> ('a \<times> db) option" where
  "sget f d = map_option (\<lambda>x. (x, d)) (f d)"

definition smodify :: "(db \<Rightarrow> db option) \<Rightarrow> db \<Rightarrow> (unit \<times> db) option" where
  "smodify f d = map_option (\<lambda>d1. ((), d1)) (f d)"

lemmas run_simps = sbind_def sget_def sreturn_def smodify_def

fun smap :: "('a \<Rightarrow> db \<Rightarrow> ('b \<times> db) option) \<Rightarrow> 'a list \<Rightarrow> db \<Rightarrow> ('b list \<times> db) option" where
  "smap f [] = sreturn []"
| "smap f (x # xs) = sbind (f x) (\<lambda>y. sbind (smap f xs) (\<lambda>ys. sreturn (y # ys)))"

fun siter :: "('a \<Rightarrow> db \<Rightarrow> db option) \<Rightarrow> 'a list \<Rightarrow> db \<Rightarrow> db option" where
  "siter f [] d = Some d"
| "siter f (x # xs) d = (case f x d of None \<Rightarrow> None | Some d1 \<Rightarrow> siter f xs d1)"

section \<open>Definitions and offsets\<close>

abbreviation "PF_READ \<equiv> 1 :: 16 word"
abbreviation "PF_WRITE \<equiv> 2 :: 16 word"
abbreviation "PF_CHOWN \<equiv> 4 :: 16 word"

definition dbpriv_new_propdef :: "string \<Rightarrow> propdef" where
  "dbpriv_new_propdef name = \<lparr>pd_name = name, pd_hash = str_hash name\<rparr>"

fun offset_loop :: "db \<Rightarrow> oref \<Rightarrow> oref list \<Rightarrow> int \<Rightarrow> int option" where
  "offset_loop d target [] offset = Some (- 1)"
| "offset_loop d target (a # as) offset =
     (if target = a then Some offset
      else case dbpriv_dereference d a of
             None \<Rightarrow> None
           | Some ob \<Rightarrow> offset_loop d target as (offset + int (length (o_propdefs ob))))"

definition properties_offset :: "oref \<Rightarrow> oref \<Rightarrow> db \<Rightarrow> (int \<times> db) option" where
  "properties_offset target this =
     sbind (db_ancestors this True) (\<lambda>ancestors. sget (\<lambda>d. offset_loop d target ancestors 0))"

definition name_is :: "string \<Rightarrow> 32 word \<Rightarrow> propdef \<Rightarrow> bool" where
  "name_is pname phash p = (pd_hash p = phash \<and> strcasecmp (pd_name p) pname = 0)"

definition property_defined_at :: "string \<Rightarrow> 32 word \<Rightarrow> object \<Rightarrow> bool" where
  "property_defined_at pname phash ob = list_ex (name_is pname phash) (o_propdefs ob)"

text \<open>
  \<^verbatim>\<open>property_defined_at_or_below\<close> recurs through the children without marking what
  it has seen, so it ends only because no object is its own descendant. The fuel bounds
  the depth; \<open>None\<close> is running out of it, or a child that is no object.
\<close>

fun ex_opt :: "('a \<Rightarrow> bool option) \<Rightarrow> 'a list \<Rightarrow> bool option" where
  "ex_opt f [] = Some False"
| "ex_opt f (x # xs) =
     (case f x of None \<Rightarrow> None | Some b \<Rightarrow> if b then Some True else ex_opt f xs)"

fun defined_below :: "nat \<Rightarrow> db \<Rightarrow> string \<Rightarrow> 32 word \<Rightarrow> object \<Rightarrow> bool option" where
  "defined_below 0 d pname phash ob = None"
| "defined_below (Suc fuel) d pname phash ob =
     (if list_ex (name_is pname phash) (o_propdefs ob) then Some True
      else ex_opt (\<lambda>c. case dbpriv_find_object d c of
                          None \<Rightarrow> None
                        | Some child \<Rightarrow> defined_below fuel d pname phash child)
             (o_children ob))"

definition property_defined_at_or_below :: "db \<Rightarrow> string \<Rightarrow> 32 word \<Rightarrow> object \<Rightarrow> bool option" where
  "property_defined_at_or_below d pname phash ob =
     defined_below (Suc (length (objects d))) d pname phash ob"

section \<open>Inserting and removing value slots\<close>

definition insert_prop2 :: "oref \<Rightarrow> int \<Rightarrow> pval \<Rightarrow> db \<Rightarrow> db option" where
  "insert_prop2 obj pos pv d =
     (case dbpriv_dereference d obj of
        None \<Rightarrow> None
      | Some ob \<Rightarrow>
          if pos < 0 \<or> int (length (o_propval ob)) < pos then None
          else
            let pv1 = (if pv_perms pv AND PF_CHOWN \<noteq> 0 then pv\<lparr>pv_owner := o_owner ob\<rparr> else pv)
            in Some (upd_ref obj (\<lambda>ob. ob\<lparr>o_waif_propdefs := None,
                 o_propval := take (nat pos) (o_propval ob) @ pv1 # drop (nat pos) (o_propval ob)\<rparr>) d))"

definition insert_prop :: "objid \<Rightarrow> int \<Rightarrow> pval \<Rightarrow> db \<Rightarrow> db option" where
  "insert_prop oid pos pv = insert_prop2 (Perm oid) pos pv"

text \<open>
  The permanent descendants of \<open>root\<close>, then the anonymous children of \<open>root\<close> and of
  each of those.
\<close>

definition all_descendants :: "objid \<Rightarrow> db \<Rightarrow> oref list option" where
  "all_descendants root d =
     (case db_descendants d (Perm root) False of
        None \<Rightarrow> None
      | Some ds \<Rightarrow>
          let oids = map (\<lambda>r. case r of Perm x \<Rightarrow> x | Anon _ \<Rightarrow> NOTHING) ds;
              anons = foldl (\<lambda>seen x. dbpriv_append_anon_list d x seen) [] (root # oids)
          in Some (ds @ map Anon anons))"

definition insert_prop_recursively :: "objid \<Rightarrow> int \<Rightarrow> pval \<Rightarrow> db \<Rightarrow> (unit \<times> db) option" where
  "insert_prop_recursively root prop_pos pv =
     sbind (smodify (insert_prop root prop_pos pv)) (\<lambda>_.
       let pv1 = pv\<lparr>pv_var := VCLEAR\<rparr> in
       sbind (sget (all_descendants root)) (\<lambda>descendants.
         sbind (smap (properties_offset (Perm root)) descendants) (\<lambda>offsets.
           smodify (siter (\<lambda>(r, offset). insert_prop2 r (offset + prop_pos) pv1)
                     (zip descendants offsets)))))"

definition remove_prop2 :: "oref \<Rightarrow> int \<Rightarrow> db \<Rightarrow> db option" where
  "remove_prop2 obj pos d =
     (case dbpriv_dereference d obj of
        None \<Rightarrow> None
      | Some ob \<Rightarrow>
          if pos < 0 \<or> int (length (o_propval ob)) \<le> pos then None
          else Some (upd_ref obj (\<lambda>ob. ob\<lparr>o_waif_propdefs := None,
                 o_propval := take (nat pos) (o_propval ob) @ drop (Suc (nat pos)) (o_propval ob)\<rparr>) d))"

definition remove_prop :: "objid \<Rightarrow> int \<Rightarrow> db \<Rightarrow> db option" where
  "remove_prop oid pos = remove_prop2 (Perm oid) pos"

definition remove_prop_recursively :: "objid \<Rightarrow> int \<Rightarrow> db \<Rightarrow> (unit \<times> db) option" where
  "remove_prop_recursively root prop_pos =
     sbind (smodify (remove_prop root prop_pos)) (\<lambda>_.
       sbind (sget (all_descendants root)) (\<lambda>descendants.
         sbind (smap (properties_offset (Perm root)) descendants) (\<lambda>offsets.
           smodify (siter (\<lambda>(r, offset). remove_prop2 r (offset + prop_pos))
                     (zip descendants offsets)))))"

section \<open>Finding a property\<close>

datatype bi_prop =
    BP_NAME | BP_OWNER | BP_PROGRAMMER | BP_WIZARD | BP_R | BP_W | BP_F | BP_A
  | BP_LOCATION | BP_LAST_MOVE | BP_CONTENTS

definition ptable :: "(string \<times> bi_prop) list" where
  "ptable = [(''name'', BP_NAME), (''owner'', BP_OWNER), (''programmer'', BP_PROGRAMMER),
     (''wizard'', BP_WIZARD), (''r'', BP_R), (''w'', BP_W), (''f'', BP_F), (''a'', BP_A),
     (''location'', BP_LOCATION), (''last_move'', BP_LAST_MOVE), (''contents'', BP_CONTENTS)]"

text \<open>
  \<^verbatim>\<open>db_prop_handle\<close>: no property, a built-in property of an object, or the slot
  \<open>n\<close> of an object's values, with the definer and the index \<open>i\<close> among its definitions.
\<close>

datatype prop_handle =
    NoProp
  | BuiltIn bi_prop oref
  | PropSlot oref oref nat nat

fun get_bi_value :: "bi_prop \<Rightarrow> object \<Rightarrow> var" where
  "get_bi_value BP_NAME ob = VSTR (o_name ob)"
| "get_bi_value BP_OWNER ob = VOBJ (o_owner ob)"
| "get_bi_value BP_PROGRAMMER ob = VINT (of_bool (has_flag ob FLAG_PROGRAMMER))"
| "get_bi_value BP_WIZARD ob = VINT (of_bool (has_flag ob FLAG_WIZARD))"
| "get_bi_value BP_R ob = VINT (of_bool (has_flag ob FLAG_READ))"
| "get_bi_value BP_W ob = VINT (of_bool (has_flag ob FLAG_WRITE))"
| "get_bi_value BP_F ob = VINT (of_bool (has_flag ob FLAG_FERTILE))"
| "get_bi_value BP_A ob = VINT (of_bool (has_flag ob FLAG_ANONYMOUS))"
| "get_bi_value BP_LOCATION ob = VOBJ (o_location ob)"
| "get_bi_value BP_LAST_MOVE ob = o_last_move ob"
| "get_bi_value BP_CONTENTS ob = VLIST (map VOBJ (o_contents ob))"

fun find_builtin :: "string \<Rightarrow> (string \<times> bi_prop) list \<Rightarrow> bi_prop option" where
  "find_builtin name [] = None"
| "find_builtin name ((p, bp) # rest) =
     (if str_hash p = str_hash name \<and> strcasecmp name p = 0 then Some bp
      else find_builtin name rest)"

text \<open>The index of a name among definitions, and the length of the loop when not found.\<close>

fun find_def :: "string \<Rightarrow> 32 word \<Rightarrow> nat \<Rightarrow> propdef list \<Rightarrow> nat option" where
  "find_def name h i [] = None"
| "find_def name h i (p # ps) = (if name_is name h p then Some i else find_def name h (Suc i) ps)"

text \<open>
  The search through the object and its ancestors; \<open>n\<close> counts the definitions passed.
  An ancestor that is not valid is passed over.
\<close>

fun find_slot :: "db \<Rightarrow> string \<Rightarrow> oref list \<Rightarrow> nat \<Rightarrow> (oref \<times> nat \<times> nat) option" where
  "find_slot d name [] n = None"
| "find_slot d name (a # as) n =
     (case dbpriv_dereference d a of
        None \<Rightarrow> find_slot d name as n
      | Some t \<Rightarrow>
          (case find_def name (str_hash name) 0 (o_propdefs t) of
             Some i \<Rightarrow> Some (a, n + i, i)
           | None \<Rightarrow> find_slot d name as (n + length (o_propdefs t))))"

definition db_find_property :: "oref \<Rightarrow> string \<Rightarrow> db \<Rightarrow> (prop_handle \<times> db) option" where
  "db_find_property obj name d =
     (case dbpriv_dereference d obj of
        None \<Rightarrow> None
      | Some ob \<Rightarrow>
          (case find_builtin name ptable of
             Some bp \<Rightarrow> Some (BuiltIn bp obj, d)
           | None \<Rightarrow>
               sbind (db_ancestors obj False) (\<lambda>ancestors d1.
                 Some (case find_slot d1 name (obj # ancestors) 0 of
                         None \<Rightarrow> NoProp
                       | Some (definer, n, i) \<Rightarrow> PropSlot obj definer n i, d1)) d))"

text \<open>
  The value behind a handle, skipping clear slots up the parents: of several parents the
  first that descends from the definer is taken. The loop never ends when a clear slot is
  found on an object without parents; \<open>None\<close> covers that and reads outside the values.
\<close>

definition slot_value :: "db \<Rightarrow> oref \<Rightarrow> int \<Rightarrow> var option" where
  "slot_value d r n =
     (case dbpriv_dereference d r of
        None \<Rightarrow> None
      | Some ob \<Rightarrow> if 0 \<le> n \<and> n < int (length (o_propval ob))
                   then Some (pv_var (o_propval ob ! nat n)) else None)"

fun first_offset :: "oref \<Rightarrow> objid list \<Rightarrow> db \<Rightarrow> ((objid \<times> int) \<times> db) option" where
  "first_offset definer [] d = None"
| "first_offset definer (p # ps) d =
     sbind (properties_offset definer (Perm p)) (\<lambda>off.
       if off > - 1 \<or> ps = [] then sreturn (p, off) else first_offset definer ps) d"

fun resolve_clear :: "nat \<Rightarrow> oref \<Rightarrow> nat \<Rightarrow> oref \<Rightarrow> int \<Rightarrow> db \<Rightarrow> (var \<times> db) option" where
  "resolve_clear 0 definer i r n d = None"
| "resolve_clear (Suc fuel) definer i r n d =
     (case (dbpriv_dereference d r, slot_value d r n) of
        (Some ob, Some v) \<Rightarrow>
          if v \<noteq> VCLEAR then Some (v, d)
          else if no_parents (o_parents ob) then None
          else sbind (first_offset definer (o_parent_list ob)) (\<lambda>(p, off).
                 resolve_clear fuel definer i (Perm p) (off + int i)) d
      | _ \<Rightarrow> None)"

definition db_property_value_of :: "prop_handle \<Rightarrow> db \<Rightarrow> (var \<times> db) option" where
  "db_property_value_of h d =
     (case h of
        NoProp \<Rightarrow> None
      | BuiltIn bp r \<Rightarrow> map_option (\<lambda>ob. (get_bi_value bp ob, d)) (dbpriv_dereference d r)
      | PropSlot r definer n i \<Rightarrow>
          (case dbpriv_dereference d definer of
             None \<Rightarrow> None
           | Some t \<Rightarrow> resolve_clear (Suc (Suc (length (objects d)))) (Perm (o_id t)) i r (int n) d))"

section \<open>Adding and deleting definitions\<close>

definition db_add_propdef ::
  "oref \<Rightarrow> string \<Rightarrow> var \<Rightarrow> objid \<Rightarrow> 16 word \<Rightarrow> db \<Rightarrow> (bool \<times> db) option" where
  "db_add_propdef obj pname value owner flags =
     sbind (db_find_property obj pname) (\<lambda>h d.
       case dbpriv_dereference d obj of
         None \<Rightarrow> None
       | Some ob \<Rightarrow>
           (case (if h \<noteq> NoProp then Some True
                  else property_defined_at_or_below d pname (str_hash pname) ob) of
              None \<Rightarrow> None
            | Some True \<Rightarrow> Some (False, d)
            | Some False \<Rightarrow>
                let d1 = upd_ref obj
                      (\<lambda>ob. ob\<lparr>o_propdefs := o_propdefs ob @ [dbpriv_new_propdef pname]\<rparr>) d;
                    pos = int (length (o_propdefs ob));
                    pv = \<lparr>pv_var = value, pv_owner = owner, pv_perms = flags\<rparr>
                in (case obj of
                      Perm oid \<Rightarrow> sbind (insert_prop_recursively oid pos pv) (\<lambda>_. sreturn True) d1
                    | Anon _ \<Rightarrow> sbind (smodify (insert_prop2 obj pos pv)) (\<lambda>_. sreturn True) d1)))"

definition db_delete_propdef :: "oref \<Rightarrow> string \<Rightarrow> db \<Rightarrow> (bool \<times> db) option" where
  "db_delete_propdef obj pname d =
     (case dbpriv_dereference d obj of
        None \<Rightarrow> None
      | Some ob \<Rightarrow>
          (case find_def pname (str_hash pname) 0 (o_propdefs ob) of
             None \<Rightarrow> Some (False, d)
           | Some i \<Rightarrow>
               let d1 = upd_ref obj
                     (\<lambda>ob. ob\<lparr>o_propdefs := take i (o_propdefs ob) @ drop (Suc i) (o_propdefs ob)\<rparr>) d
               in (case obj of
                     Perm oid \<Rightarrow> sbind (remove_prop_recursively oid (int i)) (\<lambda>_. sreturn True) d1
                   | Anon _ \<Rightarrow> sbind (smodify (remove_prop2 obj (int i))) (\<lambda>_. sreturn True) d1)))"

section \<open>Setting values, owners and permissions through a handle\<close>

definition upd_slot :: "oref \<Rightarrow> nat \<Rightarrow> (pval \<Rightarrow> pval) \<Rightarrow> db \<Rightarrow> db option" where
  "upd_slot r n f d =
     (case dbpriv_dereference d r of
        None \<Rightarrow> None
      | Some ob \<Rightarrow> if n < length (o_propval ob)
          then Some (upd_ref r (\<lambda>ob. ob\<lparr>o_propval := (o_propval ob)[n := f (o_propval ob ! n)]\<rparr>) d)
          else None)"

text \<open>The flag behind a built-in property, for those that are flags.\<close>

fun bi_flag :: "bi_prop \<Rightarrow> nat option" where
  "bi_flag BP_PROGRAMMER = Some FLAG_PROGRAMMER"
| "bi_flag BP_WIZARD = Some FLAG_WIZARD"
| "bi_flag BP_R = Some FLAG_READ"
| "bi_flag BP_W = Some FLAG_WRITE"
| "bi_flag BP_F = Some FLAG_FERTILE"
| "bi_flag BP_A = Some FLAG_ANONYMOUS"
| "bi_flag _ = None"

definition db_set_property_value :: "prop_handle \<Rightarrow> var \<Rightarrow> db \<Rightarrow> db option" where
  "db_set_property_value h value d =
     (case h of
        NoProp \<Rightarrow> None
      | PropSlot r definer n i \<Rightarrow> upd_slot r n (\<lambda>pv. pv\<lparr>pv_var := value\<rparr>) d
      | BuiltIn bp r \<Rightarrow>
          (case (bp, value) of
             (BP_NAME, VSTR s) \<Rightarrow> Some (upd_ref r (\<lambda>ob. ob\<lparr>o_name := s\<rparr>) d)
           | (BP_OWNER, VOBJ x) \<Rightarrow> Some (upd_ref r (\<lambda>ob. ob\<lparr>o_owner := x\<rparr>) d)
           | _ \<Rightarrow>
               (case bi_flag bp of
                  None \<Rightarrow> None
                | Some f \<Rightarrow>
                    Some (upd_ref r (if is_true value then set_flag f else clear_flag f) d))))"

definition slot_pval :: "db \<Rightarrow> prop_handle \<Rightarrow> pval option" where
  "slot_pval d h =
     (case h of
        PropSlot r definer n i \<Rightarrow>
          (case dbpriv_dereference d r of
             None \<Rightarrow> None
           | Some ob \<Rightarrow> if n < length (o_propval ob) then Some (o_propval ob ! n) else None)
      | _ \<Rightarrow> None)"

definition db_property_owner :: "db \<Rightarrow> prop_handle \<Rightarrow> objid option" where
  "db_property_owner d h = map_option pv_owner (slot_pval d h)"

definition db_set_property_owner :: "prop_handle \<Rightarrow> objid \<Rightarrow> db \<Rightarrow> db option" where
  "db_set_property_owner h oid d =
     (case h of PropSlot r definer n i \<Rightarrow> upd_slot r n (\<lambda>pv. pv\<lparr>pv_owner := oid\<rparr>) d | _ \<Rightarrow> None)"

definition db_property_flags :: "db \<Rightarrow> prop_handle \<Rightarrow> (16 word) option" where
  "db_property_flags d h = map_option pv_perms (slot_pval d h)"

definition db_set_property_flags :: "prop_handle \<Rightarrow> 16 word \<Rightarrow> db \<Rightarrow> db option" where
  "db_set_property_flags h flags d =
     (case h of PropSlot r definer n i \<Rightarrow> upd_slot r n (\<lambda>pv. pv\<lparr>pv_perms := flags\<rparr>) d | _ \<Rightarrow> None)"

definition db_property_allows :: "db \<Rightarrow> prop_handle \<Rightarrow> objid \<Rightarrow> 16 word \<Rightarrow> bool option" where
  "db_property_allows d h progr flag =
     map_option (\<lambda>pv. pv_perms pv AND flag \<noteq> 0 \<or> progr = pv_owner pv \<or> is_wizard d progr)
       (slot_pval d h)"

section \<open>Checking a change of parents\<close>

text \<open>
  The hypothetical ancestors: a stack is popped, each valid object's parents are pushed in
  front. Nothing is marked, so the loop ends only because no object is its own ancestor;
  \<open>None\<close> is a loop that does not end.
\<close>

partial_function (option) chparent_ancestors :: "db \<Rightarrow> objid list \<Rightarrow> objid list \<Rightarrow> objid list option"
  where [code]: "chparent_ancestors d stack ancestors =
     (case stack of
        [] \<Rightarrow> Some ancestors
      | oid # rest \<Rightarrow>
          (case dbpriv_find_object d oid of
             None \<Rightarrow> chparent_ancestors d rest ancestors
           | Some ob \<Rightarrow>
               chparent_ancestors d (listconcat (o_parent_list ob) rest) (oset_add ancestors oid)))"

text \<open>Some definition of an ancestor clashes with \<open>ob\<close>, what is below it, or an anonymous child.\<close>

definition clash_below :: "db \<Rightarrow> object \<Rightarrow> nat list option \<Rightarrow> objid \<Rightarrow> bool option" where
  "clash_below d ob anon_kids ancestor =
     (case dbpriv_find_object d ancestor of
        None \<Rightarrow> None
      | Some o2 \<Rightarrow>
          ex_opt (\<lambda>p.
            case property_defined_at_or_below d (pd_name p) (pd_hash p) ob of
              None \<Rightarrow> None
            | Some True \<Rightarrow> Some True
            | Some False \<Rightarrow>
                ex_opt (\<lambda>a. case anon_store d a of
                          None \<Rightarrow> None
                        | Some o3 \<Rightarrow> Some (property_defined_at (pd_name p) (pd_hash p) o3))
                  (case anon_kids of None \<Rightarrow> [] | Some ks \<Rightarrow> ks))
            (o_propdefs o2))"

text \<open>Two different ancestors define a property of the same name.\<close>

definition clash_among :: "db \<Rightarrow> objid list \<Rightarrow> objid \<Rightarrow> bool option" where
  "clash_among d ancestors ancestor =
     (case dbpriv_find_object d ancestor of
        None \<Rightarrow> None
      | Some o2 \<Rightarrow>
          ex_opt (\<lambda>x. if x = ancestor then Some False
                      else case dbpriv_find_object d x of
                             None \<Rightarrow> None
                           | Some o3 \<Rightarrow>
                               Some (list_ex (\<lambda>p. property_defined_at (pd_name p) (pd_hash p) o3)
                                       (o_propdefs o2)))
            ancestors)"

definition dbpriv_check_properties_for_chparent ::
  "db \<Rightarrow> oref \<Rightarrow> parents \<Rightarrow> nat list option \<Rightarrow> bool option" where
  "dbpriv_check_properties_for_chparent d obj parents anon_kids =
     (case (dbpriv_dereference d obj, chparent_ancestors d (parent_list parents) []) of
        (Some ob, Some ancestors) \<Rightarrow>
          (case ex_opt (clash_below d ob anon_kids) ancestors of
             None \<Rightarrow> None
           | Some True \<Rightarrow> Some False
           | Some False \<Rightarrow> map_option Not (ex_opt (clash_among d ancestors) ancestors))
      | _ \<Rightarrow> None)"

section \<open>Laying out the values after a change of parents\<close>

fun lengths :: "db \<Rightarrow> oref list \<Rightarrow> nat list option" where
  "lengths d [] = Some []"
| "lengths d (a # as) =
     (case (dbpriv_dereference d a, lengths d as) of
        (Some ob, Some ns) \<Rightarrow> Some (length (o_propdefs ob) # ns)
      | _ \<Rightarrow> None)"

text \<open>The offset at which each ancestor's values start, and the total.\<close>

fun start_of :: "oref \<Rightarrow> oref list \<Rightarrow> nat list \<Rightarrow> nat \<Rightarrow> nat option" where
  "start_of a (x # xs) (n # ns) acc = (if a = x then Some acc else start_of a xs ns (acc + n))"
| "start_of a _ _ acc = None"

text \<open>
  The parent through which a new ancestor's values are found: the first valid parent below
  it. If there is none, the loop leaves the last parent and no offset.
\<close>

fun inherit_from :: "oref \<Rightarrow> objid list \<Rightarrow> db \<Rightarrow> ((objid \<times> int) \<times> db) option" where
  "inherit_from ancestor [] d = None"
| "inherit_from ancestor (p # ps) d =
     (if valid d p then
        sbind (properties_offset ancestor (Perm p)) (\<lambda>off.
          if off > - 1 then sreturn (p, off) else inherit_from ancestor ps) d
      else inherit_from ancestor ps d)"

definition inherited_values :: "object \<Rightarrow> oref \<Rightarrow> nat \<Rightarrow> db \<Rightarrow> (pval list \<times> db) option" where
  "inherited_values me ancestor n =
     (if n = 0 then sreturn []
      else sbind (inherit_from ancestor (o_parent_list me)) (\<lambda>(p, off). sget (\<lambda>d.
        case dbpriv_find_object d p of
          None \<Rightarrow> None
        | Some op \<Rightarrow>
            if int (length (o_propval op)) < off + int n then None
            else Some (map (\<lambda>pv. pv\<lparr>pv_var := VCLEAR,
                      pv_owner := (if pv_perms pv AND PF_CHOWN \<noteq> 0 then o_owner me else pv_owner pv)\<rparr>)
                   (take n (drop (nat off) (o_propval op)))))))"

text \<open>The values that belong to one new ancestor.\<close>

definition segment_for :: "object \<Rightarrow> oref list \<Rightarrow> nat list \<Rightarrow> oref \<times> nat \<Rightarrow> db \<Rightarrow> (pval list \<times> db) option"
  where
  "segment_for me old_ancestors old_lens an =
     (case an of (ancestor, n) \<Rightarrow>
        (case start_of ancestor old_ancestors old_lens 0 of
           Some o1 \<Rightarrow>
             sget (\<lambda>d. if length (o_propval me) < o1 + n then None
                       else Some (take n (drop o1 (o_propval me))))
         | None \<Rightarrow> inherited_values me ancestor n))"

text \<open>
  One object's values, laid out again. \<open>None\<close> includes a failure of
  \<^verbatim>\<open>assert(old_count == me->nval)\<close>: past it, values outside the array are read.
\<close>

definition relayout :: "oref \<Rightarrow> oref list \<Rightarrow> oref list \<Rightarrow> db \<Rightarrow> db option" where
  "relayout obj old_ancestors new_ancestors d =
     (case (lengths d old_ancestors, lengths d new_ancestors, dbpriv_dereference d obj) of
        (Some old_lens, Some new_lens, Some me) \<Rightarrow>
          if sum_list old_lens \<noteq> length (o_propval me) then None
          else
            (let d1 = fold (\<lambda>a. upd_ref a (\<lambda>ob. ob\<lparr>o_waif_propdefs := None\<rparr>)) new_ancestors d
             in case smap (segment_for me old_ancestors old_lens) (zip new_ancestors new_lens) d1 of
                  None \<Rightarrow> None
                | Some (segs, d2) \<Rightarrow>
                    Some (upd_ref obj (\<lambda>ob. ob\<lparr>o_propval := concat segs\<rparr>) d2))
      | _ \<Rightarrow> None)"

definition ref_add :: "oref list \<Rightarrow> oref \<Rightarrow> oref list" where
  "ref_add xs x = (if x \<in> set xs then xs else xs @ [x])"

text \<open>The old and new ancestors of a child, put together from its parents.\<close>

fun child_ancestors ::
  "oref \<Rightarrow> oref list \<Rightarrow> oref list \<Rightarrow> objid list \<Rightarrow> oref list \<times> oref list \<Rightarrow> db \<Rightarrow>
   ((oref list \<times> oref list) \<times> db) option" where
  "child_ancestors obj old_ancestors new_ancestors [] on = sreturn on"
| "child_ancestors obj old_ancestors new_ancestors (p # ps) on =
     (if Perm p = obj
      then child_ancestors obj old_ancestors new_ancestors ps
             (foldl ref_add (fst on) old_ancestors, foldl ref_add (snd on) new_ancestors)
      else sbind (db_ancestors (Perm p) True) (\<lambda>all.
             child_ancestors obj old_ancestors new_ancestors ps
               (foldl ref_add (fst on) all, foldl ref_add (snd on) all)))"

definition ancestors_for_child ::
  "oref \<Rightarrow> oref list \<Rightarrow> oref list \<Rightarrow> oref \<Rightarrow> db \<Rightarrow> ((oref list \<times> oref list) \<times> db) option" where
  "ancestors_for_child obj old_ancestors new_ancestors child d =
     (case dbpriv_dereference d child of
        None \<Rightarrow> None
      | Some oc \<Rightarrow>
          (case o_parents oc of
             PMany ps \<Rightarrow> child_ancestors obj old_ancestors new_ancestors ps ([child], [child]) d
           | POne _ \<Rightarrow> Some ((child # old_ancestors, child # new_ancestors), d)))"

fun fix_properties ::
  "nat \<Rightarrow> oref \<Rightarrow> oref list \<Rightarrow> oref list \<Rightarrow> nat list option \<Rightarrow> db \<Rightarrow> db option" where
  "fix_properties 0 obj old_ancestors new_ancestors anon_kids d = None"
| "fix_properties (Suc fuel) obj old_ancestors new_ancestors anon_kids d =
     (case relayout obj old_ancestors new_ancestors d of
        None \<Rightarrow> None
      | Some d1 \<Rightarrow>
          (case dbpriv_dereference d1 obj of
             None \<Rightarrow> None
           | Some me \<Rightarrow>
               siter (\<lambda>child d2.
                   case ancestors_for_child obj old_ancestors new_ancestors child d2 of
                     None \<Rightarrow> None
                   | Some ((old, new), d3) \<Rightarrow>
                       fix_properties fuel child old new
                         (Some (case child of Perm c \<Rightarrow> dbpriv_append_anon_list d3 c []
                                            | Anon _ \<Rightarrow> [])) d3)
                 (map Perm (o_children me) @
                  map Anon (case anon_kids of None \<Rightarrow> [] | Some ks \<Rightarrow> ks)) d1))"

definition dbpriv_fix_properties_after_chparent ::
  "oref \<Rightarrow> oref list \<Rightarrow> oref list \<Rightarrow> nat list option \<Rightarrow> db \<Rightarrow> db option" where
  "dbpriv_fix_properties_after_chparent obj old_ancestors new_ancestors anon_kids d =
     fix_properties (length (objects d) + 2) obj old_ancestors new_ancestors anon_kids d"

end
