(* ===== verification/Maps.thy ===== *)
theory Maps
  imports Lists
begin

text \<open>
  Maps (\<^verbatim>\<open>map.cc\<close>): the red-black tree that holds a map's entries, with
  insertion and removal in one pass from the root down. The pointers of a pass, from the
  false root \<^verbatim>\<open>head\<close> to the current node \<^verbatim>\<open>q\<close>, are a path of frames: the
  nodes above \<^verbatim>\<open>q\<close>, innermost first, each with the direction in which the path
  leaves it and the subtree on its other side. \<open>None\<close> is a panic in a comparison or the
  use of a null or misplaced pointer.
\<close>

section \<open>Nodes, links and rotations\<close>

text \<open>
  A direction is the index of a link: \<open>False\<close> for \<^verbatim>\<open>link[0]\<close>, the left one, and
  \<open>True\<close> for \<^verbatim>\<open>link[1]\<close>.
\<close>

fun link :: "bool \<Rightarrow> 'v rbnode \<Rightarrow> 'v rbnode option" where
  "link dir RBNil = None"
| "link dir (RBNode c k v l r) = Some (if dir then r else l)"

fun is_red :: "'v rbnode \<Rightarrow> bool" where
  "is_red RBNil = False"
| "is_red (RBNode c k v l r) = c"

fun paint :: "bool \<Rightarrow> 'v rbnode \<Rightarrow> 'v rbnode" where
  "paint c RBNil = RBNil"
| "paint c (RBNode _ k v l r) = RBNode c k v l r"

definition node_compare :: "var \<Rightarrow> var \<Rightarrow> bool \<Rightarrow> int option" where
  "node_compare key1 key2 case_matters = compare key1 key2 case_matters"

fun rbsingle :: "'v rbnode \<Rightarrow> bool \<Rightarrow> 'v rbnode option" where
  "rbsingle RBNil dir = None"
| "rbsingle (RBNode c k v l r) dir =
     (if dir
      then (case l of
              RBNil \<Rightarrow> None
            | RBNode sc sk sv sl sr \<Rightarrow> Some (RBNode False sk sv sl (RBNode True k v sr r)))
      else (case r of
              RBNil \<Rightarrow> None
            | RBNode sc sk sv sl sr \<Rightarrow> Some (RBNode False sk sv (RBNode True k v l sl) sr)))"

fun rbdouble :: "'v rbnode \<Rightarrow> bool \<Rightarrow> 'v rbnode option" where
  "rbdouble RBNil dir = None"
| "rbdouble (RBNode c k v l r) dir =
     (if dir
      then (case rbsingle l (\<not> dir) of
              None \<Rightarrow> None
            | Some l1 \<Rightarrow> rbsingle (RBNode c k v l1 r) dir)
      else (case rbsingle r (\<not> dir) of
              None \<Rightarrow> None
            | Some r1 \<Rightarrow> rbsingle (RBNode c k v l r1) dir))"

definition new_node :: "'v \<Rightarrow> 'v \<Rightarrow> 'v rbnode" where
  "new_node key val = RBNode True key val RBNil RBNil"

definition rbnew :: "'v rbtree" where
  "rbnew = RBTree RBNil 0"

section \<open>Searching\<close>

text \<open>
  \<^verbatim>\<open>rbfind\<close>: a match is decided with or without case, the way down always without.
\<close>

fun rbfind :: "var rbnode \<Rightarrow> var \<Rightarrow> bool \<Rightarrow> (var \<times> var) option option" where
  "rbfind RBNil key case_matters = Some None"
| "rbfind (RBNode c k v l r) key case_matters =
     (case node_compare k key case_matters of
        None \<Rightarrow> None
      | Some cmp1 \<Rightarrow>
          if cmp1 = 0 then Some (Some (k, v))
          else (case (if case_matters then node_compare k key False else Some cmp1) of
                  None \<Rightarrow> None
                | Some cmp \<Rightarrow>
                    if cmp < 0 then rbfind r key case_matters else rbfind l key case_matters))"

text \<open>
  Traversals (\<^verbatim>\<open>rbtrav\<close>): the current node and the nodes above it, innermost first,
  each with the link the path takes. \<^verbatim>\<open>path\<close> has room for \<^verbatim>\<open>HEIGHT_LIMIT\<close>
  nodes.
\<close>

type_synonym 'v rbtrav = "'v rbnode \<times> (bool \<times> 'v rbnode) list"

abbreviation HEIGHT_LIMIT :: nat where "HEIGHT_LIMIT \<equiv> 64"

fun rbseek_from ::
  "var rbnode \<Rightarrow> (bool \<times> var rbnode) list \<Rightarrow> var \<Rightarrow> bool \<Rightarrow> var rbtrav option option" where
  "rbseek_from RBNil path key case_matters = Some None"
| "rbseek_from (RBNode c k v l r) path key case_matters =
     (case node_compare k key case_matters of
        None \<Rightarrow> None
      | Some cmp \<Rightarrow>
          if cmp = 0 then Some (Some (RBNode c k v l r, path))
          else rbseek_from (if cmp < 0 then r else l)
                 ((cmp < 0, RBNode c k v l r) # path) key case_matters)"

definition rbseek :: "var rbtree \<Rightarrow> var \<Rightarrow> bool \<Rightarrow> var rbtrav option option" where
  "rbseek t key case_matters = rbseek_from (rbroot t) [] key case_matters"

text \<open>Down the links in one direction as far as they go.\<close>

fun descend :: "bool \<Rightarrow> 'v rbnode \<Rightarrow> (bool \<times> 'v rbnode) list \<Rightarrow> 'v rbtrav" where
  "descend dir RBNil path = (RBNil, path)"
| "descend dir (RBNode c k v l r) path =
     (case (if dir then r else l) of
        RBNil \<Rightarrow> (RBNode c k v l r, path)
      | RBNode _ _ _ _ _ \<Rightarrow>
          if dir then descend dir r ((dir, RBNode c k v l r) # path)
          else descend dir l ((dir, RBNode c k v l r) # path))"

definition rbstart :: "'v rbtree \<Rightarrow> bool \<Rightarrow> 'v rbtrav" where
  "rbstart t dir = descend dir (rbroot t) []"

text \<open>Up the path while it was left in direction \<open>dir\<close>.\<close>

fun ascend :: "bool \<Rightarrow> (bool \<times> 'v rbnode) list \<Rightarrow> 'v rbtrav" where
  "ascend dir [] = (RBNil, [])"
| "ascend dir ((d, n) # path) = (if d = dir then ascend dir path else (n, path))"

definition rbmove :: "'v rbtrav \<Rightarrow> bool \<Rightarrow> 'v rbtrav option" where
  "rbmove trav dir =
     (case trav of
        (RBNil, path) \<Rightarrow> None
      | (RBNode c k v l r, path) \<Rightarrow>
          (case (if dir then r else l) of
             RBNil \<Rightarrow> Some (ascend dir path)
           | RBNode c2 k2 v2 l2 r2 \<Rightarrow>
               Some (descend (\<not> dir) (RBNode c2 k2 v2 l2 r2) ((dir, RBNode c k v l r) # path))))"

abbreviation rbtfirst :: "'v rbtree \<Rightarrow> 'v rbtrav" where "rbtfirst t \<equiv> rbstart t False"
abbreviation rbtlast :: "'v rbtree \<Rightarrow> 'v rbtrav" where "rbtlast t \<equiv> rbstart t True"
abbreviation rbtnext :: "'v rbtrav \<Rightarrow> 'v rbtrav option" where "rbtnext trav \<equiv> rbmove trav True"
abbreviation rbtprev :: "'v rbtrav \<Rightarrow> 'v rbtrav option" where "rbtprev trav \<equiv> rbmove trav False"

section \<open>Insertion\<close>

datatype 'v frame = Frame (f_dir: bool) (f_red: bool) (f_key: 'v) (f_value: 'v) (f_other: "'v rbnode")

fun plug1 :: "'v frame \<Rightarrow> 'v rbnode \<Rightarrow> 'v rbnode" where
  "plug1 (Frame d c k v other) t = (if d then RBNode c k v other t else RBNode c k v t other)"

fun plug :: "'v frame list \<Rightarrow> 'v rbnode \<Rightarrow> 'v rbnode" where
  "plug [] t = t"
| "plug (f # fs) t = plug fs (plug1 f t)"

text \<open>A new node at a null link, or the color flip.\<close>

fun prepare :: "'v \<Rightarrow> 'v \<Rightarrow> 'v rbnode \<Rightarrow> 'v rbnode" where
  "prepare key val RBNil = new_node key val"
| "prepare key val (RBNode c k v l r) =
     (if is_red l \<and> is_red r then RBNode True k v (paint False l) (paint False r)
      else RBNode c k v l r)"

text \<open>
  The hard red violation. \<open>ctx\<close> holds \<^verbatim>\<open>p\<close> and the nodes above it; \<open>g_at\<close> says
  that \<^verbatim>\<open>g\<close> is the node above \<^verbatim>\<open>p\<close> and \<open>t_at\<close> that \<^verbatim>\<open>t\<close> is the
  node above \<^verbatim>\<open>g\<close>: a rotation leaves the helpers behind for a step or two, and a
  second rotation there would corrupt the tree. The test \<^verbatim>\<open>q == p->link[last]\<close> is
  whether the last two steps went the same way. The result holds the path to \<^verbatim>\<open>q\<close>,
  \<^verbatim>\<open>q\<close>, and the two flags after the helpers have moved down.
\<close>

definition rotate_up ::
  "'v frame list \<Rightarrow> 'v rbnode \<Rightarrow> bool \<Rightarrow> bool \<Rightarrow> bool \<Rightarrow> bool \<Rightarrow>
   ('v frame list \<times> 'v rbnode \<times> bool \<times> bool) option" where
  "rotate_up ctx q dir last_dir g_at t_at =
     (case ctx of
        [] \<Rightarrow> Some (ctx, q, True, g_at)
      | fp # upper \<Rightarrow>
          if is_red q \<and> f_red fp then
            (case upper of
               [] \<Rightarrow> None
             | fg # rest \<Rightarrow>
                 if \<not> g_at \<or> \<not> t_at then None
                 else if dir = last_dir then
                   (case rbsingle (plug1 fg (plug1 fp q)) (\<not> last_dir) of
                      Some (RBNode c k v l r) \<Rightarrow>
                        Some (Frame last_dir c k v (if last_dir then l else r) # rest,
                              if last_dir then r else l, True, False)
                    | _ \<Rightarrow> None)
                 else
                   (case rbdouble (plug1 fg (plug1 fp q)) (\<not> last_dir) of
                      Some top_node \<Rightarrow> Some (rest, top_node, False, False)
                    | None \<Rightarrow> None))
          else Some (ctx, q, True, g_at))"

partial_function (option) rbinsert_loop ::
  "var \<Rightarrow> var \<Rightarrow> var frame list \<Rightarrow> var rbnode \<Rightarrow> bool \<Rightarrow> bool \<Rightarrow> bool \<Rightarrow> bool \<Rightarrow> var rbnode option"
  where [code]: "rbinsert_loop key val ctx q dir last_dir g_at t_at =
     (case rotate_up ctx (prepare key val q) dir last_dir g_at t_at of
        None \<Rightarrow> None
      | Some (ctx1, q1, g1, t1) \<Rightarrow>
          (case q1 of
             RBNil \<Rightarrow> None
           | RBNode c k v l r \<Rightarrow>
               (case node_compare k key False of
                  None \<Rightarrow> None
                | Some cmp \<Rightarrow>
                    if cmp = 0 then Some (plug ctx1 q1)
                    else
                      let d = cmp < 0
                      in rbinsert_loop key val (Frame d c k v (if d then l else r) # ctx1)
                           (if d then r else l) d dir g1 t1)))"

definition rbinsert :: "var rbtree \<Rightarrow> var \<Rightarrow> var \<Rightarrow> var rbtree option" where
  "rbinsert t key val =
     (case rbroot t of
        RBNil \<Rightarrow> Some (RBTree (paint False (new_node key val)) (Suc (rbsize t)))
      | root \<Rightarrow>
          map_option (\<lambda>n. RBTree (paint False n) (Suc (rbsize t)))
            (rbinsert_loop key val [] root False False True True))"

section \<open>Removal\<close>

text \<open>
  The path of a removal: a frame also says whether its node is the one found,
  \<^verbatim>\<open>f\<close>, which is always on the path or \<^verbatim>\<open>q\<close> itself.
\<close>

type_synonym 'v eframe = "bool \<times> 'v frame"

definition eplug :: "'v eframe list \<Rightarrow> 'v rbnode \<Rightarrow> 'v rbnode" where
  "eplug ctx t = plug (map snd ctx) t"

definition unmark :: "'v eframe list \<Rightarrow> 'v eframe list" where
  "unmark ctx = map (\<lambda>e. (False, snd e)) ctx"

text \<open>
  The nodes \<^verbatim>\<open>g->link[dir2]\<close> and \<^verbatim>\<open>p\<close> on the path after \<^verbatim>\<open>p\<close> was
  rotated below \<open>top_node\<close>, with the colors made right; \<open>fp_found\<close> is the mark of \<^verbatim>\<open>p\<close>.
\<close>

fun repath :: "bool \<Rightarrow> bool \<Rightarrow> 'v rbnode \<Rightarrow> 'v eframe list option" where
  "repath fp_found d (RBNode c k v l r) =
     (case (if d then r else l) of
        RBNil \<Rightarrow> None
      | RBNode pc pk pv pl pr \<Rightarrow>
          (case (if d then l else r) of
             RBNil \<Rightarrow> None
           | other \<Rightarrow>
               Some [(fp_found, Frame d False pk pv (if d then pl else pr)),
                     (False, Frame d True k v (paint False other))]))"
| "repath fp_found d RBNil = None"

text \<open>
  Pushing a red node down: the path above \<^verbatim>\<open>q\<close> and the color, key, value and links of
  \<^verbatim>\<open>q\<close>, before and after. The innermost frame is \<^verbatim>\<open>p\<close>, left in direction
  \<^verbatim>\<open>last\<close>; above an empty path is \<^verbatim>\<open>head\<close>, whose other link is null.
\<close>

definition push_red ::
  "'v eframe list \<Rightarrow> bool \<Rightarrow> bool \<Rightarrow> 'v \<Rightarrow> 'v \<Rightarrow> 'v rbnode \<Rightarrow> 'v rbnode \<Rightarrow>
   ('v eframe list \<times> 'v rbnode) option" where
  "push_red ctx dir c k v l r =
     (let q = RBNode c k v l r in
      if is_red q \<or> is_red (if dir then r else l) then Some (ctx, q)
      else if is_red (if dir then l else r) then
        (case rbsingle q dir of
           Some (RBNode sc sk sv sl sr) \<Rightarrow>
             Some ((False, Frame dir sc sk sv (if dir then sl else sr)) # ctx,
                   if dir then sr else sl)
         | _ \<Rightarrow> None)
      else
        (case ctx of
           [] \<Rightarrow> Some (ctx, q)
         | (found, Frame last_dir pc pk pv s) # upper \<Rightarrow>
             (case s of
                RBNil \<Rightarrow> Some (ctx, q)
              | RBNode sc sk sv sl sr \<Rightarrow>
                  if \<not> is_red sl \<and> \<not> is_red sr then
                    Some ((found, Frame last_dir False pk pv (paint True s)) # upper, paint True q)
                  else
                    let p = plug1 (Frame last_dir pc pk pv s) q;
                        rotated = (if is_red (if last_dir then sr else sl)
                                   then rbdouble p last_dir else rbsingle p last_dir)
                    in (case rotated of
                          None \<Rightarrow> None
                        | Some top_node \<Rightarrow>
                            map_option (\<lambda>fs. (fs @ upper, paint True q))
                              (repath found last_dir top_node)))))"

fun rberase_loop ::
  "var \<Rightarrow> var eframe list \<Rightarrow> var rbnode \<Rightarrow> var eframe list option" where
  "rberase_loop key ctx RBNil = Some ctx"
| "rberase_loop key ctx (RBNode c k v l r) =
     (case node_compare k key False of
        None \<Rightarrow> None
      | Some cmp \<Rightarrow>
          let dir = cmp < 0;
              found = (cmp = 0);
              ctx0 = (if found then unmark ctx else ctx)
          in (case push_red ctx0 dir c k v l r of
                Some (ctx1, RBNode qc qk qv ql qr) \<Rightarrow>
                  rberase_loop key ((found, Frame dir qc qk qv (if dir then ql else qr)) # ctx1)
                    (if dir then r else l)
              | _ \<Rightarrow> None))"

text \<open>
  At the end \<^verbatim>\<open>q\<close> is the innermost frame; its link in the direction of the search is
  null. The found node takes the data of \<^verbatim>\<open>q\<close> and \<^verbatim>\<open>q\<close> is unlinked.
\<close>

definition unlink :: "'v eframe list \<Rightarrow> 'v rbnode" where
  "unlink ctx =
     (case ctx of
        [] \<Rightarrow> RBNil
      | (found, q) # upper \<Rightarrow>
          eplug (map (\<lambda>(m, f). (m, if m then Frame (f_dir f) (f_red f) (f_key q) (f_value q) (f_other f)
                                   else f)) upper)
            (f_other q))"

definition rberase :: "var rbtree \<Rightarrow> var \<Rightarrow> (bool \<times> var rbtree) option" where
  "rberase t key =
     (if rbroot t = RBNil then Some (False, t)
      else
        (case rberase_loop key [] (rbroot t) of
           None \<Rightarrow> None
         | Some ctx \<Rightarrow>
             if list_ex fst ctx
             then Some (True, RBTree (paint False (unlink ctx)) (rbsize t - 1))
             else Some (False, RBTree (paint False (eplug ctx RBNil)) (rbsize t))))"

section \<open>Operations on maps\<close>

definition map_empty :: "var rbtree" where
  "map_empty = rbnew"

text \<open>
  \<^verbatim>\<open>rbtfirst\<close> and \<^verbatim>\<open>rbtnext\<close> visit the entries in the order of
  \<^const>\<open>map_items\<close>; the loops below go over that list.
\<close>

fun insert_all :: "(var \<times> var) list \<Rightarrow> var rbtree \<Rightarrow> var rbtree option" where
  "insert_all [] t = Some t"
| "insert_all ((k, v) # items) t =
     (case rbinsert t k v of None \<Rightarrow> None | Some t1 \<Rightarrow> insert_all items t1)"

definition map_dup :: "var rbtree \<Rightarrow> var rbtree option" where
  "map_dup t = insert_all (map_items t) map_empty"

text \<open>
  \<^verbatim>\<open>mapinsert\<close>; \<open>shared\<close> says that the map has another reference, so that a copy is
  changed.
\<close>

definition mapinsert :: "bool \<Rightarrow> var rbtree \<Rightarrow> var \<Rightarrow> var \<Rightarrow> var rbtree option" where
  "mapinsert shared t key val =
     (if key = VNONE \<or> key = VCLEAR \<or> is_collection key \<and> type_of key \<noteq> 12 + 128
      then None
      else
        (case (if shared then map_dup t else Some t) of
           None \<Rightarrow> None
         | Some t1 \<Rightarrow>
             (case rberase t1 key of
                None \<Rightarrow> None
              | Some (_, t2) \<Rightarrow> rbinsert t2 key val)))"

definition maplookup :: "var rbtree \<Rightarrow> var \<Rightarrow> bool \<Rightarrow> (var \<times> var) option option" where
  "maplookup t key case_matters = rbfind (rbroot t) key case_matters"

definition mapstrlookup :: "var rbtree \<Rightarrow> string \<Rightarrow> bool \<Rightarrow> (var \<times> var) option option" where
  "mapstrlookup t key case_matters = maplookup t (VSTR key) case_matters"

definition mapseek :: "var rbtree \<Rightarrow> var \<Rightarrow> bool \<Rightarrow> var rbtrav option option" where
  "mapseek t key case_matters = rbseek t key case_matters"

definition mapempty :: "var rbtree \<Rightarrow> bool" where
  "mapempty t = (rbsize t = 0)"

definition maplength :: "var rbtree \<Rightarrow> nat" where
  "maplength t = rbsize t"

fun node_pair :: "'v rbnode \<Rightarrow> ('v \<times> 'v) option" where
  "node_pair RBNil = None"
| "node_pair (RBNode c k v l r) = Some (k, v)"

definition mapfirst :: "var rbtree \<Rightarrow> (var \<times> var) option" where
  "mapfirst t = node_pair (fst (descend False (rbroot t) []))"

definition maplast :: "var rbtree \<Rightarrow> (var \<times> var) option" where
  "maplast t = node_pair (fst (descend True (rbroot t) []))"

text \<open>\<^verbatim>\<open>mapforeach\<close>: the callback runs on each entry until it returns non-zero.\<close>

fun mapforeach :: "('k \<Rightarrow> 'v \<Rightarrow> bool \<Rightarrow> 's \<Rightarrow> int \<times> 's) \<Rightarrow> ('k \<times> 'v) list \<Rightarrow> bool \<Rightarrow> 's \<Rightarrow> int \<times> 's" where
  "mapforeach func [] first s = (0, s)"
| "mapforeach func ((k, v) # items) first s =
     (case func k v first s of (ret, s1) \<Rightarrow>
        if ret \<noteq> 0 then (ret, s1) else mapforeach func items False s1)"

section \<open>Built-in functions\<close>

text \<open>A built-in returns a value or an error; \<open>None\<close> is a panic.\<close>

fun delete_keys :: "var list \<Rightarrow> var rbtree \<Rightarrow> (error + var rbtree) option" where
  "delete_keys [] t = Some (Inr t)"
| "delete_keys (key # keys) t =
     (if is_collection key then Some (Inl E_TYPE)
      else
        (case rberase t key of
           None \<Rightarrow> None
         | Some (erased, t1) \<Rightarrow> if erased then delete_keys keys t1 else Some (Inl E_RANGE)))"

definition bf_mapdelete :: "bool \<Rightarrow> var rbtree \<Rightarrow> var \<Rightarrow> (error + var) option" where
  "bf_mapdelete shared t key_arg =
     (case (if shared then map_dup t else Some t) of
        None \<Rightarrow> None
      | Some t1 \<Rightarrow>
          map_option (map_sum id VMAP)
            (delete_keys (case key_arg of VLIST keys \<Rightarrow> keys | _ \<Rightarrow> [key_arg]) t1))"

definition bf_mapkeys :: "var rbtree \<Rightarrow> var" where
  "bf_mapkeys t =
     VLIST (snd (mapforeach (\<lambda>k v first s. (0, listappend s k)) (map_items t) True []))"

fun values_of :: "var rbtree \<Rightarrow> var list \<Rightarrow> var list \<Rightarrow> (error + var list) option" where
  "values_of t [] r = Some (Inr r)"
| "values_of t (key # keys) r =
     (case maplookup t key True of
        None \<Rightarrow> None
      | Some None \<Rightarrow> Some (Inl E_RANGE)
      | Some (Some (k, v)) \<Rightarrow> values_of t keys (listappend r v))"

definition bf_mapvalues :: "var rbtree \<Rightarrow> var list \<Rightarrow> (error + var) option" where
  "bf_mapvalues t keys =
     (if keys = []
      then Some (Inr (VLIST (snd (mapforeach (\<lambda>k v first s. (0, listappend s v)) (map_items t) True []))))
      else map_option (map_sum id VLIST) (values_of t keys []))"

definition bf_maphaskey :: "var rbtree \<Rightarrow> var \<Rightarrow> bool \<Rightarrow> (error + var) option" where
  "bf_maphaskey t key case_matters =
     (if is_collection key then Some (Inl E_TYPE)
      else map_option (\<lambda>r. Inr (VINT (of_bool (r \<noteq> None)))) (maplookup t key case_matters))"

end
