(* ===== verification/DbHierarchy.thy ===== *)
theory DbHierarchy
  imports DbProperties Maps
begin

text \<open>
  The hierarchies of \<^verbatim>\<open>db_objects.cc\<close>: changing the parents and the location of an
  object, renumbering, ownership, and the test whether one object descends from another.
  Both hierarchies are kept twice, upwards and downwards (parents and children, location
  and contents); the invariant here says that the two agree and that neither has a cycle.
\<close>

section \<open>Attributes\<close>

definition db_object_owner2 :: "db \<Rightarrow> oref \<Rightarrow> objid option" where
  "db_object_owner2 d r = map_option o_owner (dbpriv_dereference d r)"

definition db_object_parents2 :: "db \<Rightarrow> oref \<Rightarrow> parents option" where
  "db_object_parents2 d r = map_option o_parents (dbpriv_dereference d r)"

definition db_object_children2 :: "db \<Rightarrow> oref \<Rightarrow> objid list option" where
  "db_object_children2 d r = map_option o_children (dbpriv_dereference d r)"

definition db_object_has_flag2 :: "db \<Rightarrow> oref \<Rightarrow> nat \<Rightarrow> bool option" where
  "db_object_has_flag2 d r f = map_option (\<lambda>ob. has_flag ob f) (dbpriv_dereference d r)"

fun db_set_object_flag2 :: "oref \<Rightarrow> nat \<Rightarrow> db \<Rightarrow> db" where
  "db_set_object_flag2 (Anon a) f d = upd_ref (Anon a) (set_flag f) d"
| "db_set_object_flag2 (Perm oid) f d = db_set_object_flag oid f d"

fun db_clear_object_flag2 :: "oref \<Rightarrow> nat \<Rightarrow> db \<Rightarrow> db" where
  "db_clear_object_flag2 (Anon a) f d = upd_ref (Anon a) (clear_flag f) d"
| "db_clear_object_flag2 (Perm oid) f d = db_clear_object_flag oid f d"

definition db_set_object_owner :: "objid \<Rightarrow> objid \<Rightarrow> db \<Rightarrow> db" where
  "db_set_object_owner oid owner = upd_obj oid (\<lambda>ob. ob\<lparr>o_owner := owner\<rparr>)"

definition db_set_object_name :: "objid \<Rightarrow> string \<Rightarrow> db \<Rightarrow> db" where
  "db_set_object_name oid name = upd_obj oid (\<lambda>ob. ob\<lparr>o_name := name\<rparr>)"

definition db_object_location :: "db \<Rightarrow> objid \<Rightarrow> objid option" where
  "db_object_location d oid = map_option o_location (dbpriv_find_object d oid)"

definition db_count_contents :: "db \<Rightarrow> objid \<Rightarrow> nat option" where
  "db_count_contents d oid = map_option (\<lambda>ob. length (o_contents ob)) (dbpriv_find_object d oid)"

definition db_next_child :: "db \<Rightarrow> objid \<Rightarrow> oref option option" where
  "db_next_child d oid =
     (case dbpriv_find_object d oid of
        None \<Rightarrow> None
      | Some ob \<Rightarrow>
          Some (case o_children ob of
                  c # _ \<Rightarrow> Some (Perm c)
                | [] \<Rightarrow> (case anon_children d oid of [] \<Rightarrow> None | a # _ \<Rightarrow> Some (Anon a))))"

definition db_object_allows :: "db \<Rightarrow> oref \<Rightarrow> objid \<Rightarrow> nat \<Rightarrow> bool option" where
  "db_object_allows d r progr f =
     map_option (\<lambda>ob. is_wizard d progr \<or> progr = o_owner ob \<or> has_flag ob f)
       (dbpriv_dereference d r)"

section \<open>Changing parents\<close>

text \<open>
  \<^verbatim>\<open>check_for_duplicates\<close>: the inner loop starts at \<^verbatim>\<open>i + i\<close>; positions count
  from one.
\<close>

definition check_for_duplicates :: "parents \<Rightarrow> bool" where
  "check_for_duplicates p =
     (case p of
        POne _ \<Rightarrow> True
      | PMany xs \<Rightarrow>
          list_all (\<lambda>i. list_all (\<lambda>j. xs ! (i - 1) \<noteq> xs ! (j - 1)) [i + i..<length xs + 1])
            [1..<length xs + 1])"

fun kid_ok :: "db \<Rightarrow> oref \<Rightarrow> oref \<Rightarrow> bool option" where
  "kid_ok d obj kid =
     (case db_object_parents2 d kid of
        None \<Rightarrow> None
      | Some parents \<Rightarrow>
          Some (case kid of
                  Perm _ \<Rightarrow> False
                | Anon _ \<Rightarrow> (case parents of
                              POne x \<Rightarrow> obj = Perm x
                            | PMany xs \<Rightarrow> obj \<in> Perm ` set xs)))"

fun all_opt :: "('a \<Rightarrow> bool option) \<Rightarrow> 'a list \<Rightarrow> bool option" where
  "all_opt f [] = Some True"
| "all_opt f (x # xs) =
     (case f x of None \<Rightarrow> None | Some b \<Rightarrow> if b then all_opt f xs else Some False)"

definition check_children_of_object :: "db \<Rightarrow> oref \<Rightarrow> oref list option \<Rightarrow> bool option" where
  "check_children_of_object d obj anon_kids =
     (case anon_kids of None \<Rightarrow> Some True | Some ks \<Rightarrow> all_opt (kid_ok d obj) ks)"

text \<open>The parents that are linked: not the single \<^verbatim>\<open>#-1\<close> of an orphan.\<close>

definition linked_parents :: "parents \<Rightarrow> objid list" where
  "linked_parents p = (case p of POne x \<Rightarrow> if x = NOTHING then [] else [x] | PMany xs \<Rightarrow> xs)"

definition upd_valid :: "(object \<Rightarrow> object) \<Rightarrow> objid \<Rightarrow> db \<Rightarrow> db option" where
  "upd_valid f oid d = (if valid d oid then Some (upd_obj oid f d) else None)"

abbreviation drop_child :: "objid \<Rightarrow> object \<Rightarrow> object" where
  "drop_child oid ob \<equiv> ob\<lparr>o_children := oset_remove (o_children ob) oid\<rparr>"

abbreviation take_child :: "objid \<Rightarrow> object \<Rightarrow> object" where
  "take_child oid ob \<equiv> ob\<lparr>o_children := oset_add (o_children ob) oid\<rparr>"

definition relink_parents :: "oref \<Rightarrow> parents \<Rightarrow> parents \<Rightarrow> db \<Rightarrow> db option" where
  "relink_parents obj old_parents new_parents d =
     (case obj of
        Perm oid \<Rightarrow>
          Option.bind (siter (upd_valid (drop_child oid)) (linked_parents old_parents) d)
            (siter (upd_valid (take_child oid)) (linked_parents new_parents))
      | Anon a \<Rightarrow>
          Some (fold (\<lambda>p. dbpriv_add_anon p a) (linked_parents new_parents)
                 (fold (\<lambda>p. dbpriv_remove_anon p a) (linked_parents old_parents) d)))"

text \<open>The ancestor cache forgets the object and everything below it.\<close>

definition invalidate_below :: "oref \<Rightarrow> db \<Rightarrow> db option" where
  "invalidate_below obj d =
     (case obj of
        Anon _ \<Rightarrow> Some d
      | Perm oid \<Rightarrow>
          map_option (\<lambda>ds. d\<lparr>ancestor_cache := \<lambda>x. if Perm x \<in> set ds then None else ancestor_cache d x\<rparr>)
            (db_descendants d obj True))"

definition own_anon_kids :: "db \<Rightarrow> oref \<Rightarrow> oref list option \<Rightarrow> oref list option" where
  "own_anon_kids d obj anon_kids =
     (case anon_kids of
        Some (k # ks) \<Rightarrow> anon_kids
      | _ \<Rightarrow>
          (case obj of
             Anon _ \<Rightarrow> anon_kids
           | Perm oid \<Rightarrow>
               (case map_of (anonymous_objects d) oid of
                  None \<Rightarrow> anon_kids
                | Some as \<Rightarrow> Some (map Anon as))))"

fun anon_ref :: "oref \<Rightarrow> nat" where
  "anon_ref (Anon a) = a"
| "anon_ref (Perm _) = 0"

definition change_checks :: "db \<Rightarrow> oref \<Rightarrow> parents \<Rightarrow> oref list option \<Rightarrow> bool option" where
  "change_checks d obj new_parents kids =
     (case check_children_of_object d obj kids of
        None \<Rightarrow> None
      | Some False \<Rightarrow> Some False
      | Some True \<Rightarrow>
          dbpriv_check_properties_for_chparent d obj new_parents (map_option (map anon_ref) kids))"

definition apply_change :: "oref \<Rightarrow> object \<Rightarrow> parents \<Rightarrow> nat list option \<Rightarrow> db \<Rightarrow> (bool \<times> db) option" where
  "apply_change obj ob new_parents kids =
     sbind (smodify (\<lambda>d. Some (if o_verbdefs ob = [] \<and> o_children ob = [] then d
                               else db_priv_affected_callable_verb_lookup d))) (\<lambda>_.
     sbind (db_ancestors obj True) (\<lambda>old_ancestors.
     sbind (smodify (relink_parents obj (o_parents ob) new_parents)) (\<lambda>_.
     sbind (smodify (\<lambda>d. Some (upd_ref obj (\<lambda>ob. ob\<lparr>o_parents := new_parents\<rparr>) d))) (\<lambda>_.
     sbind (smodify (invalidate_below obj)) (\<lambda>_.
     sbind (db_ancestors obj True) (\<lambda>new_ancestors.
     sbind (smodify (dbpriv_fix_properties_after_chparent obj old_ancestors new_ancestors kids)) (\<lambda>_.
     sreturn True)))))))"

definition db_change_parents :: "oref \<Rightarrow> parents \<Rightarrow> oref list option \<Rightarrow> db \<Rightarrow> (bool \<times> db) option" where
  "db_change_parents obj new_parents anon_kids d =
     (if \<not> check_for_duplicates new_parents then Some (False, d)
      else
        let kids = own_anon_kids d obj anon_kids
        in (case change_checks d obj new_parents kids of
              None \<Rightarrow> None
            | Some False \<Rightarrow> Some (False, d)
            | Some True \<Rightarrow>
                (case dbpriv_dereference d obj of
                   None \<Rightarrow> None
                 | Some ob \<Rightarrow> apply_change obj ob new_parents (map_option (map anon_ref) kids) d)))"

section \<open>Changing location\<close>

definition note_move :: "bool \<Rightarrow> num \<Rightarrow> objid \<Rightarrow> var \<Rightarrow> var option" where
  "note_move shared now old_location last_move =
     (let (sh, t) = (case last_move of VMAP t \<Rightarrow> (shared, t) | _ \<Rightarrow> (True, map_empty)) in
      case mapinsert sh t (VSTR ''time'') (VINT now) of
        None \<Rightarrow> None
      | Some t1 \<Rightarrow> map_option VMAP (mapinsert False t1 (VSTR ''source'') (VOBJ old_location)))"

text \<open>
  \<^verbatim>\<open>db_change_location\<close>; \<open>shared\<close> says whether the map in \<^verbatim>\<open>last_move\<close> has
  other references.
\<close>

definition db_change_location ::
  "bool \<Rightarrow> bool \<Rightarrow> num \<Rightarrow> objid \<Rightarrow> objid \<Rightarrow> int \<Rightarrow> db \<Rightarrow> db option" where
  "db_change_location clear_last_move shared now oid new_location position d =
     (case dbpriv_find_object d oid of
        None \<Rightarrow> None
      | Some ob \<Rightarrow>
          let old_location = o_location ob;
              d1 = upd_obj old_location (\<lambda>l. l\<lparr>o_contents := oset_remove (o_contents l) oid\<rparr>) d;
              d2 = upd_obj new_location
                     (\<lambda>l. l\<lparr>o_contents := listinsert (o_contents l) oid
                             (if position \<le> 0 then int (length (o_contents l)) + 1 else position)\<rparr>) d1;
              d3 = upd_obj oid (\<lambda>ob. ob\<lparr>o_location := new_location\<rparr>) d2
          in if clear_last_move then Some d3
             else map_option (\<lambda>lm. upd_obj oid (\<lambda>ob. ob\<lparr>o_last_move := lm\<rparr>) d3)
                    (note_move shared now old_location (o_last_move ob)))"

section \<open>Descent\<close>

text \<open>
  \<^verbatim>\<open>db_object_isa\<close>: a queue of ancestors, with nothing marked. \<open>None\<close> is an ancestor
  that is no object, or a search that does not end.
\<close>

partial_function (option) isa_loop :: "db \<Rightarrow> oref \<Rightarrow> objid list \<Rightarrow> bool option"
  where [code]: "isa_loop d parent queue =
     (case queue of
        [] \<Rightarrow> Some False
      | a # rest \<Rightarrow>
          if a = NOTHING then isa_loop d parent rest
          else if Perm a = parent then Some True
          else (case dbpriv_find_object d a of
                  None \<Rightarrow> None
                | Some t \<Rightarrow> isa_loop d parent (rest @ o_parent_list t)))"

definition db_object_isa :: "db \<Rightarrow> oref \<Rightarrow> oref \<Rightarrow> bool option" where
  "db_object_isa d obj parent =
     (if obj = parent then Some True
      else (case dbpriv_dereference d obj of
              None \<Rightarrow> None
            | Some ob \<Rightarrow> isa_loop d parent (o_parent_list ob)))"

section \<open>Owners\<close>

definition map_owners :: "(objid \<Rightarrow> objid) \<Rightarrow> object \<Rightarrow> object" where
  "map_owners f ob =
     ob\<lparr>o_owner := f (o_owner ob),
        o_verbdefs := map (\<lambda>v. v\<lparr>vd_owner := f (vd_owner v)\<rparr>) (o_verbdefs ob),
        o_propval := map (\<lambda>pv. pv\<lparr>pv_owner := f (pv_owner pv)\<rparr>) (o_propval ob)\<rparr>"

definition disown :: "objid \<Rightarrow> objid \<Rightarrow> objid" where
  "disown obj owner = (if owner = obj then NOTHING else owner)"

definition do_fixup_owners :: "objid \<Rightarrow> object \<Rightarrow> object" where
  "do_fixup_owners obj = map_owners (disown obj)"

text \<open>The anonymous objects in the order the nested loops visit them, with repetitions.\<close>

definition anon_visits :: "db \<Rightarrow> nat list" where
  "anon_visits d = concat (map snd (anonymous_objects d))"

definition on_table :: "(object \<Rightarrow> object) \<Rightarrow> db \<Rightarrow> db" where
  "on_table f d =
     d\<lparr>objects := map (\<lambda>i. if int i < num_objects d then map_option f (objects d ! i) else objects d ! i)
                    [0..<length (objects d)]\<rparr>"

definition db_fixup_owners :: "objid \<Rightarrow> db \<Rightarrow> db" where
  "db_fixup_owners obj d =
     fold (\<lambda>a. upd_ref (Anon a) (do_fixup_owners obj)) (anon_visits d)
       (on_table (do_fixup_owners obj) d)"

section \<open>Renumbering\<close>

text \<open>
  The search loop of \<^verbatim>\<open>FIX\<close> and the assignment after it; when the number is not in
  the list, the assignment is past its end.
\<close>

definition put_first :: "objid \<Rightarrow> objid \<Rightarrow> objid list \<Rightarrow> objid list option" where
  "put_first old new xs =
     (if old \<in> set xs then Some (takeWhile (\<lambda>x. x \<noteq> old) xs @ new # tl (dropWhile (\<lambda>x. x \<noteq> old) xs))
      else None)"

definition upd_opt :: "(object \<Rightarrow> object option) \<Rightarrow> objid \<Rightarrow> db \<Rightarrow> db option" where
  "upd_opt f oid d =
     (case dbpriv_find_object d oid of
        None \<Rightarrow> None
      | Some ob \<Rightarrow> map_option (\<lambda>ob1. upd_obj oid (\<lambda>_. ob1) d) (f ob))"

definition fix_parents :: "objid \<Rightarrow> objid \<Rightarrow> object \<Rightarrow> object option" where
  "fix_parents old new ob =
     (case o_parents ob of
        PMany xs \<Rightarrow> map_option (\<lambda>ys. ob\<lparr>o_parents := PMany ys\<rparr>) (put_first old new xs)
      | POne _ \<Rightarrow> Some (ob\<lparr>o_parents := POne new\<rparr>))"

definition fix_family :: "objid \<Rightarrow> objid \<Rightarrow> object \<Rightarrow> db \<Rightarrow> db option" where
  "fix_family old new ob d =
     Option.bind
       (siter (upd_opt (\<lambda>p. map_option (\<lambda>ys. p\<lparr>o_children := ys\<rparr>) (put_first old new (o_children p))))
          (linked_parents (o_parents ob)) d)
       (siter (upd_opt (fix_parents old new)) (o_children ob))"

definition fix_places :: "objid \<Rightarrow> objid \<Rightarrow> object \<Rightarrow> db \<Rightarrow> db option" where
  "fix_places old new ob d =
     Option.bind
       (siter (upd_opt (\<lambda>p. map_option (\<lambda>ys. p\<lparr>o_contents := ys\<rparr>) (put_first old new (o_contents p))))
          (if o_location ob = NOTHING then [] else [o_location ob]) d)
       (siter (upd_opt (\<lambda>c. Some (c\<lparr>o_location := new\<rparr>))) (o_contents ob))"

definition renumber_parents :: "objid \<Rightarrow> objid \<Rightarrow> object \<Rightarrow> object" where
  "renumber_parents old new ob =
     ob\<lparr>o_parents := (case o_parents ob of
                         POne x \<Rightarrow> POne (if x = old then new else x)
                       | PMany xs \<Rightarrow> PMany (map (\<lambda>x. if x = old then new else x) xs))\<rparr>"

definition fix_anons :: "objid \<Rightarrow> objid \<Rightarrow> db \<Rightarrow> db" where
  "fix_anons old new d =
     (case map_of (anonymous_objects d) old of
        None \<Rightarrow> d
      | Some as \<Rightarrow>
          (fold (\<lambda>a. upd_ref (Anon a) (renumber_parents old new)) as d)
            \<lparr>anonymous_objects := AList.update new as (AList.delete old (anonymous_objects d))\<rparr>)"

definition fix_users :: "objid \<Rightarrow> objid \<Rightarrow> db \<Rightarrow> db" where
  "fix_users old new d =
     (if is_user d new
      then d\<lparr>all_users := (case put_first old new (all_users d) of
                             None \<Rightarrow> all_users d | Some us \<Rightarrow> us)\<rparr>
      else d)"

definition new_owner :: "objid \<Rightarrow> objid \<Rightarrow> objid \<Rightarrow> objid" where
  "new_owner old new owner =
     (if owner = new then NOTHING else if owner = old then new else owner)"

definition anon_owners :: "(objid \<Rightarrow> objid) \<Rightarrow> object \<Rightarrow> object" where
  "anon_owners f ob =
     ob\<lparr>o_owner := f (o_owner ob),
        o_propval := map (\<lambda>pv. pv\<lparr>pv_owner := f (pv_owner pv)\<rparr>) (o_propval ob)\<rparr>"

definition fix_owners :: "objid \<Rightarrow> objid \<Rightarrow> db \<Rightarrow> db" where
  "fix_owners old new d =
     fold (\<lambda>a. upd_ref (Anon a) (anon_owners (new_owner old new))) (anon_visits d)
       (on_table (map_owners (new_owner old new)) d)"

fun first_free :: "object option list \<Rightarrow> nat \<Rightarrow> nat \<Rightarrow> nat option" where
  "first_free objs i 0 = None"
| "first_free objs i (Suc n) = (if objs ! i = None then Some i else first_free objs (Suc i) n)"

text \<open>The verb cache is keyed by the address of an object, which does not change.\<close>

definition rekey :: "objid \<Rightarrow> objid \<Rightarrow> oref \<Rightarrow> oref" where
  "rekey old new r = (if r = Perm old then Perm new else r)"

definition rekey_cache :: "objid \<Rightarrow> objid \<Rightarrow> db \<Rightarrow> db" where
  "rekey_cache old new d =
     d\<lparr>vc_table := map_option (\<lambda>t b. map (\<lambda>e. e\<lparr>vc_object := rekey old new (vc_object e),
          vc_handle := map_option (\<lambda>h. (rekey old new (fst h), snd h)) (vc_handle e)\<rparr>) (t b)) (vc_table d)\<rparr>"

definition db_renumber_object :: "objid \<Rightarrow> db \<Rightarrow> (objid \<times> db) option" where
  "db_renumber_object old d0 =
     (let d = db_clear_ancestor_cache d0 in
      if int (length (objects d)) < old then None
      else case first_free (objects d) 0 (nat old) of
        None \<Rightarrow> Some (old, d)
      | Some n \<Rightarrow>
          let new = int n in
          (case dbpriv_find_object d old of
             None \<Rightarrow> None
           | Some ob \<Rightarrow>
               let o1 = ob\<lparr>o_id := new\<rparr>;
                   d1 = rekey_cache old new (d\<lparr>objects := (objects d)[n := Some o1, nat old := None]\<rparr>)
               in map_option (\<lambda>d2. (new, fix_owners old new (fix_users old new (fix_anons old new d2))))
                    (Option.bind (fix_family old new o1 d1) (fix_places old new o1))))"

end
