(* ===== verification/DbLinks.thy ===== *)
theory DbLinks
  imports DbHierarchy
begin

text \<open>
  A hierarchy kept twice. A pair of fields, one upwards and one downwards, is linked when
  each link up has its link down and the other way round; \<open>relink\<close> is the change that
  parents and locations have in common: one object gets new upward links.
\<close>

section \<open>Reading after writing\<close>

lemma find_in_update:
  "0 \<le> oid \<Longrightarrow> oid < int (length objs) \<Longrightarrow>
   find_in (objs[nat oid := v]) q = (if q = oid then v else find_in objs q)"
  by (auto simp: find_in_def nth_list_update)

lemma find_in_range: "find_in objs q = Some ob \<Longrightarrow> 0 \<le> q \<and> q < int (length objs)"
  by (auto simp: find_in_def split: if_splits)

lemma find_upd_obj:
  "dbpriv_find_object (upd_obj oid f d) q =
     (if q = oid then map_option f (dbpriv_find_object d oid) else dbpriv_find_object d q)"
  by (auto simp: upd_obj_def dbpriv_find_object_def find_in_update dest: find_in_range split: option.split)

lemma find_NOTHING [simp]: "find_in objs NOTHING = None"
  by (simp add: find_in_def)

lemma valid_find: "valid d x \<longleftrightarrow> find_in (objects d) x \<noteq> None"
  by (simp add: valid_def dbpriv_find_object_def)

section \<open>Linked hierarchies\<close>

locale hierarchy =
  fixes ups :: "object \<Rightarrow> objid list" and downs :: "object \<Rightarrow> objid list"
begin

definition up :: "object option list \<Rightarrow> (objid \<times> objid) set" where
  "up objs = {(c, p). \<exists>ob. find_in objs c = Some ob \<and> p \<in> set (ups ob)}"

definition linked :: "object option list \<Rightarrow> bool" where
  "linked objs \<longleftrightarrow>
     (\<forall>c p. (c, p) \<in> up objs \<longleftrightarrow> (\<exists>op. find_in objs p = Some op \<and> c \<in> set (downs op))) \<and>
     (\<forall>p op. find_in objs p = Some op \<longrightarrow> distinct (downs op))"

definition ordered :: "object option list \<Rightarrow> bool" where
  "ordered objs \<longleftrightarrow> linked objs \<and> acyclic (up objs)"

text \<open>The table after \<open>x\<close> has been given the upward links \<open>new\<close>.\<close>

definition relinked :: "objid \<Rightarrow> objid list \<Rightarrow> object option list \<Rightarrow> object option list \<Rightarrow> bool" where
  "relinked x new objs objs' \<longleftrightarrow>
     (\<forall>q. find_in objs q = None \<longrightarrow> find_in objs' q = None) \<and>
     (\<forall>q ob. find_in objs q = Some ob \<longrightarrow>
        (\<exists>ob'. find_in objs' q = Some ob' \<and> ups ob' = (if q = x then new else ups ob) \<and>
          distinct (downs ob') \<and>
          set (downs ob') = set (downs ob) - {x} \<union> (if q \<in> set new then {x} else {})))"

text \<open>Only the two fields matter.\<close>

lemma ordered_cong:
  assumes "\<And>q. map_option (\<lambda>ob. (ups ob, downs ob)) (find_in objs' q) =
    map_option (\<lambda>ob. (ups ob, downs ob)) (find_in objs q)"
  shows "up objs' = up objs" "linked objs' = linked objs" "ordered objs' = ordered objs"
proof -
  have u: "(\<exists>ob. find_in objs' q = Some ob \<and> P (ups ob) (downs ob)) \<longleftrightarrow>
      (\<exists>ob. find_in objs q = Some ob \<and> P (ups ob) (downs ob))" for q P
    using assms [of q] by (cases "find_in objs q"; cases "find_in objs' q") auto
  show up: "up objs' = up objs" unfolding up_def using u [of _ "\<lambda>us _. _ \<in> set us"] by auto
  have "(\<exists>op. find_in objs' p = Some op \<and> c \<in> set (downs op)) \<longleftrightarrow>
      (\<exists>op. find_in objs p = Some op \<and> c \<in> set (downs op))" for c p
    using u [of p "\<lambda>_ ds. c \<in> set ds"] .
  moreover have "(\<forall>op. find_in objs' p = Some op \<longrightarrow> distinct (downs op)) \<longleftrightarrow>
      (\<forall>op. find_in objs p = Some op \<longrightarrow> distinct (downs op))" for p
    using u [of p "\<lambda>_ ds. \<not> distinct ds"] by auto
  ultimately show "linked objs' = linked objs" unfolding linked_def up by presburger
  then show "ordered objs' = ordered objs" by (simp add: ordered_def up)
qed

lemma relinkedD:
  assumes "relinked x new objs objs'"
  shows "find_in objs q = None \<Longrightarrow> find_in objs' q = None"
    and "find_in objs q = Some ob \<Longrightarrow> \<exists>ob'. find_in objs' q = Some ob' \<and>
      ups ob' = (if q = x then new else ups ob) \<and> distinct (downs ob') \<and>
      set (downs ob') = set (downs ob) - {x} \<union> (if q \<in> set new then {x} else {})"
  using assms unfolding relinked_def by blast+

lemma relinked_back:
  assumes "relinked x new objs objs'" "find_in objs' q = Some ob'"
  obtains ob where "find_in objs q = Some ob" "ups ob' = (if q = x then new else ups ob)"
    "distinct (downs ob')" "set (downs ob') = set (downs ob) - {x} \<union> (if q \<in> set new then {x} else {})"
  using relinkedD [OF assms(1), of q] assms(2) that by (cases "find_in objs q") auto

lemma up_relinked:
  assumes "relinked x new objs objs'" "find_in objs x \<noteq> None"
  shows "up objs' = {(c, p) \<in> up objs. c \<noteq> x} \<union> {x} \<times> set new"
proof (intro subset_antisym subsetI)
  fix e
  assume "e \<in> up objs'"
  then obtain c p ob' where e: "e = (c, p)" and ob': "find_in objs' c = Some ob'" "p \<in> set (ups ob')"
    unfolding up_def by blast
  obtain ob where "find_in objs c = Some ob" "ups ob' = (if c = x then new else ups ob)"
    by (rule relinked_back [OF assms(1) ob'(1)])
  with ob'(2) show "e \<in> {(c, p) \<in> up objs. c \<noteq> x} \<union> {x} \<times> set new"
    unfolding e up_def by (cases "c = x") simp_all
next
  fix e
  assume "e \<in> {(c, p) \<in> up objs. c \<noteq> x} \<union> {x} \<times> set new"
  then obtain c p where e: "e = (c, p)" and cp: "c \<noteq> x \<and> (c, p) \<in> up objs \<or> c = x \<and> p \<in> set new"
    by blast
  obtain ob where ob: "find_in objs c = Some ob"
    using cp assms(2) unfolding up_def by blast
  then obtain ob' where "find_in objs' c = Some ob'" "ups ob' = (if c = x then new else ups ob)"
    using relinkedD(2) [OF assms(1)] by blast
  then show "e \<in> up objs'" using cp ob unfolding e up_def by auto
qed

lemma linked_relinked:
  assumes "linked objs" "relinked x new objs objs'" "find_in objs x \<noteq> None"
    and "\<forall>p \<in> set new. find_in objs p \<noteq> None"
  shows "linked objs'"
proof -
  have L: "(c, p) \<in> up objs \<longleftrightarrow> (\<exists>op. find_in objs p = Some op \<and> c \<in> set (downs op))" for c p
    using assms(1) unfolding linked_def by blast
  have "(c, p) \<in> up objs' \<longleftrightarrow> (\<exists>op. find_in objs' p = Some op \<and> c \<in> set (downs op))" for c p
  proof (cases "find_in objs p")
    case None
    then show ?thesis
      using relinkedD(1) [OF assms(2) None] assms(4) L [of c p] unfolding up_relinked [OF assms(2,3)] by auto
  next
    case (Some op)
    then obtain op' where op': "find_in objs' p = Some op'"
      "set (downs op') = set (downs op) - {x} \<union> (if p \<in> set new then {x} else {})"
      using relinkedD(2) [OF assms(2)] by blast
    then show ?thesis
      using Some L [of c p] unfolding up_relinked [OF assms(2,3)] by (cases "c = x") simp_all
  qed
  moreover have "distinct (downs op)" if "find_in objs' p = Some op" for p op
    by (rule relinked_back [OF assms(2) that])
  ultimately show ?thesis unfolding linked_def by blast
qed

end

lemma rtrancl_into_source: "(a, x) \<in> (R \<union> {x} \<times> N)\<^sup>* \<Longrightarrow> (a, x) \<in> R\<^sup>*"
proof (induction rule: converse_rtrancl_induct)
  case (step y z)
  then show ?case by (cases "y = x") (auto intro: converse_rtrancl_into_rtrancl)
qed simp

lemma trancl_out_edges:
  "(a, b) \<in> (R \<union> {x} \<times> N)\<^sup>+ \<Longrightarrow>
   (a, b) \<in> R\<^sup>+ \<or> (\<exists>p \<in> N. (a, x) \<in> (R \<union> {x} \<times> N)\<^sup>* \<and> (p, b) \<in> (R \<union> {x} \<times> N)\<^sup>*)"
proof (induction rule: trancl_induct)
  case (step y z)
  from step(2) show ?case
  proof
    assume "(y, z) \<in> R"
    then show ?thesis using step(3) by (auto intro: trancl_into_trancl rtrancl_into_rtrancl)
  next
    assume "(y, z) \<in> {x} \<times> N"
    then show ?thesis using step(1) by (auto intro: trancl_into_rtrancl)
  qed
qed auto

lemma acyclic_out_edges:
  assumes "acyclic R" "\<And>p. p \<in> N \<Longrightarrow> (p, x) \<notin> R\<^sup>*"
  shows "acyclic (R \<union> {x} \<times> N)"
  unfolding acyclic_def
proof (intro allI notI)
  fix a
  assume "(a, a) \<in> (R \<union> {x} \<times> N)\<^sup>+"
  moreover have "(a, a) \<notin> R\<^sup>+" using assms(1) unfolding acyclic_def by blast
  ultimately obtain p where p: "p \<in> N" and ax: "(a, x) \<in> (R \<union> {x} \<times> N)\<^sup>*"
    and pa: "(p, a) \<in> (R \<union> {x} \<times> N)\<^sup>*"
    using trancl_out_edges [of a a R x N] by blast
  from pa ax have "(p, x) \<in> (R \<union> {x} \<times> N)\<^sup>*" by (rule rtrancl_trans)
  from rtrancl_into_source [OF this] assms(2) [OF p] show False by contradiction
qed

context hierarchy
begin

lemma ordered_relinked:
  assumes "ordered objs" "relinked x new objs objs'" "find_in objs x \<noteq> None"
    and "\<forall>p \<in> set new. find_in objs p \<noteq> None \<and> (p, x) \<notin> (up objs)\<^sup>*"
  shows "ordered objs'"
proof -
  have "linked objs'" using linked_relinked assms by (auto simp: ordered_def)
  moreover have "acyclic (up objs')"
    unfolding up_relinked [OF assms(2,3)]
  proof (rule acyclic_out_edges)
    show "acyclic {(c, p) \<in> up objs. c \<noteq> x}"
      using assms(1) unfolding ordered_def by (auto elim: acyclic_subset)
    show "(p, x) \<notin> {(c, p) \<in> up objs. c \<noteq> x}\<^sup>*" if "p \<in> set new" for p
      using assms(4) that rtrancl_mono [of "{(c, p) \<in> up objs. c \<noteq> x}" "up objs"] by auto
  qed
  ultimately show ?thesis by (simp add: ordered_def)
qed

end

section \<open>The two hierarchies of the database\<close>

abbreviation up_parents :: "object \<Rightarrow> objid list" where
  "up_parents ob \<equiv> linked_parents (o_parents ob)"

abbreviation up_location :: "object \<Rightarrow> objid list" where
  "up_location ob \<equiv> (if o_location ob = NOTHING then [] else [o_location ob])"

interpretation family: hierarchy up_parents o_children .

interpretation places: hierarchy up_location o_contents .

lemma linkedD:
  assumes "family.linked objs"
  shows "find_in objs c = Some ob \<Longrightarrow> p \<in> set (up_parents ob) \<Longrightarrow> \<exists>op. find_in objs p = Some op \<and> c \<in> set (o_children op)"
    and "find_in objs p = Some op \<Longrightarrow> c \<in> set (o_children op) \<Longrightarrow> \<exists>ob. find_in objs c = Some ob \<and> p \<in> set (up_parents ob)"
    and "find_in objs p = Some op \<Longrightarrow> distinct (o_children op)"
  using assms unfolding family.linked_def family.up_def by blast+

section \<open>Changing parents relinks\<close>

lemma upd_obj_frame: "upd_obj oid f d = d\<lparr>objects := objects (upd_obj oid f d)\<rparr>"
  by (auto simp: upd_obj_def split: option.split)

lemma siter_upd_valid:
  "\<forall>p \<in> set ps. valid d p \<Longrightarrow>
   \<exists>d'. siter (upd_valid f) ps d = Some d' \<and> d' = d\<lparr>objects := objects d'\<rparr> \<and>
     (\<forall>q. dbpriv_find_object d' q = map_option (f ^^ count_list ps q) (dbpriv_find_object d q))"
proof (induction ps arbitrary: d)
  case Nil
  then show ?case by (auto simp: option.map_ident)
next
  case (Cons p ps)
  let ?d = "upd_obj p f d"
  have "valid ?d q \<longleftrightarrow> valid d q" for q by (auto simp: valid_def find_upd_obj)
  with Cons.prems have "\<forall>q \<in> set ps. valid ?d q" by simp
  from Cons.IH [OF this] obtain d' where d': "siter (upd_valid f) ps ?d = Some d'"
    "d' = ?d\<lparr>objects := objects d'\<rparr>"
    "\<And>q. dbpriv_find_object d' q = map_option (f ^^ count_list ps q) (dbpriv_find_object ?d q)" by blast
  have "d' = d\<lparr>objects := objects d'\<rparr>" using d'(2) upd_obj_frame [of p f d] by (metis db.surjective db.update_convs(1))
  moreover have "dbpriv_find_object d' q = map_option (f ^^ count_list (p # ps) q) (dbpriv_find_object d q)" for q
    by (simp add: d'(3) find_upd_obj option.map_comp funpow_swap1 comp_def)
  moreover have "siter (upd_valid f) (p # ps) d = Some d'"
    using d'(1) Cons.prems by (simp add: upd_valid_def [of f p d])
  ultimately show ?case by blast
qed

lemma drop_child_pow: "distinct (o_children ob) \<Longrightarrow> 0 < n \<Longrightarrow> (drop_child x ^^ n) ob = drop_child x ob"
proof (induction n)
  case (Suc n)
  then show ?case by (cases n) (auto simp: oset_remove_def distinct_remove1_removeAll remove1_idem)
qed simp

lemma take_child_pow: "0 < n \<Longrightarrow> (take_child x ^^ n) ob = take_child x ob"
proof (induction n)
  case (Suc n)
  then show ?case by (cases n) (auto simp: oset_add_def)
qed simp

lemma children_only_pow:
  assumes "\<And>ob. \<exists>cs. f ob = ob\<lparr>o_children := cs\<rparr>"
  shows "(f ^^ n) ob = ob\<lparr>o_children := o_children ((f ^^ n) ob)\<rparr>"
proof -
  have "\<exists>cs. (f ^^ n) ob = ob\<lparr>o_children := cs\<rparr>"
  proof (induction n)
    case 0
    show ?case by (auto intro: exI [of _ "o_children ob"])
  next
    case (Suc n)
    then obtain cs where "(f ^^ n) ob = ob\<lparr>o_children := cs\<rparr>" by blast
    moreover obtain cs' where "f ((f ^^ n) ob) = ((f ^^ n) ob)\<lparr>o_children := cs'\<rparr>" using assms by blast
    ultimately show ?case by auto
  qed
  then show ?thesis by auto
qed

lemma count_list_pos_iff: "0 < count_list xs q \<longleftrightarrow> q \<in> set xs"
  by (metis count_list_0_iff neq0_conv)

lemma set_drop_take:
  assumes "distinct xs"
  shows "distinct (oset_remove xs x)" "set (oset_remove xs x) = set xs - {x}"
    "distinct (oset_add xs x)" "set (oset_add xs x) = insert x (set xs)"
  using assms by (auto simp: oset_remove_def oset_add_def)

text \<open>The three writes of a change of parents, on the table of objects.\<close>

lemma relink_parents_ok:
  assumes linked: "family.linked (objects d)"
    and x: "dbpriv_find_object d x = Some ob"
    and new: "\<forall>p \<in> set (linked_parents new_parents). valid d p"
  shows "\<exists>d'. relink_parents (Perm x) (o_parents ob) new_parents d = Some d' \<and>
    d' = d\<lparr>objects := objects d'\<rparr> \<and>
    family.relinked x (linked_parents new_parents) (objects d)
      (objects (upd_ref (Perm x) (\<lambda>ob. ob\<lparr>o_parents := new_parents\<rparr>) d')) \<and>
    (\<exists>cs. \<forall>q. find_in (objects (upd_ref (Perm x) (\<lambda>ob. ob\<lparr>o_parents := new_parents\<rparr>) d')) q =
       map_option (\<lambda>oq. if q = x then oq\<lparr>o_children := cs q oq, o_parents := new_parents\<rparr>
                         else oq\<lparr>o_children := cs q oq\<rparr>) (find_in (objects d) q))"
proof -
  let ?old = "up_parents ob" and ?new = "linked_parents new_parents"
  note L = linkedD [OF linked]
  have fx: "find_in (objects d) x = Some ob" using x by (simp add: dbpriv_find_object_def)
  have "\<forall>p \<in> set ?old. valid d p" using L(1) [OF fx] by (fastforce simp: valid_find)
  from siter_upd_valid [OF this, of "drop_child x"] obtain d1 where
    d1: "siter (upd_valid (drop_child x)) ?old d = Some d1" "d1 = d\<lparr>objects := objects d1\<rparr>"
      "\<And>q. dbpriv_find_object d1 q = map_option (drop_child x ^^ count_list ?old q) (dbpriv_find_object d q)"
    by blast
  have "\<forall>p \<in> set ?new. valid d1 p" using new d1(3) by (simp add: valid_def)
  from siter_upd_valid [OF this, of "take_child x"] obtain d2 where
    d2: "siter (upd_valid (take_child x)) ?new d1 = Some d2" "d2 = d1\<lparr>objects := objects d2\<rparr>"
      "\<And>q. dbpriv_find_object d2 q = map_option (take_child x ^^ count_list ?new q) (dbpriv_find_object d1 q)"
    by blast
  define g where "g = (\<lambda>q ob. (take_child x ^^ count_list ?new q) ((drop_child x ^^ count_list ?old q) ob))"
  let ?h = "\<lambda>q ob. if q = x then (g q ob)\<lparr>o_parents := new_parents\<rparr> else g q ob"
  let ?d3 = "upd_ref (Perm x) (\<lambda>ob. ob\<lparr>o_parents := new_parents\<rparr>) d2"
  have find3: "find_in (objects ?d3) q = map_option (?h q) (find_in (objects d) q)" for q
    using d1(3) d2(3) find_upd_obj [of x _ d2 q]
    by (simp add: dbpriv_find_object_def option.map_comp comp_def g_def)
  have only: "(take_child x ^^ n) ob = ob\<lparr>o_children := o_children ((take_child x ^^ n) ob)\<rparr>"
    "(drop_child x ^^ n) ob = ob\<lparr>o_children := o_children ((drop_child x ^^ n) ob)\<rparr>" for n ob
    by (rule children_only_pow; blast)+
  have g_only: "g q oq = oq\<lparr>o_children := o_children (g q oq)\<rparr>" for q oq
    unfolding g_def by (subst only(1), subst only(2)) simp
  have up: "o_parents ((take_child x ^^ n) ob) = o_parents ob" "o_parents ((drop_child x ^^ n) ob) = o_parents ob" for n ob
    by (induction n) auto
  then have g_up: "o_parents (g q oq) = o_parents oq" for q oq by (simp add: g_def)
  have downs: "distinct (o_children (g q oq)) \<and>
      set (o_children (g q oq)) = set (o_children oq) - {x} \<union> (if q \<in> set ?new then {x} else {})"
    if "find_in (objects d) q = Some oq" for q oq
  proof -
    have dq: "distinct (o_children oq)" using L(3) [OF that] .
    have gone: "x \<notin> set (o_children oq)" if "q \<notin> set ?old"
      using L(2) [OF \<open>find_in (objects d) q = Some oq\<close>, of x] fx that by auto
    have dr: "(drop_child x ^^ count_list ?old q) oq = (if q \<in> set ?old then drop_child x oq else oq)"
      using drop_child_pow [OF dq, of "count_list ?old q" x] by (simp add: count_list_0_iff count_list_pos_iff)
    have tk: "(take_child x ^^ count_list ?new q) o1 = (if q \<in> set ?new then take_child x o1 else o1)" for o1
      using take_child_pow [of "count_list ?new q" x o1] by (simp add: count_list_0_iff count_list_pos_iff)
    show ?thesis unfolding g_def dr tk using dq gone set_drop_take by auto
  qed
  have "family.relinked x ?new (objects d) (objects ?d3)"
    unfolding family.relinked_def using find3 g_up downs by simp
  moreover have "relink_parents (Perm x) (o_parents ob) new_parents d = Some d2"
    using d1(1) d2(1) by (simp add: relink_parents_def)
  moreover have "d2 = d\<lparr>objects := objects d2\<rparr>"
    using d1(2) d2(2) by (metis db.surjective db.update_convs(1))
  moreover have "find_in (objects ?d3) q =
       map_option (\<lambda>oq. if q = x then oq\<lparr>o_children := o_children (g q oq), o_parents := new_parents\<rparr>
                         else oq\<lparr>o_children := o_children (g q oq)\<rparr>) (find_in (objects d) q)" for q
    unfolding find3
  proof (rule map_option_cong [OF HOL.refl])
    fix oq
    show "?h q oq = (if q = x then oq\<lparr>o_children := o_children (g q oq), o_parents := new_parents\<rparr>
        else oq\<lparr>o_children := o_children (g q oq)\<rparr>)"
      by (subst (1 2) g_only) (simp only:)
  qed
  ultimately show ?thesis by (intro exI [of _ d2] conjI exI [of _ "\<lambda>q oq. o_children (g q oq)"] allI)
qed

section \<open>Changing location relinks\<close>

lemma distinct_listinsert: "distinct xs \<Longrightarrow> v \<notin> set xs \<Longrightarrow> distinct (listinsert xs v pos)"
  by (rule card_distinct) (simp add: distinct_card)

lemma places_up_iff:
  "(c, p) \<in> places.up objs \<longleftrightarrow> (\<exists>ob. find_in objs c = Some ob \<and> o_location ob = p \<and> p \<noteq> NOTHING)"
  by (auto simp: places.up_def split: if_splits)

lemma places_linkedD:
  assumes "places.linked objs"
  shows "find_in objs c = Some ob \<Longrightarrow> o_location ob \<noteq> NOTHING \<Longrightarrow>
      \<exists>op. find_in objs (o_location ob) = Some op \<and> c \<in> set (o_contents op)"
    and "find_in objs p = Some op \<Longrightarrow> c \<in> set (o_contents op) \<Longrightarrow>
      \<exists>ob. find_in objs c = Some ob \<and> o_location ob = p"
    and "find_in objs p = Some op \<Longrightarrow> distinct (o_contents op)"
  using assms unfolding places.linked_def places_up_iff by blast+

definition move_writes :: "objid \<Rightarrow> objid \<Rightarrow> objid \<Rightarrow> int \<Rightarrow> db \<Rightarrow> db" where
  "move_writes x old new position d =
     upd_obj x (\<lambda>ob. ob\<lparr>o_location := new\<rparr>)
       (upd_obj new (\<lambda>l. l\<lparr>o_contents := listinsert (o_contents l) x
                       (if position \<le> 0 then int (length (o_contents l)) + 1 else position)\<rparr>)
         (upd_obj old (\<lambda>l. l\<lparr>o_contents := oset_remove (o_contents l) x\<rparr>) d))"

lemma move_writes_ok:
  assumes linked: "places.linked (objects d)" and x: "dbpriv_find_object d x = Some ob"
    and new: "new = NOTHING \<or> valid d new"
  shows "places.relinked x (if new = NOTHING then [] else [new]) (objects d)
    (objects (move_writes x (o_location ob) new position d))"
proof -
  note L = places_linkedD [OF linked]
  have fx: "find_in (objects d) x = Some ob" using x by (simp add: dbpriv_find_object_def)
  define g where "g = (\<lambda>q (oq :: object). if q = o_location ob then oq\<lparr>o_contents := oset_remove (o_contents oq) x\<rparr> else oq)"
  define h where "h = (\<lambda>q (oq :: object). if q = new then oq\<lparr>o_contents := listinsert (o_contents oq) x
      (if position \<le> 0 then int (length (o_contents oq)) + 1 else position)\<rparr> else oq)"
  have find: "find_in (objects (move_writes x (o_location ob) new position d)) q =
      map_option (\<lambda>oq. if q = x then (h q (g q oq))\<lparr>o_location := new\<rparr> else h q (g q oq)) (find_in (objects d) q)" for q
    unfolding dbpriv_find_object_def [symmetric] move_writes_def find_upd_obj g_def h_def
    by (cases "dbpriv_find_object d q") auto
  have loc: "o_location (h q (g q oq)) = o_location oq" for q oq by (simp add: g_def h_def)
  have cont: "distinct (o_contents (h q (g q oq))) \<and>
      set (o_contents (h q (g q oq))) = set (o_contents oq) - {x} \<union> (if q = new then {x} else {})"
    if q: "find_in (objects d) q = Some oq" for q oq
  proof -
    have dq: "distinct (o_contents oq)" using L(3) [OF q] .
    have "x \<notin> set (o_contents oq)" if "q \<noteq> o_location ob" using L(2) [OF q, of x] fx that by auto
    then have g: "distinct (o_contents (g q oq))" "set (o_contents (g q oq)) = set (o_contents oq) - {x}"
      using dq set_drop_take(1,2) [of "o_contents oq" x] by (auto simp: g_def)
    then show ?thesis by (auto simp: h_def intro: distinct_listinsert)
  qed
  have "q \<noteq> NOTHING" if "find_in (objects d) q = Some oq" for q oq using that by auto
  then show ?thesis
    unfolding places.relinked_def using find loc cont new by (auto simp: valid_find)
qed

end
