(* ===== verification/DbFrame.thy ===== *)
theory DbFrame
  imports DbLinks
begin

text \<open>
  What the operations on properties leave alone. They read the ancestor cache and may fill
  it, and they change values, definitions and attributes, but no identity and no link of
  either hierarchy, and no verb. \<open>state_frame\<close> carries a relation between states through the sequencing
  operators; it is used with \<open>same_shape\<close>, which also keeps the ancestor cache coherent.
\<close>

section \<open>Relations between states\<close>

locale state_frame =
  fixes R :: "db \<Rightarrow> db \<Rightarrow> bool"
  assumes refl: "R d d" and trans: "R d1 d2 \<Longrightarrow> R d2 d3 \<Longrightarrow> R d1 d3"
begin

definition keeps :: "(db \<Rightarrow> ('a \<times> db) option) \<Rightarrow> bool" where
  "keeps m \<longleftrightarrow> (\<forall>d x d'. m d = Some (x, d') \<longrightarrow> R d d')"

definition updates :: "(db \<Rightarrow> db option) \<Rightarrow> bool" where
  "updates f \<longleftrightarrow> (\<forall>d d'. f d = Some d' \<longrightarrow> R d d')"

lemma keepsD: "keeps m \<Longrightarrow> m d = Some (x, d') \<Longrightarrow> R d d'"
  by (auto simp: keeps_def)

lemma keeps_sbind: "keeps m \<Longrightarrow> (\<And>x. keeps (f x)) \<Longrightarrow> keeps (sbind m f)"
  unfolding keeps_def sbind_def by (fastforce split: option.splits intro: trans)

lemma keeps_sreturn: "keeps (sreturn x)"
  by (simp add: keeps_def sreturn_def refl)

lemma keeps_sget: "keeps (sget f)"
  by (auto simp: keeps_def sget_def refl)

lemma keeps_smodify: "updates f \<Longrightarrow> keeps (smodify f)"
  by (auto simp: keeps_def updates_def smodify_def)

lemma keeps_smap: "(\<And>x. keeps (f x)) \<Longrightarrow> keeps (smap f xs)"
  by (induction xs) (auto intro!: keeps_sbind keeps_sreturn)

lemma updates_siter: "(\<And>x. updates (f x)) \<Longrightarrow> updates (siter f xs)"
proof (induction xs)
  case (Cons x xs)
  then have f: "updates (f x)" and fs: "updates (siter f xs)" by auto
  show ?case unfolding updates_def
  proof (intro allI impI)
    fix d d' assume "siter f (x # xs) d = Some d'"
    then obtain d1 where "f x d = Some d1" "siter f xs d1 = Some d'" by (auto split: option.splits)
    with f fs show "R d d'" unfolding updates_def by (blast intro: trans)
  qed
qed (simp add: updates_def refl)

lemmas keeps_intros = keeps_sbind keeps_sreturn keeps_sget keeps_smodify keeps_smap

end

section \<open>The shape of the database\<close>

type_synonym skel = "objid \<times> parents \<times> objid list \<times> objid \<times> objid list \<times> verbdef list"

definition skeleton :: "object \<Rightarrow> skel" where
  "skeleton ob = (o_id ob, o_parents ob, o_children ob, o_location ob, o_contents ob, o_verbdefs ob)"

text \<open>A cached list of ancestors is what a walk up the parents gives.\<close>

definition cache_ok :: "db \<Rightarrow> bool" where
  "cache_ok d \<longleftrightarrow>
     (\<forall>oid ob. dbpriv_find_object d oid = Some ob \<longrightarrow>
        o_id ob = oid \<and>
        (o_parents ob \<noteq> POne NOTHING \<longrightarrow>
          (\<forall>as. ancestor_cache d oid = Some as \<longrightarrow>
             as = walk (objects d) o_parent_list (o_parent_list ob) [])))"

definition shape :: "db \<Rightarrow> skel option list" where
  "shape d = map (map_option skeleton) (objects d)"

definition same_shape :: "db \<Rightarrow> db \<Rightarrow> bool" where
  "same_shape d d' \<longleftrightarrow> shape d' = shape d \<and> anonymous_objects d' = anonymous_objects d \<and>
     num_objects d' = num_objects d \<and> array_size d' = array_size d \<and> vc_table d' = vc_table d \<and>
     (\<forall>a. map_option skeleton (anon_store d' a) = map_option skeleton (anon_store d a)) \<and>
     (cache_ok d \<longrightarrow> cache_ok d')"

interpretation fr: state_frame same_shape
  by unfold_locales (auto simp: same_shape_def)

definition shape_find :: "('s option) list \<Rightarrow> objid \<Rightarrow> 's option" where
  "shape_find ss oid = (if oid < 0 \<or> oid \<ge> int (length ss) then None else ss ! nat oid)"

lemma shape_find: "shape_find (shape d) oid = map_option skeleton (dbpriv_find_object d oid)"
  by (auto simp: shape_find_def shape_def dbpriv_find_object_def find_in_def)

lemma same_shape_find:
  assumes "shape d' = shape d"
  shows "map_option skeleton (dbpriv_find_object d' oid) = map_option skeleton (dbpriv_find_object d oid)"
  using assms by (simp add: shape_find [symmetric])

lemma same_shape_Some:
  assumes "shape d' = shape d" "dbpriv_find_object d' oid = Some ob'"
  obtains ob where "dbpriv_find_object d oid = Some ob" "skeleton ob = skeleton ob'"
  using same_shape_find [OF assms(1), of oid] assms(2) by (cases "dbpriv_find_object d oid") auto

text \<open>A walk sees only the fields of what it visits.\<close>

lemma walk_agree:
  "set stack \<subseteq> A \<Longrightarrow>
   (\<And>v. v \<in> A \<Longrightarrow> find_in objs v = None \<longleftrightarrow> find_in objs' v = None) \<Longrightarrow>
   (\<And>v ob ob'. v \<in> A \<Longrightarrow> find_in objs v = Some ob \<Longrightarrow> find_in objs' v = Some ob' \<Longrightarrow>
      fld ob = fld ob' \<and> set (fld ob) \<subseteq> A) \<Longrightarrow>
   walk objs fld stack bits = walk objs' fld stack bits"
proof (induction objs fld stack bits rule: walk.induct)
  case (2 objs fld oid stack bits)
  have A: "oid \<in> A" "set stack \<subseteq> A" using 2(4) by auto
  show ?case
  proof (cases "find_in objs oid")
    case None
    then have "find_in objs' oid = None" using 2(5) A(1) by blast
    with None 2(1) [OF None A(2) 2(5,6)] show ?thesis by simp
  next
    case (Some ob)
    then obtain ob' where ob': "find_in objs' oid = Some ob'" using 2(5) [OF A(1)] by fastforce
    have f: "fld ob = fld ob'" "set (fld ob @ stack) \<subseteq> A" using 2(6) [OF A(1) Some ob'] A(2) by auto
    show ?thesis
    proof (cases "oid \<in> set bits")
      case True
      with 2(2) [OF Some True A(2) 2(5,6)] Some ob' show ?thesis by simp
    next
      case False
      with 2(3) [OF Some False f(2) 2(5,6)] Some ob' f(1) show ?thesis by simp
    qed
  qed
qed simp

lemma walk_same_shape:
  assumes "shape d' = shape d" and "\<And>ob ob'. skeleton ob = skeleton ob' \<Longrightarrow> fld ob = fld ob'"
  shows "walk (objects d') fld stack bits = walk (objects d) fld stack bits"
proof (rule walk_agree [where A = UNIV])
  fix v
  show "find_in (objects d') v = None \<longleftrightarrow> find_in (objects d) v = None"
    using same_shape_find [OF assms(1), of v]
    by (cases "find_in (objects d') v"; cases "find_in (objects d) v") (auto simp: dbpriv_find_object_def)
  show "fld ob = fld ob' \<and> set (fld ob) \<subseteq> UNIV"
    if "find_in (objects d') v = Some ob" "find_in (objects d) v = Some ob'" for ob ob'
  proof -
    have "skeleton ob = skeleton ob'"
      using same_shape_find [OF assms(1), of v] that by (simp add: dbpriv_find_object_def)
    from assms(2) [OF this] show ?thesis by simp
  qed
qed simp

lemma o_parent_list_skeleton: "skeleton ob = skeleton ob' \<Longrightarrow> o_parent_list ob = o_parent_list ob'"
  by (simp add: skeleton_def o_parent_list_def)

lemma same_shapeI:
  assumes "shape d' = shape d" "anonymous_objects d' = anonymous_objects d" "num_objects d' = num_objects d"
    and "ancestor_cache d' = ancestor_cache d" "array_size d' = array_size d" "vc_table d' = vc_table d"
    and "\<And>a. map_option skeleton (anon_store d' a) = map_option skeleton (anon_store d a)"
  shows "same_shape d d'"
proof -
  have "cache_ok d'" if c: "cache_ok d"
    unfolding cache_ok_def
  proof (intro allI impI)
    fix oid ob' assume f: "dbpriv_find_object d' oid = Some ob'"
    obtain ob where ob: "dbpriv_find_object d oid = Some ob" "skeleton ob = skeleton ob'"
      by (rule same_shape_Some [OF assms(1) f])
    note w = walk_same_shape [OF assms(1) o_parent_list_skeleton]
    from c ob(1) have "o_id ob = oid \<and> (o_parents ob \<noteq> POne NOTHING \<longrightarrow> (\<forall>as. ancestor_cache d oid = Some as \<longrightarrow>
             as = walk (objects d) o_parent_list (o_parent_list ob) []))" unfolding cache_ok_def by blast
    with ob(2) assms(4) w o_parent_list_skeleton [OF ob(2)]
    show "o_id ob' = oid \<and> (o_parents ob' \<noteq> POne NOTHING \<longrightarrow> (\<forall>as. ancestor_cache d' oid = Some as \<longrightarrow>
             as = walk (objects d') o_parent_list (o_parent_list ob') []))"
      by (simp add: skeleton_def)
  qed
  with assms show ?thesis by (simp add: same_shape_def)
qed

text \<open>Writes that do not touch the shape.\<close>

lemma shape_upd_obj:
  assumes "\<And>ob. skeleton (f ob) = skeleton ob"
  shows "shape (upd_obj oid f d) = shape d"
proof (cases "dbpriv_find_object d oid")
  case None
  then show ?thesis by (simp add: upd_obj_def)
next
  case (Some ob)
  then have i: "nat oid < length (objects d)" "objects d ! nat oid = Some ob"
    by (auto simp: dbpriv_find_object_def find_in_def split: if_splits)
  have "map (map_option skeleton) ((objects d)[nat oid := Some (f ob)]) = map (map_option skeleton) (objects d)"
    using i assms by (simp add: map_update) (metis list_update_id length_map map_option_eq_Some nth_map option.simps(9))
  then show ?thesis using Some by (simp add: upd_obj_def shape_def)
qed

lemma same_shape_upd_ref:
  assumes "\<And>ob. skeleton (f ob) = skeleton ob"
  shows "same_shape d (upd_ref r f d)"
proof (cases r)
  case (Perm oid)
  show ?thesis unfolding Perm
  proof (rule same_shapeI)
    show "shape (upd_ref (Perm oid) f d) = shape d" by (simp add: shape_upd_obj [OF assms])
  qed (simp_all add: upd_obj_def split: option.split)
next
  case (Anon a)
  show ?thesis unfolding Anon
    by (rule same_shapeI) (auto simp: shape_def assms split: option.split)
qed

section \<open>The ancestor cache\<close>

text \<open>
  With a coherent cache, \<^verbatim>\<open>db_ancestors\<close> returns what the walk would, whether the
  list was cached or not, and leaves the cache coherent.
\<close>

lemma db_ancestors_shape: "db_ancestors r full d = Some (l, d') \<Longrightarrow>
    shape d' = shape d \<and> anonymous_objects d' = anonymous_objects d \<and> num_objects d' = num_objects d \<and> array_size d' = array_size d \<and>
    vc_table d' = vc_table d \<and> anon_store d' = anon_store d"
  by (auto simp: db_ancestors_def Let_def shape_def split: oref.splits option.splits if_splits)

lemma listinsert_first: "listinsert xs v 1 = v # xs"
  by (simp add: listinsert_def doinsert_def)

lemma db_ancestors_ok:
  assumes "cache_ok d" "dbpriv_dereference d r = Some ob"
  shows "\<exists>d'. db_ancestors r full d =
      Some ((if full then [r] else []) @ map Perm (walk (objects d) o_parent_list (o_parent_list ob) []), d') \<and>
    cache_ok d' \<and> d' = d\<lparr>ancestor_cache := ancestor_cache d'\<rparr>"
proof -
  have orphan: "walk (objects d) o_parent_list (o_parent_list ob) [] = []" if "no_parents (o_parents ob)"
    using that by (auto simp: no_parents_def o_parent_list_def parent_list_def split: parents.splits)
  have plain: "db_find_ancestors d r full =
      Some ((if full then [r] else []) @ map Perm (walk (objects d) o_parent_list (o_parent_list ob) []))"
    using assms(2) orphan by (simp add: db_find_ancestors_def db_walk_def db2_add_walk)
  show ?thesis
  proof (cases r)
    case (Anon a)
    then show ?thesis using plain assms(1) by (simp add: db_ancestors_def)
  next
    case (Perm oid)
    then have f: "dbpriv_find_object d oid = Some ob" using assms(2) by simp
    show ?thesis
    proof (cases "o_parents ob = POne NOTHING")
      case True
      then show ?thesis using plain assms(1) f Perm by (simp add: db_ancestors_def)
    next
      case False
      have id: "o_id ob = oid" and c: "\<And>as. ancestor_cache d oid = Some as \<Longrightarrow>
          as = walk (objects d) o_parent_list (o_parent_list ob) []"
        using assms(1) f False unfolding cache_ok_def by blast+
      let ?w = "walk (objects d) o_parent_list (o_parent_list ob) []"
      have w: "cached_ancestors d oid ob = ?w"
        using c orphan by (cases "ancestor_cache d oid") (auto simp: cached_ancestors_def id db2_add_walk)
      let ?d = "d\<lparr>ancestor_cache := (ancestor_cache d)(oid := Some ?w)\<rparr>"
      have "cache_ok ?d"
        using assms(1) f unfolding cache_ok_def by (auto simp: dbpriv_find_object_def)
      moreover have "db_ancestors r full d = Some ((if full then [r] else []) @ map Perm ?w, ?d)"
        using f False w id Perm by (simp add: db_ancestors_def Let_def listinsert_first)
      ultimately show ?thesis by auto
    qed
  qed
qed

lemma keeps_db_ancestors: "fr.keeps (db_ancestors r full)"
  unfolding fr.keeps_def same_shape_def
proof (intro allI impI)
  fix d l d' assume a: "db_ancestors r full d = Some (l, d')"
  then obtain ob where "dbpriv_dereference d r = Some ob"
    by (auto simp: db_ancestors_def db_find_ancestors_def db_walk_def split: oref.splits option.splits)
  with a db_ancestors_ok [of d r ob full] have "cache_ok d \<longrightarrow> cache_ok d'" by auto
  with db_ancestors_shape [OF a]
  show "shape d' = shape d \<and> anonymous_objects d' = anonymous_objects d \<and>
      num_objects d' = num_objects d \<and> array_size d' = array_size d \<and> vc_table d' = vc_table d \<and>
      (\<forall>a. map_option skeleton (anon_store d' a) = map_option skeleton (anon_store d a)) \<and>
      (cache_ok d \<longrightarrow> cache_ok d')" by simp
qed

section \<open>The operations on properties\<close>

lemma skeleton_simps [simp]:
  "skeleton (ob\<lparr>o_propval := pvs\<rparr>) = skeleton ob"
  "skeleton (ob\<lparr>o_waif_propdefs := w\<rparr>) = skeleton ob"
  "skeleton (ob\<lparr>o_propdefs := ps\<rparr>) = skeleton ob"
  "skeleton (ob\<lparr>o_name := n\<rparr>) = skeleton ob"
  "skeleton (ob\<lparr>o_owner := x\<rparr>) = skeleton ob"
  "skeleton (ob\<lparr>o_flags := fl\<rparr>) = skeleton ob"
  "skeleton (ob\<lparr>o_last_move := lm\<rparr>) = skeleton ob"
  "skeleton (set_flag f ob) = skeleton ob" "skeleton (clear_flag f ob) = skeleton ob"
  by (simp_all add: skeleton_def set_flag_def clear_flag_def)

lemma keeps_properties_offset: "fr.keeps (properties_offset target this)"
  unfolding properties_offset_def by (intro fr.keeps_intros keeps_db_ancestors)

lemma keeps_first_offset: "fr.keeps (first_offset definer ps)"
proof (induction ps)
  case (Cons p ps)
  show ?case unfolding fr.keeps_def
  proof (intro allI impI)
    fix d x d' assume "first_offset definer (p # ps) d = Some (x, d')"
    moreover have "fr.keeps (sbind (properties_offset definer (Perm p)) (\<lambda>off.
       if off > - 1 \<or> ps = [] then sreturn (p, off) else first_offset definer ps))"
      using Cons by (auto intro!: fr.keeps_intros keeps_properties_offset)
    ultimately show "same_shape d d'" using fr.keepsD by fastforce
  qed
qed (simp add: fr.keeps_def)

lemma keeps_resolve_clear: "fr.keeps (resolve_clear fuel definer i r n)"
proof (induction fuel arbitrary: r n)
  case (Suc fuel)
  show ?case unfolding fr.keeps_def
  proof (intro allI impI)
    fix d x d' assume a: "resolve_clear (Suc fuel) definer i r n d = Some (x, d')"
    have "fr.keeps (sbind (first_offset definer ps) (\<lambda>(p, off). resolve_clear fuel definer i (Perm p) (off + int i)))" for ps
      using Suc by (auto intro!: fr.keeps_intros keeps_first_offset split: prod.splits)
    with a show "same_shape d d'"
      by (auto split: option.splits if_splits simp: fr.refl dest: fr.keepsD)
  qed
qed (simp add: fr.keeps_def)

lemma keeps_db_find_property: "fr.keeps (db_find_property obj name)"
  unfolding fr.keeps_def
proof (intro allI impI)
  fix d x d' assume a: "db_find_property obj name d = Some (x, d')"
  have "fr.keeps (sbind (db_ancestors obj False) (\<lambda>ancestors d1.
      Some (case find_slot d1 name (obj # ancestors) 0 of
              None \<Rightarrow> NoProp | Some (definer, n, i) \<Rightarrow> PropSlot obj definer n i, d1)))"
    by (rule fr.keeps_sbind [OF keeps_db_ancestors]) (simp add: fr.keeps_def fr.refl)
  with a show "same_shape d d'"
    by (auto simp: db_find_property_def fr.refl split: option.splits dest: fr.keepsD)
qed

lemma keeps_db_property_value_of: "fr.keeps (db_property_value_of h)"
  unfolding fr.keeps_def
proof (intro allI impI)
  fix d x d' assume "db_property_value_of h d = Some (x, d')"
  then show "same_shape d d'"
    by (auto simp: db_property_value_of_def fr.refl simp del: resolve_clear.simps
      split: prop_handle.splits option.splits dest: fr.keepsD [OF keeps_resolve_clear])
qed

lemma updates_insert_prop2: "fr.updates (insert_prop2 obj pos pv)"
  unfolding fr.updates_def insert_prop2_def
  by (auto simp: Let_def simp del: upd_ref.simps intro!: same_shape_upd_ref split: option.splits if_splits)

lemma updates_remove_prop2: "fr.updates (remove_prop2 obj pos)"
  unfolding fr.updates_def remove_prop2_def
  by (auto simp del: upd_ref.simps intro!: same_shape_upd_ref split: option.splits if_splits)

lemma keeps_insert_prop_recursively: "fr.keeps (insert_prop_recursively root pos pv)"
  unfolding insert_prop_recursively_def insert_prop_def Let_def
  by (intro fr.keeps_intros fr.updates_siter keeps_properties_offset updates_insert_prop2)
    (auto intro: updates_insert_prop2)

lemma keeps_remove_prop_recursively: "fr.keeps (remove_prop_recursively root pos)"
  unfolding remove_prop_recursively_def remove_prop_def
  by (intro fr.keeps_intros fr.updates_siter keeps_properties_offset updates_remove_prop2)
    (auto intro: updates_remove_prop2)

lemma keeps_db_add_propdef: "fr.keeps (db_add_propdef obj pname val owner flags)"
  unfolding db_add_propdef_def
proof (rule fr.keeps_sbind [OF keeps_db_find_property])
  fix h
  have rec: "fr.keeps (sbind (insert_prop_recursively oid pos pv) (\<lambda>_. sreturn True))"
    "fr.keeps (sbind (smodify (insert_prop2 r pos pv)) (\<lambda>_. sreturn True))" for oid r pos pv
    by (intro fr.keeps_intros keeps_insert_prop_recursively updates_insert_prop2)+
  let ?def = "\<lambda>ob. ob\<lparr>o_propdefs := o_propdefs ob @ [dbpriv_new_propdef pname]\<rparr>"
  have d1: "same_shape d (upd_ref r ?def d)" for r d by (rule same_shape_upd_ref) simp
  show "fr.keeps (\<lambda>d. case dbpriv_dereference d obj of
         None \<Rightarrow> None
       | Some ob \<Rightarrow>
           (case (if h \<noteq> NoProp then Some True
                  else property_defined_at_or_below d pname (str_hash pname) ob) of
              None \<Rightarrow> None
            | Some True \<Rightarrow> Some (False, d)
            | Some False \<Rightarrow>
                let d1 = upd_ref obj ?def d;
                    pos = int (length (o_propdefs ob));
                    pv = \<lparr>pv_var = val, pv_owner = owner, pv_perms = flags\<rparr>
                in (case obj of
                      Perm oid \<Rightarrow> sbind (insert_prop_recursively oid pos pv) (\<lambda>_. sreturn True) d1
                    | Anon _ \<Rightarrow> sbind (smodify (insert_prop2 obj pos pv)) (\<lambda>_. sreturn True) d1)))"
    unfolding fr.keeps_def
    by (auto simp: Let_def fr.refl simp del: upd_ref.simps split: option.splits bool.splits oref.splits if_splits
        intro: fr.trans [OF d1] dest: fr.keepsD [OF rec(1)] fr.keepsD [OF rec(2)])
qed

lemma keeps_db_delete_propdef: "fr.keeps (db_delete_propdef obj pname)"
proof -
  have rec: "fr.keeps (sbind (remove_prop_recursively oid pos) (\<lambda>_. sreturn True))"
    "fr.keeps (sbind (smodify (remove_prop2 r pos)) (\<lambda>_. sreturn True))" for oid r pos
    by (intro fr.keeps_intros keeps_remove_prop_recursively updates_remove_prop2)+
  have d1: "same_shape d (upd_ref r (\<lambda>ob. ob\<lparr>o_propdefs := take i (o_propdefs ob) @ drop (Suc i) (o_propdefs ob)\<rparr>) d)"
    for i r d by (rule same_shape_upd_ref) simp
  show ?thesis unfolding fr.keeps_def db_delete_propdef_def
    by (auto simp: Let_def fr.refl simp del: upd_ref.simps split: option.splits oref.splits
        intro: fr.trans [OF d1] dest: fr.keepsD [OF rec(1)] fr.keepsD [OF rec(2)])
qed

lemma updates_db_set_property_value: "fr.updates (db_set_property_value h val)"
  unfolding fr.updates_def db_set_property_value_def upd_slot_def
  by (auto simp del: upd_ref.simps intro!: same_shape_upd_ref
      split: prop_handle.splits option.splits if_splits bi_prop.splits var.splits)

section \<open>The new layout after a change of parents\<close>

lemma keeps_inherit_from: "fr.keeps (inherit_from ancestor ps)"
proof (induction ps)
  case (Cons p ps)
  have "fr.keeps (sbind (properties_offset ancestor (Perm p)) (\<lambda>off.
          if off > - 1 then sreturn (p, off) else inherit_from ancestor ps))"
    using Cons by (auto intro!: fr.keeps_intros keeps_properties_offset)
  with Cons show ?case unfolding fr.keeps_def by (auto split: if_splits)
qed (simp add: fr.keeps_def)

lemma keeps_segment_for: "fr.keeps (segment_for me olds lens an)"
proof -
  have "fr.keeps (inherited_values me ancestor n)" for ancestor n
    unfolding inherited_values_def
    by (auto intro!: fr.keeps_intros keeps_inherit_from split: prod.splits)
  then show ?thesis unfolding segment_for_def
    by (auto intro!: fr.keeps_intros split: prod.splits option.splits)
qed

lemma same_shape_fold: "(\<And>x d. same_shape d (f x d)) \<Longrightarrow> same_shape d (fold f xs d)"
  by (induction xs arbitrary: d) (auto simp: fr.refl intro: fr.trans)

lemma updates_relayout: "fr.updates (relayout obj olds news)"
  unfolding fr.updates_def
proof (intro allI impI)
  fix d d' assume a: "relayout obj olds news d = Some d'"
  then obtain old_lens new_lens me segs d2 where
    segs: "smap (segment_for me olds old_lens) (zip news new_lens)
             (fold (\<lambda>a. upd_ref a (\<lambda>ob. ob\<lparr>o_waif_propdefs := None\<rparr>)) news d) = Some (segs, d2)"
    and d': "d' = upd_ref obj (\<lambda>ob. ob\<lparr>o_propval := concat segs\<rparr>) d2"
    unfolding relayout_def Let_def by (auto split: option.splits if_splits simp del: upd_ref.simps)
  have "same_shape d (fold (\<lambda>a. upd_ref a (\<lambda>ob. ob\<lparr>o_waif_propdefs := None\<rparr>)) news d)"
    by (intro same_shape_fold same_shape_upd_ref) simp
  moreover have "same_shape (fold (\<lambda>a. upd_ref a (\<lambda>ob. ob\<lparr>o_waif_propdefs := None\<rparr>)) news d) d2"
    by (rule fr.keepsD [OF fr.keeps_smap segs]) (rule keeps_segment_for)
  moreover have "same_shape d2 d'" unfolding d' by (rule same_shape_upd_ref) simp
  ultimately show "same_shape d d'" by (blast intro: fr.trans)
qed

lemma keeps_child_ancestors: "fr.keeps (child_ancestors obj olds news ps on)"
  by (induction ps arbitrary: on) (auto intro!: fr.keeps_intros keeps_db_ancestors)

lemma keeps_ancestors_for_child: "fr.keeps (ancestors_for_child obj olds news child)"
  unfolding fr.keeps_def ancestors_for_child_def
  by (auto simp: fr.refl split: option.splits parents.splits dest: fr.keepsD [OF keeps_child_ancestors])

lemma updates_fix_properties: "fr.updates (fix_properties fuel obj olds news kids)"
proof (induction fuel arbitrary: obj olds news kids)
  case (Suc fuel)
  let ?child = "\<lambda>child d2.
      case ancestors_for_child obj olds news child d2 of
        None \<Rightarrow> None
      | Some ((old, new), d3) \<Rightarrow>
          fix_properties fuel child old new
            (Some (case child of Perm c \<Rightarrow> dbpriv_append_anon_list d3 c [] | Anon _ \<Rightarrow> [])) d3"
  have "fr.updates (?child child)" for child
    unfolding fr.updates_def
  proof (intro allI impI)
    fix d2 d' assume "?child child d2 = Some d'"
    then obtain old new d3 where "ancestors_for_child obj olds news child d2 = Some ((old, new), d3)"
      and "fix_properties fuel child old new
            (Some (case child of Perm c \<Rightarrow> dbpriv_append_anon_list d3 c [] | Anon _ \<Rightarrow> [])) d3 = Some d'"
      by (auto split: option.splits)
    with Suc keeps_ancestors_for_child show "same_shape d2 d'"
      unfolding fr.updates_def fr.keeps_def by (blast intro: fr.trans)
  qed
  then have kids: "fr.updates (siter ?child cs)" for cs by (rule fr.updates_siter)
  show ?case unfolding fr.updates_def
  proof (intro allI impI)
    fix d d' assume a: "fix_properties (Suc fuel) obj olds news kids d = Some d'"
    then obtain d1 cs where "relayout obj olds news d = Some d1" "siter ?child cs d1 = Some d'"
      by (auto split: option.splits)
    with updates_relayout kids show "same_shape d d'"
      unfolding fr.updates_def by (blast intro: fr.trans)
  qed
qed (simp add: fr.updates_def)

end
