(* ===== verification/MapInsert.thy ===== *)
theory MapInsert
  imports Maps "HOL-Library.Product_Lexorder" "HOL-Library.List_Lexorder"
begin

text \<open>
  The red-black tree of \<^verbatim>\<open>map.cc\<close> and insertion into it. The invariants are stated for
  a subtree and for the path above it; \<open>key_order\<close> is what the tree relies on in
  \<^verbatim>\<open>compare\<close>. The insertion loop keeps its helper pointers in place wherever a rotation
  can be needed, ends, and leaves a red-black tree with the new entry in its place.
\<close>

section \<open>Balance and color\<close>

fun bheight :: "'v rbnode \<Rightarrow> nat" where
  "bheight RBNil = 0"
| "bheight (RBNode c k v l r) = bheight l + (if c then 0 else 1)"

fun inv_h :: "'v rbnode \<Rightarrow> bool" where
  "inv_h RBNil = True"
| "inv_h (RBNode c k v l r) \<longleftrightarrow> inv_h l \<and> inv_h r \<and> bheight l = bheight r"

fun inv_c :: "'v rbnode \<Rightarrow> bool" where
  "inv_c RBNil = True"
| "inv_c (RBNode c k v l r) \<longleftrightarrow> inv_c l \<and> inv_c r \<and> (c \<longrightarrow> \<not> is_red l \<and> \<not> is_red r)"

text \<open>The same for the path above a subtree, given the subtree's height and color.\<close>

fun ctx_h :: "'v frame list \<Rightarrow> nat \<Rightarrow> bool" where
  "ctx_h [] h = True"
| "ctx_h (Frame d c k v other # fs) h \<longleftrightarrow>
     inv_h other \<and> bheight other = h \<and> ctx_h fs (h + (if c then 0 else 1))"

fun ctx_c :: "'v frame list \<Rightarrow> bool \<Rightarrow> bool" where
  "ctx_c [] red = True"
| "ctx_c (Frame d c k v other # fs) red \<longleftrightarrow>
     inv_c other \<and> (c \<longrightarrow> \<not> red \<and> \<not> is_red other) \<and> ctx_c fs c"

fun ctx_l :: "'v frame list \<Rightarrow> ('v \<times> 'v) list" where
  "ctx_l [] = []"
| "ctx_l (Frame d c k v other # fs) = ctx_l fs @ (if d then rb_items other @ [(k, v)] else [])"

fun ctx_r :: "'v frame list \<Rightarrow> ('v \<times> 'v) list" where
  "ctx_r [] = []"
| "ctx_r (Frame d c k v other # fs) = (if d then [] else (k, v) # rb_items other) @ ctx_r fs"

lemma items_plug: "rb_items (plug ctx t) = ctx_l ctx @ rb_items t @ ctx_r ctx"
proof (induction ctx arbitrary: t)
  case (Cons f ctx)
  then show ?case by (cases f) auto
qed simp

lemma inv_h_plug: "inv_h t \<Longrightarrow> ctx_h ctx (bheight t) \<Longrightarrow> inv_h (plug ctx t)"
proof (induction ctx arbitrary: t)
  case (Cons f ctx)
  then show ?case by (cases f) auto
qed simp

lemma inv_c_plug: "inv_c t \<Longrightarrow> ctx_c ctx (is_red t) \<Longrightarrow> inv_c (plug ctx t)"
proof (induction ctx arbitrary: t)
  case (Cons f ctx)
  then show ?case by (cases f) (auto intro!: Cons.IH)
qed simp

lemma ctx_c_black: "ctx_c ctx red \<Longrightarrow> ctx_c ctx False"
  by (cases ctx; cases "hd ctx") auto

lemma paint_simps [simp]:
  "rb_items (paint c t) = rb_items t" "inv_h (paint c t) = inv_h t" "size (paint c t) = size t"
  by (cases t; simp)+

lemma inv_c_paint: "inv_c t \<Longrightarrow> inv_c (paint False t)"
  by (cases t) auto

lemma is_red_paint [simp]: "is_red (paint c t) \<longleftrightarrow> c \<and> t \<noteq> RBNil"
  by (cases t) auto

lemma bheight_paint_black: "is_red t \<Longrightarrow> bheight (paint False t) = Suc (bheight t)"
  by (cases t) auto

text \<open>A red-black tree: balanced, no red node below a red one, a black root.\<close>

definition rb_tree :: "'v rbnode \<Rightarrow> bool" where
  "rb_tree t \<longleftrightarrow> inv_h t \<and> inv_c t \<and> \<not> is_red t"

lemma rb_tree_paint: "inv_h t \<Longrightarrow> inv_c t \<Longrightarrow> rb_tree (paint False t)"
  by (simp add: rb_tree_def inv_c_paint)

section \<open>Rotations while inserting\<close>

text \<open>
  What \<^const>\<open>rotate_up\<close> does to a subtree that may be red below a red node, when its
  helpers are in place: nothing, one rotation or two.
\<close>

lemma rotate_none:
  "\<not> (is_red q \<and> ctx \<noteq> [] \<and> f_red (hd ctx)) \<Longrightarrow>
   rotate_up ctx q dir last_dir g_at t_at = Some (ctx, q, True, g_at)"
  by (cases ctx) (auto simp: rotate_up_def)

lemma rotate_single:
  assumes "is_red q" "ctx = fp # fg # rest" "f_red fp" "f_dir fp = d" "f_dir fg = d"
    and "\<not> is_red (f_other fg)" "inv_h q" "inv_c q" "ctx_h ctx (bheight q)" "ctx_c ctx False"
  shows "\<exists>f. rotate_up ctx q d d True True = Some (f # rest, q, True, False) \<and>
    f_dir f = d \<and> ctx_h (f # rest) (bheight q) \<and> ctx_c (f # rest) True \<and>
    ctx_l (f # rest) = ctx_l ctx \<and> ctx_r (f # rest) = ctx_r ctx"
  using assms by (cases fp; cases fg; cases d) (auto simp: rotate_up_def dest: ctx_c_black)

lemma rotate_double:
  assumes "q = RBNode True k v l r" "ctx = fp # fg # rest" "f_red fp" "f_dir fp = (\<not> d)" "f_dir fg = d"
    and "\<not> is_red (f_other fg)" "inv_h q" "inv_c q" "ctx_h ctx (bheight q)" "ctx_c ctx False"
  shows "\<exists>kl vl x kr vr y.
    rotate_up ctx q (\<not> d) d True True =
      Some (rest, RBNode False k v (RBNode True kl vl x l) (RBNode True kr vr r y), False, False) \<and>
    ctx_l ctx = ctx_l rest @ rb_items x @ [(kl, vl)] \<and> ctx_r ctx = (kr, vr) # rb_items y @ ctx_r rest \<and>
    inv_h x \<and> inv_h y \<and> inv_c x \<and> inv_c y \<and> \<not> is_red x \<and> \<not> is_red y \<and>
    bheight x = bheight l \<and> bheight y = bheight l \<and>
    ctx_h rest (Suc (bheight l)) \<and> ctx_c rest False"
  using assms by (cases fp; cases fg; cases d) (auto simp: rotate_up_def dest: ctx_c_black)


section \<open>Keys with an order\<close>

text \<open>
  What the tree relies on: on the keys in use, \<^verbatim>\<open>compare\<close> without case never panics
  and agrees with a linear order of ranks, and keys that are the same with case have the
  same rank.
\<close>

locale key_order =
  fixes K :: "var set" and rank :: "var \<Rightarrow> 'o :: linorder"
  assumes compare_rank: "a \<in> K \<Longrightarrow> b \<in> K \<Longrightarrow>
    \<exists>n. compare a b False = Some n \<and> (n < 0 \<longleftrightarrow> rank a < rank b) \<and> (n = 0 \<longleftrightarrow> rank a = rank b)"
    and compare_exact: "a \<in> K \<Longrightarrow> b \<in> K \<Longrightarrow>
    \<exists>n. compare a b True = Some n \<and> (n = 0 \<longrightarrow> rank a = rank b)"
begin

definition keys_ok :: "(var \<times> var) list \<Rightarrow> bool" where
  "keys_ok xs \<longleftrightarrow> fst ` set xs \<subseteq> K \<and> sorted_wrt (\<lambda>a b. rank (fst a) < rank (fst b)) xs"

abbreviation before :: "var \<Rightarrow> (var \<times> var) list \<Rightarrow> bool" where
  "before key xs \<equiv> (\<forall>p \<in> set xs. rank (fst p) < rank key)"

abbreviation after :: "var \<Rightarrow> (var \<times> var) list \<Rightarrow> bool" where
  "after key xs \<equiv> (\<forall>p \<in> set xs. rank key < rank (fst p))"

lemma node_compare_cases:
  assumes "k \<in> K" "key \<in> K"
  obtains n where "node_compare k key False = Some n"
    and "n < 0 \<longleftrightarrow> rank k < rank key" and "n = 0 \<longleftrightarrow> rank k = rank key"
  using compare_rank [OF assms] unfolding node_compare_def by blast

text \<open>
  The state of the insertion loop. The key belongs between the two sides of the path and
  is not below \<open>q\<close> yet; the tree is a red-black tree; and where a rotation could be
  needed, the helper pointers are in place and the uncle is black.
\<close>

definition flippable :: "var rbnode \<Rightarrow> bool" where
  "flippable q \<longleftrightarrow> (case q of RBNil \<Rightarrow> True | RBNode c k v l r \<Rightarrow> is_red l \<and> is_red r)"

definition toward :: "var \<Rightarrow> var rbnode \<Rightarrow> var rbnode" where
  "toward key q = (case q of RBNil \<Rightarrow> RBNil | RBNode c k v l r \<Rightarrow> if rank k < rank key then r else l)"

definition helpers_ok :: "var frame list \<Rightarrow> bool \<Rightarrow> bool \<Rightarrow> bool \<Rightarrow> bool" where
  "helpers_ok ctx last_dir g_at t_at \<longleftrightarrow> g_at \<and> t_at \<and>
     (\<exists>fp fg rest. ctx = fp # fg # rest \<and> \<not> is_red (f_other fg) \<and> f_dir fg = last_dir)"

definition ins_inv :: "var \<Rightarrow> var frame list \<Rightarrow> var rbnode \<Rightarrow> bool \<Rightarrow> bool \<Rightarrow> bool \<Rightarrow> bool \<Rightarrow> bool" where
  "ins_inv key ctx q dir last_dir g_at t_at \<longleftrightarrow>
     keys_ok (rb_items (plug ctx q)) \<and> before key (ctx_l ctx) \<and> after key (ctx_r ctx) \<and>
     (\<forall>p \<in> set (rb_items q). rank (fst p) \<noteq> rank key) \<and>
     inv_h q \<and> inv_c q \<and> ctx_h ctx (bheight q) \<and> ctx_c ctx (is_red q) \<and>
     (ctx = [] \<longrightarrow> \<not> is_red q \<and> q \<noteq> RBNil) \<and>
     (ctx \<noteq> [] \<longrightarrow> f_dir (hd ctx) = dir) \<and>
     (ctx \<noteq> [] \<longrightarrow> f_red (hd ctx) \<longrightarrow> flippable q \<longrightarrow> helpers_ok ctx last_dir g_at t_at) \<and>
     (ctx \<noteq> [] \<longrightarrow> g_at \<longrightarrow> is_red q \<longrightarrow> \<not> is_red (f_other (hd ctx))) \<and>
     (\<not> g_at \<longrightarrow> is_red q \<and> \<not> flippable (toward key q))"

lemma ins_invD:
  assumes "ins_inv key ctx q dir last_dir g_at t_at"
  shows "keys_ok (rb_items (plug ctx q))" "before key (ctx_l ctx)" "after key (ctx_r ctx)"
    "\<forall>p \<in> set (rb_items q). rank (fst p) \<noteq> rank key"
    "inv_h q" "inv_c q" "ctx_h ctx (bheight q)" "ctx_c ctx (is_red q)"
    "ctx = [] \<Longrightarrow> \<not> is_red q \<and> q \<noteq> RBNil" "ctx \<noteq> [] \<Longrightarrow> f_dir (hd ctx) = dir"
    "ctx \<noteq> [] \<Longrightarrow> f_red (hd ctx) \<Longrightarrow> flippable q \<Longrightarrow> helpers_ok ctx last_dir g_at t_at"
    "ctx \<noteq> [] \<Longrightarrow> g_at \<Longrightarrow> is_red q \<Longrightarrow> \<not> is_red (f_other (hd ctx))"
    "\<not> g_at \<Longrightarrow> is_red q \<and> \<not> flippable (toward key q)"
  using assms unfolding ins_inv_def by blast+

lemma ins_inv_descend:
  assumes "keys_ok (rb_items (plug ctx (RBNode c k v l r)))" "before key (ctx_l ctx)" "after key (ctx_r ctx)"
    and ne: "\<forall>p \<in> set (rb_items (RBNode c k v l r)). rank (fst p) \<noteq> rank key"
    and inv: "inv_h (RBNode c k v l r)" "inv_c (RBNode c k v l r)"
    and ctx: "ctx_h ctx (bheight (RBNode c k v l r))" "ctx_c ctx c"
    and d: "d = (rank k < rank key)"
    and helpers: "c \<Longrightarrow> flippable (if d then r else l) \<Longrightarrow>
        helpers_ok (Frame d c k v (if d then l else r) # ctx) last_dir g_at t_at"
    and uncle: "g_at \<Longrightarrow> is_red (if d then r else l) \<Longrightarrow> \<not> is_red (if d then l else r)"
    and stale: "\<not> g_at \<Longrightarrow> is_red (if d then r else l) \<and> \<not> flippable (toward key (if d then r else l))"
  shows "ins_inv key (Frame d c k v (if d then l else r) # ctx) (if d then r else l) d last_dir g_at t_at"
proof -
  have s: "keys_ok (ctx_l ctx @ (rb_items l @ (k, v) # rb_items r) @ ctx_r ctx)"
    using assms(1) by (simp add: items_plug)
  have "before key (rb_items l)" if "d"
    using s that d by (force simp: keys_ok_def sorted_wrt_append)
  moreover have "after key (rb_items r)" "rank key < rank k" if "\<not> d"
    using s that d ne by (force simp: keys_ok_def sorted_wrt_append)+
  ultimately show ?thesis
    using assms(1-4) inv ctx d helpers uncle stale
    unfolding ins_inv_def by (auto simp: items_plug)
qed

lemma size_toward: "size (toward key (RBNode c k v l r)) < size (RBNode c k v l r)"
  by (simp add: toward_def)

definition ins_measure :: "var \<Rightarrow> var rbnode \<Rightarrow> bool \<Rightarrow> nat" where
  "ins_measure key q g_at = (if g_at then 2 * size q else 2 * size (toward key q) + 1)"

lemma loop_done:
  assumes "rotate_up ctx (prepare key val q) dir last_dir g_at t_at = Some (ctx1, RBNode c key v l r, g1, t1)"
    and "key \<in> K"
  shows "rbinsert_loop key val ctx q dir last_dir g_at t_at = Some (plug ctx1 (RBNode c key v l r))"
proof -
  obtain n where "node_compare key key False = Some n" "n = 0"
    using node_compare_cases [OF assms(2) assms(2)] by metis
  with assms(1) show ?thesis by (subst rbinsert_loop.simps) simp
qed

lemma loop_next:
  assumes "rotate_up ctx (prepare key val q) dir last_dir g_at t_at = Some (ctx1, RBNode c k v l r, g1, t1)"
    and "key \<in> K" "k \<in> K" "rank k \<noteq> rank key" and d: "d = (rank k < rank key)"
  shows "rbinsert_loop key val ctx q dir last_dir g_at t_at =
    rbinsert_loop key val (Frame d c k v (if d then l else r) # ctx1) (if d then r else l) d dir g1 t1"
proof -
  obtain n where "node_compare k key False = Some n" "n < 0 \<longleftrightarrow> rank k < rank key" "n \<noteq> 0"
    using node_compare_cases [OF assms(3) assms(2)] assms(4) by metis
  with assms(1) d show ?thesis by (subst rbinsert_loop.simps) (simp add: Let_def)
qed

definition inserted :: "var \<Rightarrow> var \<Rightarrow> (var \<times> var) list \<Rightarrow> var rbnode \<Rightarrow> bool" where
  "inserted key val xs T \<longleftrightarrow> inv_h T \<and> inv_c T \<and>
     (\<exists>L R. xs = L @ R \<and> rb_items T = L @ (key, val) # R \<and> before key L \<and> after key R)"

lemma inserted_plug:
  assumes "inv_h t" "inv_c t" "ctx_h ctx (bheight t)" "ctx_c ctx (is_red t)"
    and "ctx_l ctx @ rb_items t @ ctx_r ctx = L @ (key, val) # R" "before key L" "after key R"
  shows "inserted key val (L @ R) (plug ctx t)"
  using assms by (auto simp: inserted_def items_plug intro!: inv_h_plug inv_c_plug)

text \<open>A free place: the new node goes there, with at most one rotation.\<close>

lemma insert_at_nil:
  assumes inv: "ins_inv key ctx RBNil dir last_dir g_at t_at" and key: "key \<in> K"
  shows "\<exists>T. rbinsert_loop key val ctx RBNil dir last_dir g_at t_at = Some T \<and>
    inserted key val (rb_items (plug ctx RBNil)) T"
proof (cases "f_red (hd ctx)")
  case False
  then have "rotate_up ctx (prepare key val RBNil) dir last_dir g_at t_at =
      Some (ctx, RBNode True key val RBNil RBNil, True, g_at)"
    by (simp add: rotate_none new_node_def)
  from loop_done [OF this key] show ?thesis
    using inserted_plug [of "RBNode True key val RBNil RBNil" ctx "ctx_l ctx" key val "ctx_r ctx"] inv False
    by (cases ctx; cases "hd ctx") (auto simp: ins_inv_def items_plug)
next
  case True
  with inv have "helpers_ok ctx last_dir g_at t_at" and ne: "ctx \<noteq> []"
    by (auto simp: ins_inv_def flippable_def)
  then obtain fp fg rest where ctx: "ctx = fp # fg # rest" and u: "\<not> is_red (f_other fg)"
    and l: "f_dir fg = last_dir" and h: "g_at" "t_at"
    by (auto simp: helpers_ok_def)
  have fp: "f_red fp" "f_dir fp = dir" and pos: "before key (ctx_l ctx)" "after key (ctx_r ctx)"
    and hc: "ctx_h ctx 0" "ctx_c ctx False"
    using inv True ctx by (auto simp: ins_inv_def)
  show ?thesis
  proof (cases "dir = last_dir")
    case True
    obtain f where rot: "rotate_up ctx (prepare key val RBNil) dir last_dir g_at t_at =
        Some (f # rest, RBNode True key val RBNil RBNil, True, False)"
      and f: "ctx_h (f # rest) 0" "ctx_c (f # rest) True" "ctx_l (f # rest) = ctx_l ctx" "ctx_r (f # rest) = ctx_r ctx"
      using rotate_single [of "new_node key val" ctx fp fg rest dir] ctx fp u l h hc True
      by (auto simp: new_node_def)
    show ?thesis
      using loop_done [OF rot key] f pos
        inserted_plug [of "RBNode True key val RBNil RBNil" "f # rest" "ctx_l ctx" key val "ctx_r ctx"]
      by (auto simp: items_plug simp del: plug.simps)
  next
    case False
    obtain kl vl x kr vr y where rot: "rotate_up ctx (prepare key val RBNil) dir last_dir g_at t_at =
        Some (rest, RBNode False key val (RBNode True kl vl x RBNil) (RBNode True kr vr RBNil y), False, False)"
      and it: "ctx_l ctx = ctx_l rest @ rb_items x @ [(kl, vl)]" "ctx_r ctx = (kr, vr) # rb_items y @ ctx_r rest"
      and xy: "inv_h x" "inv_h y" "inv_c x" "inv_c y" "\<not> is_red x" "\<not> is_red y" "bheight x = 0" "bheight y = 0"
      and rest: "ctx_h rest 1" "ctx_c rest False"
      using rotate_double [of "new_node key val" key val RBNil RBNil ctx fp fg rest last_dir] ctx fp u l h hc False
      by (auto simp: new_node_def)
    show ?thesis
      using loop_done [OF rot key] it xy rest pos
        inserted_plug [of "RBNode False key val (RBNode True kl vl x RBNil) (RBNode True kr vr RBNil y)"
          rest "ctx_l ctx" key val "ctx_r ctx"]
      by (auto simp: items_plug simp del: plug.simps)
  qed
qed

text \<open>The state after a color flip or at a node that is not flipped.\<close>

lemma flipped:
  assumes "ins_inv key ctx (RBNode c k v l r) dir last_dir g_at t_at" "is_red l" "is_red r"
  shows "\<not> c" "inv_h (paint False l)" "inv_c (paint False l)" "inv_h (paint False r)" "inv_c (paint False r)"
    "bheight (paint False l) = Suc (bheight l)" "bheight (paint False r) = Suc (bheight l)"
    "\<not> flippable (paint False l)" "\<not> flippable (paint False r)"
  using assms by (cases l; cases r; auto simp: ins_inv_def flippable_def)+

text \<open>One turn of the loop at a node: the search goes on one level down.\<close>

definition steps_to :: "var \<Rightarrow> var \<Rightarrow> var frame list \<Rightarrow> var rbnode \<Rightarrow> bool \<Rightarrow> bool \<Rightarrow> bool \<Rightarrow> bool \<Rightarrow> bool" where
  "steps_to key val ctx q dir last_dir g_at t_at \<longleftrightarrow>
     (\<exists>ctx' q' dir' last' g' t'.
        rbinsert_loop key val ctx q dir last_dir g_at t_at = rbinsert_loop key val ctx' q' dir' last' g' t' \<and>
        ins_inv key ctx' q' dir' last' g' t' \<and>
        rb_items (plug ctx' q') = rb_items (plug ctx q) \<and>
        ins_measure key q' g' < ins_measure key q g_at)"

lemma steps_toI:
  assumes rot: "rotate_up ctx (prepare key val q) dir last_dir g_at t_at = Some (ctx1, RBNode c k v l r, g1, t1)"
    and key: "key \<in> K"
    and same: "rb_items (plug ctx1 (RBNode c k v l r)) = rb_items (plug ctx q)"
    and inv: "ins_inv key ctx q dir last_dir g_at t_at" and new: "rank k \<noteq> rank key" and d: "d = (rank k < rank key)"
    and next_inv: "ins_inv key (Frame d c k v (if d then l else r) # ctx1) (if d then r else l) d dir g1 t1"
    and less: "ins_measure key (if d then r else l) g1 < ins_measure key q g_at"
  shows "steps_to key val ctx q dir last_dir g_at t_at"
proof -
  have "(k, v) \<in> set (rb_items (plug ctx q))"
    unfolding same [symmetric] by (simp add: items_plug)
  moreover have "fst ` set (rb_items (plug ctx q)) \<subseteq> K"
    using inv unfolding ins_inv_def keys_ok_def by blast
  ultimately have "k \<in> K" by (metis fst_conv image_eqI subsetD)
  note next_loop = loop_next [OF rot key this new d]
  have "plug (Frame d c k v (if d then l else r) # ctx1) (if d then r else l) = plug ctx1 (RBNode c k v l r)"
    by simp
  then show ?thesis
    unfolding steps_to_def
    by (intro exI conjI) (rule next_loop, rule next_inv, simp only: same, rule less)
qed

lemma step_plain:
  assumes inv: "ins_inv key ctx (RBNode c k v l r) dir last_dir g_at t_at" and key: "key \<in> K"
    and plain: "\<not> (is_red l \<and> is_red r)"
  shows "steps_to key val ctx (RBNode c k v l r) dir last_dir g_at t_at"
proof -
  define d where "d = (rank k < rank key)"
  note I = ins_invD [OF inv]
  have new: "rank k \<noteq> rank key" using I(4) by simp
  have rot: "rotate_up ctx (prepare key val (RBNode c k v l r)) dir last_dir g_at t_at =
      Some (ctx, RBNode c k v l r, True, g_at)"
  proof -
    have "prepare key val (RBNode c k v l r) = RBNode c k v l r" using plain by auto
    moreover have "\<not> (is_red (RBNode c k v l r) \<and> ctx \<noteq> [] \<and> f_red (hd ctx))"
      using I(8) by (cases ctx; cases "hd ctx") auto
    ultimately show ?thesis by (simp add: rotate_none)
  qed
  have "ins_inv key (Frame d c k v (if d then l else r) # ctx) (if d then r else l) d dir True g_at"
  proof (rule ins_inv_descend [OF _ _ _ _ _ _ _ _ d_def])
    assume c and fl: "flippable (if d then r else l)"
    have g_at: "g_at"
    proof (rule ccontr)
      assume "\<not> g_at"
      with I(13) have "\<not> flippable (if d then r else l)" by (simp add: toward_def d_def)
      with fl show False by blast
    qed
    have "ctx \<noteq> []" using I(9) \<open>c\<close> by auto
    with g_at I(10,12) \<open>c\<close> show "helpers_ok (Frame d c k v (if d then l else r) # ctx) dir True g_at"
      by (cases ctx) (auto simp: helpers_ok_def)
  qed (use I(1-8) plain in \<open>auto split: if_splits\<close>)
  moreover have "ins_measure key (if d then r else l) True < ins_measure key (RBNode c k v l r) g_at"
    by (simp add: ins_measure_def toward_def d_def)
  ultimately show ?thesis
    by (intro steps_toI [OF rot key _ inv new d_def]) auto
qed

lemma step_flip:
  assumes inv: "ins_inv key ctx (RBNode c k v l r) dir last_dir g_at t_at" and key: "key \<in> K"
    and red: "is_red l" "is_red r"
    and rot: "rotate_up ctx (prepare key val (RBNode c k v l r)) dir last_dir g_at t_at =
      Some (ctx1, RBNode True k v (paint False l) (paint False r), True, t1)"
    and ctx1: "ctx_l ctx1 = ctx_l ctx" "ctx_r ctx1 = ctx_r ctx" "ctx_h ctx1 (Suc (bheight l))" "ctx_c ctx1 True"
    and g_at: "g_at"
  shows "steps_to key val ctx (RBNode c k v l r) dir last_dir g_at t_at"
proof -
  define d where "d = (rank k < rank key)"
  note I = ins_invD [OF inv]
  have new: "rank k \<noteq> rank key" using I(4) by simp
  note fl = flipped [OF inv red]
  have "ins_inv key (Frame d True k v (if d then paint False l else paint False r) # ctx1)
      (if d then paint False r else paint False l) d dir True t1"
    by (rule ins_inv_descend [OF _ _ _ _ _ _ _ _ d_def])
      (use I(1-4) ctx1 fl in \<open>auto simp: items_plug split: if_splits\<close>)
  moreover have "ins_measure key (if d then paint False r else paint False l) True
      < ins_measure key (RBNode c k v l r) g_at"
    using g_at by (simp add: ins_measure_def)
  ultimately show ?thesis
    by (intro steps_toI [OF rot key _ inv new d_def]) (auto simp: items_plug ctx1)
qed

lemma step_double:
  assumes inv: "ins_inv key ctx (RBNode c k v l r) dir last_dir g_at t_at" and key: "key \<in> K"
    and red: "is_red l" "is_red r"
    and rot: "rotate_up ctx (prepare key val (RBNode c k v l r)) dir last_dir g_at t_at =
      Some (rest, RBNode False k v (RBNode True kl vl x (paint False l)) (RBNode True kr vr (paint False r) y),
            False, False)"
    and it: "ctx_l ctx = ctx_l rest @ rb_items x @ [(kl, vl)]" "ctx_r ctx = (kr, vr) # rb_items y @ ctx_r rest"
    and xy: "inv_h x" "inv_h y" "inv_c x" "inv_c y" "\<not> is_red x" "\<not> is_red y"
      "bheight x = Suc (bheight l)" "bheight y = Suc (bheight l)"
    and rest: "ctx_h rest (Suc (Suc (bheight l)))" "ctx_c rest False"
    and g_at: "g_at"
  shows "steps_to key val ctx (RBNode c k v l r) dir last_dir g_at t_at"
proof -
  define d where "d = (rank k < rank key)"
  note I = ins_invD [OF inv]
  have new: "rank k \<noteq> rank key" using I(4) by simp
  note fl = flipped [OF inv red]
  let ?P = "RBNode True kl vl x (paint False l)" and ?G = "RBNode True kr vr (paint False r) y"
  have rk: "rank kl < rank key" "rank key < rank kr" using I(2,3) it by auto
  then have tw: "toward key ?P = paint False l" "toward key ?G = paint False r"
    by (auto simp: toward_def)
  have "ins_inv key (Frame d False k v (if d then ?P else ?G) # rest) (if d then ?G else ?P) d dir False False"
  proof (rule ins_inv_descend [OF _ _ _ _ _ _ _ _ d_def])
    show "\<forall>p \<in> set (rb_items (RBNode False k v ?P ?G)). rank (fst p) \<noteq> rank key"
    proof
      fix p
      assume "p \<in> set (rb_items (RBNode False k v ?P ?G))"
      then consider "p \<in> set (ctx_l ctx)" | "p \<in> set (ctx_r ctx)" | "p \<in> set (rb_items (RBNode c k v l r))"
        by (auto simp: it)
      then show "rank (fst p) \<noteq> rank key" using I(2-4) by cases auto
    qed
  qed (use I(1-3) it xy rest fl tw in \<open>auto simp: items_plug split: if_splits\<close>)
  moreover have "ins_measure key (if d then ?G else ?P) False < ins_measure key (RBNode c k v l r) g_at"
    using g_at tw by (simp add: ins_measure_def)
  ultimately show ?thesis
    by (intro steps_toI [OF rot key _ inv new d_def]) (auto simp: items_plug it)
qed

lemma step_red:
  assumes inv: "ins_inv key ctx (RBNode c k v l r) dir last_dir g_at t_at" and key: "key \<in> K"
    and red: "is_red l" "is_red r"
  shows "steps_to key val ctx (RBNode c k v l r) dir last_dir g_at t_at"
proof -
  note I = ins_invD [OF inv] and fl = flipped [OF inv red]
  let ?q = "RBNode True k v (paint False l) (paint False r)"
  have prep: "prepare key val (RBNode c k v l r) = ?q" using red by simp
  have g_at: g_at using I(13) fl(1) by auto
  have q: "inv_h ?q" "inv_c ?q" "bheight ?q = Suc (bheight l)" using fl by auto
  have hc: "ctx_h ctx (Suc (bheight l))" "ctx_c ctx False" using I(7,8) fl(1) by auto
  show ?thesis
  proof (cases "ctx \<noteq> [] \<and> f_red (hd ctx)")
    case False
    have "rotate_up ctx (prepare key val (RBNode c k v l r)) dir last_dir g_at t_at = Some (ctx, ?q, True, g_at)"
      unfolding prep using False by (intro rotate_none) auto
    then show ?thesis
    proof (rule step_flip [OF inv key red _ _ _ _ _ g_at])
      show "ctx_c ctx True" using hc(2) False by (cases ctx; cases "hd ctx") auto
    qed (use hc in auto)
  next
    case True
    with I(11) red have "helpers_ok ctx last_dir g_at t_at" by (simp add: flippable_def)
    then obtain fp fg rest where ctx: "ctx = fp # fg # rest" and u: "\<not> is_red (f_other fg)"
      and l: "f_dir fg = last_dir" and t: "t_at"
      by (auto simp: helpers_ok_def)
    have fp: "f_red fp" "f_dir fp = dir" using I(10) True ctx by auto
    show ?thesis
    proof (cases "dir = last_dir")
      case True
      obtain f where rot: "rotate_up ctx ?q dir last_dir g_at t_at = Some (f # rest, ?q, True, False)"
        and f: "ctx_h (f # rest) (Suc (bheight l))" "ctx_c (f # rest) True"
          "ctx_l (f # rest) = ctx_l ctx" "ctx_r (f # rest) = ctx_r ctx"
        using rotate_single [of ?q ctx fp fg rest dir] ctx fp u l t g_at hc True q by auto
      show ?thesis
        by (rule step_flip [OF inv key red _ f(3,4,1,2) g_at]) (simp only: prep rot)
    next
      case False
      obtain kl vl x kr vr y where rot: "rotate_up ctx ?q dir last_dir g_at t_at =
          Some (rest, RBNode False k v (RBNode True kl vl x (paint False l)) (RBNode True kr vr (paint False r) y),
                False, False)"
        and it: "ctx_l ctx = ctx_l rest @ rb_items x @ [(kl, vl)]" "ctx_r ctx = (kr, vr) # rb_items y @ ctx_r rest"
        and xy: "inv_h x" "inv_h y" "inv_c x" "inv_c y" "\<not> is_red x" "\<not> is_red y"
          "bheight x = Suc (bheight l)" "bheight y = Suc (bheight l)"
        and rest: "ctx_h rest (Suc (Suc (bheight l)))" "ctx_c rest False"
        using rotate_double [of ?q k v "paint False l" "paint False r" ctx fp fg rest last_dir]
          ctx fp u l t g_at hc False q fl(6) by auto
      show ?thesis
        by (rule step_double [OF inv key red _ it xy rest g_at]) (simp only: prep rot)
    qed
  qed
qed

lemma insert_loop:
  "ins_inv key ctx q dir last_dir g_at t_at \<Longrightarrow> key \<in> K \<Longrightarrow>
   \<exists>T. rbinsert_loop key val ctx q dir last_dir g_at t_at = Some T \<and>
       inserted key val (rb_items (plug ctx q)) T"
proof (induction "ins_measure key q g_at" arbitrary: ctx q dir last_dir g_at t_at rule: less_induct)
  case less
  show ?case
  proof (cases q)
    case RBNil
    with less.prems insert_at_nil show ?thesis by blast
  next
    case (RBNode c k v l r)
    have "steps_to key val ctx q dir last_dir g_at t_at"
      using less.prems step_plain [of key ctx c k v l r] step_red [of key ctx c k v l r] unfolding RBNode
      by (cases "is_red l \<and> is_red r") auto
    then obtain ctx' q' dir' last' g' t' where
      eq: "rbinsert_loop key val ctx q dir last_dir g_at t_at = rbinsert_loop key val ctx' q' dir' last' g' t'"
      and inv': "ins_inv key ctx' q' dir' last' g' t'" and same: "rb_items (plug ctx' q') = rb_items (plug ctx q)"
      and m: "ins_measure key q' g' < ins_measure key q g_at"
      unfolding steps_to_def by blast
    from less.hyps [OF m inv' less.prems(2)] show ?thesis unfolding eq same .
  qed
qed

section \<open>Insertion into a whole tree\<close>

definition map_ok :: "var rbtree \<Rightarrow> bool" where
  "map_ok t \<longleftrightarrow> rb_tree (rbroot t) \<and> keys_ok (map_items t) \<and> rbsize t = length (map_items t)"

lemma keys_ok_insert:
  assumes "keys_ok (L @ R)" "key \<in> K" "before key L" "after key R"
  shows "keys_ok (L @ (key, val) # R)"
  using assms by (auto simp: keys_ok_def sorted_wrt_append)

lemma rbinsert_ok:
  assumes t: "map_ok t" and key: "key \<in> K" and new: "\<forall>p \<in> set (map_items t). rank (fst p) \<noteq> rank key"
  shows "\<exists>t' L R. rbinsert t key val = Some t' \<and> map_ok t' \<and> map_items t = L @ R \<and>
    map_items t' = L @ (key, val) # R \<and> before key L \<and> after key R"
proof (cases "rbroot t")
  case RBNil
  then show ?thesis using t key
    by (auto simp: rbinsert_def map_ok_def map_items_def rb_tree_def new_node_def keys_ok_def)
next
  case (RBNode c k v l r)
  have "ins_inv key [] (rbroot t) False False True True"
    using t new RBNode by (auto simp: ins_inv_def map_ok_def map_items_def rb_tree_def)
  from insert_loop [OF this key] obtain T where
    loop: "rbinsert_loop key val [] (rbroot t) False False True True = Some T"
    and ins: "inserted key val (rb_items (rbroot t)) T" by auto
  from ins obtain L R where LR: "map_items t = L @ R" "rb_items T = L @ (key, val) # R"
    "before key L" "after key R" and T: "inv_h T" "inv_c T"
    by (auto simp: inserted_def map_items_def)
  have "rbinsert t key val = Some (RBTree (paint False T) (Suc (rbsize t)))"
    using loop RBNode by (simp add: rbinsert_def)
  moreover have "map_ok (RBTree (paint False T) (Suc (rbsize t)))"
    using t LR T keys_ok_insert [of L R key val] key by (simp add: map_ok_def map_items_def rb_tree_paint)
  ultimately show ?thesis using LR by (auto simp: map_items_def)
qed

end

end
