(* ===== verification/MapErase.thy ===== *)
theory MapErase
  imports MapInsert
begin

text \<open>
  Removal from the red-black tree of \<^verbatim>\<open>map.cc\<close>, and the map operations. The removal
  loop keeps a red node at hand as it goes down, so that the node it unlinks at the end is
  red or the root; the entries that are left are those with another key.
\<close>

context key_order
begin

section \<open>Removal\<close>

definition mark_ok :: "var \<Rightarrow> bool \<times> var frame \<Rightarrow> bool" where
  "mark_ok key e \<longleftrightarrow>
     (case e of (m, Frame d c k v other) \<Rightarrow>
        if d then rank k < rank key \<and> before key (rb_items other) \<and> \<not> m
        else rank key \<le> rank k \<and> after key (rb_items other) \<and> (m \<longleftrightarrow> rank k = rank key))"

text \<open>
  The state of the removal loop: the node about to be entered or the one above it is red,
  except at the root.
\<close>

definition red_near :: "var frame list \<Rightarrow> bool \<Rightarrow> bool" where
  "red_near fs red \<longleftrightarrow>
     (case fs of [] \<Rightarrow> True | f # upper \<Rightarrow> f_red f \<or> red \<or> upper = [] \<and> \<not> is_red (f_other f))"

definition del_inv :: "var \<Rightarrow> var eframe list \<Rightarrow> var rbnode \<Rightarrow> bool" where
  "del_inv key ctx q \<longleftrightarrow>
     keys_ok (rb_items (eplug ctx q)) \<and> list_all (mark_ok key) ctx \<and> inv_h q \<and> inv_c q \<and>
     ctx_h (map snd ctx) (bheight q) \<and> ctx_c (map snd ctx) (is_red q) \<and>
     red_near (map snd ctx) (is_red q)"

lemma items_eplug: "rb_items (eplug ctx t) = ctx_l (map snd ctx) @ rb_items t @ ctx_r (map snd ctx)"
  by (simp add: eplug_def items_plug)

text \<open>A frame's key is left or right of the subtree below it.\<close>

lemma frame_key_in:
  "(m, Frame d c k v other) \<in> set ctx \<Longrightarrow>
   (k, v) \<in> set (if d then ctx_l (map snd ctx) else ctx_r (map snd ctx))"
proof (induction ctx)
  case (Cons e ctx)
  then show ?case by (cases e; cases "snd e") auto
qed simp

lemma sorted_middle:
  assumes "keys_ok (X @ Y @ Z)" "p \<in> set Y"
  shows "\<forall>q \<in> set X. rank (fst q) < rank (fst p)" "\<forall>q \<in> set Z. rank (fst p) < rank (fst q)"
  using assms by (auto simp: keys_ok_def sorted_wrt_append)

lemma unmark_id:
  assumes "del_inv key ctx (RBNode c k v l r)" "rank k = rank key"
  shows "unmark ctx = ctx"
proof -
  have s: "keys_ok (ctx_l (map snd ctx) @ rb_items (RBNode c k v l r) @ ctx_r (map snd ctx))"
    and m: "list_all (mark_ok key) ctx"
    using assms(1) by (auto simp: del_inv_def items_eplug)
  have "\<not> fst e" if "e \<in> set ctx" for e
  proof
    assume "fst e"
    moreover obtain mk d c2 k2 v2 other where e: "e = (mk, Frame d c2 k2 v2 other)"
      by (cases e; cases "snd e") auto
    ultimately have "\<not> d" "rank k2 = rank key"
      using m that by (auto simp: list_all_iff mark_ok_def split: if_splits)
    with frame_key_in [of mk d c2 k2 v2 other ctx] that e
    have "(k2, v2) \<in> set (ctx_r (map snd ctx))" by simp
    with sorted_middle(2) [OF s, of "(k, v)"] have "rank k < rank k2" by force
    with \<open>rank k2 = rank key\<close> assms(2) show False by simp
  qed
  then show ?thesis unfolding unmark_def by (intro map_idI) (simp add: prod_eq_iff)
qed

lemma del_invD:
  assumes "del_inv key ctx q"
  shows "keys_ok (ctx_l (map snd ctx) @ rb_items q @ ctx_r (map snd ctx))" "list_all (mark_ok key) ctx"
    "inv_h q" "inv_c q" "ctx_h (map snd ctx) (bheight q)" "ctx_c (map snd ctx) (is_red q)"
    "red_near (map snd ctx) (is_red q)"
  using assms by (auto simp: del_inv_def items_eplug)

text \<open>Entering a node whose frame, or whose next child, is red.\<close>

lemma del_inv_descend:
  assumes keys: "keys_ok (ctx_l (map snd ctx) @ rb_items (RBNode c k v l r) @ ctx_r (map snd ctx))"
    and marks: "list_all (mark_ok key) ctx"
    and inv: "inv_h (RBNode c k v l r)" "inv_c (RBNode c k v l r)"
    and ctx: "ctx_h (map snd ctx) (bheight (RBNode c k v l r))" "ctx_c (map snd ctx) c"
    and d: "d = (rank k < rank key)" and m: "m = (rank k = rank key)"
    and near: "c \<or> is_red (if d then r else l) \<or> ctx = [] \<and> \<not> is_red (if d then l else r)"
  shows "del_inv key ((m, Frame d c k v (if d then l else r)) # ctx) (if d then r else l)"
proof -
  have "rank (fst p) < rank k" if "p \<in> set (rb_items l)" for p
    using keys that by (auto simp: keys_ok_def sorted_wrt_append)
  moreover have "rank k < rank (fst p)" if "p \<in> set (rb_items r)" for p
    using keys that by (auto simp: keys_ok_def sorted_wrt_append)
  ultimately have "mark_ok key (m, Frame d c k v (if d then l else r))"
    using d m by (fastforce simp: mark_ok_def)
  then show ?thesis
    using assms unfolding del_inv_def items_eplug
    by (cases d) (auto simp: red_near_def)
qed

definition pushes :: "var \<Rightarrow> var eframe list \<Rightarrow> bool \<Rightarrow> bool \<Rightarrow> var \<Rightarrow> var \<Rightarrow> var rbnode \<Rightarrow> var rbnode \<Rightarrow> bool" where
  "pushes key ctx d c k v l r \<longleftrightarrow>
     (\<exists>ctx1 qc ql qr.
        push_red ctx d c k v l r = Some (ctx1, RBNode qc k v ql qr) \<and>
        (if d then qr = r else ql = l) \<and>
        ctx_l (map snd ctx1) @ rb_items (RBNode qc k v ql qr) @ ctx_r (map snd ctx1) =
          ctx_l (map snd ctx) @ rb_items (RBNode c k v l r) @ ctx_r (map snd ctx) \<and>
        list_all (mark_ok key) ctx1 \<and>
        inv_h (RBNode qc k v ql qr) \<and> inv_c (RBNode qc k v ql qr) \<and>
        ctx_h (map snd ctx1) (bheight (RBNode qc k v ql qr)) \<and> ctx_c (map snd ctx1) qc \<and>
        (qc \<or> is_red (if d then r else l) \<or> ctx1 = [] \<and> \<not> is_red (if d then ql else qr)))"

lemma pushesI:
  assumes "push_red ctx d c k v l r = Some (ctx1, RBNode qc k v ql qr)" "if d then qr = r else ql = l"
    and "ctx_l (map snd ctx1) @ rb_items (RBNode qc k v ql qr) @ ctx_r (map snd ctx1) =
          ctx_l (map snd ctx) @ rb_items (RBNode c k v l r) @ ctx_r (map snd ctx)"
    and "list_all (mark_ok key) ctx1"
    and "inv_h (RBNode qc k v ql qr)" "inv_c (RBNode qc k v ql qr)"
    and "ctx_h (map snd ctx1) (bheight (RBNode qc k v ql qr))" "ctx_c (map snd ctx1) qc"
    and "qc \<or> is_red (if d then r else l) \<or> ctx1 = [] \<and> \<not> is_red (if d then ql else qr)"
  shows "pushes key ctx d c k v l r"
  using assms unfolding pushes_def by blast

lemma push_plain:
  assumes inv: "del_inv key ctx (RBNode c k v l r)" and "c \<or> is_red (if d then r else l)"
  shows "pushes key ctx d c k v l r"
proof -
  have "push_red ctx d c k v l r = Some (ctx, RBNode c k v l r)"
    using assms(2) by (auto simp: push_red_def Let_def)
  then show ?thesis using del_invD [OF inv] assms(2) unfolding pushes_def by auto
qed

lemma push_rotate:
  assumes inv: "del_inv key ctx (RBNode c k v l r)" and d: "d = (rank k < rank key)"
    and red: "\<not> c" "\<not> is_red (if d then r else l)" "is_red (if d then l else r)"
  shows "pushes key ctx d c k v l r"
proof (cases d)
  case True
  then obtain sk sv sl sr where l: "l = RBNode True sk sv sl sr" using red by (cases l) auto
  have rot: "push_red ctx d c k v l r =
      Some ((False, Frame True False sk sv sl) # ctx, RBNode True k v sr r)"
    using True red l by (simp add: push_red_def Let_def)
  note I = del_invD [OF inv]
  have "rank sk < rank k" "\<forall>p \<in> set (rb_items sl). rank (fst p) < rank k"
    using I(1) l by (auto simp: keys_ok_def sorted_wrt_append)
  then have "mark_ok key (False, Frame True False sk sv sl)"
    using d True by (auto simp: mark_ok_def)
  then show ?thesis unfolding pushes_def rot using I(2-6) l red True by auto
next
  case False
  then obtain sk sv sl sr where r: "r = RBNode True sk sv sl sr" using red by (cases r) auto
  have rot: "push_red ctx d c k v l r =
      Some ((False, Frame False False sk sv sr) # ctx, RBNode True k v l sl)"
    using False red r by (simp add: push_red_def Let_def)
  note I = del_invD [OF inv]
  have "rank k < rank sk" "\<forall>p \<in> set (rb_items sr). rank k < rank (fst p)"
    using I(1) r by (auto simp: keys_ok_def sorted_wrt_append)
  then have "mark_ok key (False, Frame False False sk sv sr)"
    using d False by (auto simp: mark_ok_def)
  then show ?thesis unfolding pushes_def rot using I(2-6) r red False by auto
qed

lemma push_root:
  assumes inv: "del_inv key [] (RBNode c k v l r)" and "\<not> c" "\<not> is_red l" "\<not> is_red r"
  shows "pushes key [] d c k v l r"
proof -
  have "push_red [] d c k v l r = Some ([], RBNode c k v l r)"
    using assms(2-4) by (simp add: push_red_def Let_def)
  then show ?thesis using del_invD [OF inv] assms(2-4) unfolding pushes_def by auto
qed

text \<open>
  A black node with black children below a parent: the parent is red or the root, and the
  sibling is a black node.
\<close>

lemma sibling:
  assumes inv: "del_inv key ((found, Frame ld pc pk pv s) # upper) (RBNode c k v l r)" and "\<not> c"
  shows "pc \<or> upper = []" "\<not> is_red s" "s \<noteq> RBNil"
proof -
  note I = del_invD [OF inv]
  show "pc \<or> upper = []" "\<not> is_red s"
    using I(6,7) assms(2) by (auto simp: red_near_def)
  show "s \<noteq> RBNil" using I(5) assms(2) by auto
qed

lemma push_flip:
  assumes inv: "del_inv key ((found, Frame ld pc pk pv (RBNode False sk sv sl sr)) # upper) (RBNode c k v l r)"
    and black: "\<not> c" "\<not> is_red l" "\<not> is_red r" "\<not> is_red sl" "\<not> is_red sr"
  shows "pushes key ((found, Frame ld pc pk pv (RBNode False sk sv sl sr)) # upper) d c k v l r"
proof -
  note I = del_invD [OF inv]
  have rot: "push_red ((found, Frame ld pc pk pv (RBNode False sk sv sl sr)) # upper) d c k v l r =
      Some ((found, Frame ld False pk pv (RBNode True sk sv sl sr)) # upper, RBNode True k v l r)"
    using black by (simp add: push_red_def Let_def)
  have "ctx_h (map snd upper) (Suc (bheight l))"
    using I(5) sibling(1) [OF inv black(1)] black by (cases upper) auto
  moreover have "ctx_c (map snd upper) False" using I(6) ctx_c_black by auto
  ultimately show ?thesis unfolding pushes_def rot
    using I(2-6) black by (auto simp: mark_ok_def)
qed

lemma push_sibling:
  assumes inv: "del_inv key ((found, Frame ld pc pk pv (RBNode False sk sv sl sr)) # upper) (RBNode c k v l r)"
    and black: "\<not> c" "\<not> is_red l" "\<not> is_red r" and red: "is_red sl \<or> is_red sr"
  shows "pushes key ((found, Frame ld pc pk pv (RBNode False sk sv sl sr)) # upper) d c k v l r"
proof -
  note I = del_invD [OF inv]
  have h: "ctx_h (map snd upper) (Suc (bheight l))"
    using I(5) sibling(1) [OF inv black(1)] black by (cases upper) auto
  have c: "ctx_c (map snd upper) True"
    using I(6) sibling(1) [OF inv black(1)] by (cases upper) auto
  show ?thesis
  proof (cases "is_red (if ld then sr else sl)")
    case True
    then obtain ik iv il ir where i: "(if ld then sr else sl) = RBNode True ik iv il ir"
      by (cases "if ld then sr else sl") auto
    have rot: "push_red ((found, Frame ld pc pk pv (RBNode False sk sv sl sr)) # upper) d c k v l r =
        Some ([(found, Frame ld False pk pv (if ld then ir else il)),
               (False, Frame ld True ik iv (if ld then RBNode False sk sv sl il else RBNode False sk sv ir sr))] @ upper,
              RBNode True k v l r)"
      using black red i by (cases ld) (auto simp: push_red_def Let_def)
    have m: "list_all (mark_ok key) upper"
      "mark_ok key (found, Frame ld False pk pv (if ld then ir else il))"
      "mark_ok key (False, Frame ld True ik iv (if ld then RBNode False sk sv sl il else RBNode False sk sv ir sr))"
      using I(2) i by (cases ld; force simp: mark_ok_def)+
    show ?thesis
      by (rule pushesI [OF rot]) (use m I(3-6) black i h c in \<open>cases ld; simp\<close>)+
  next
    case False
    with red obtain ok ov ol orr where o: "(if ld then sl else sr) = RBNode True ok ov ol orr"
      by (cases "if ld then sl else sr") (auto split: if_splits)
    have rot: "push_red ((found, Frame ld pc pk pv (RBNode False sk sv sl sr)) # upper) d c k v l r =
        Some ([(found, Frame ld False pk pv (if ld then sr else sl)),
               (False, Frame ld True sk sv (RBNode False ok ov ol orr))] @ upper,
              RBNode True k v l r)"
      using black False red o by (cases ld) (auto simp: push_red_def Let_def)
    have m: "list_all (mark_ok key) upper"
      "mark_ok key (found, Frame ld False pk pv (if ld then sr else sl))"
      "mark_ok key (False, Frame ld True sk sv (RBNode False ok ov ol orr))"
      using I(2) o by (cases ld; force simp: mark_ok_def)+
    show ?thesis
      by (rule pushesI [OF rot]) (use m I(3-6) black o False h c in \<open>cases ld; simp\<close>)+
  qed
qed

lemma push_red_ok:
  assumes inv: "del_inv key ctx (RBNode c k v l r)" and d: "d = (rank k < rank key)"
  shows "pushes key ctx d c k v l r"
proof (cases "c \<or> is_red (if d then r else l)")
  case True
  then show ?thesis using push_plain [OF inv] by blast
next
  case plain: False
  show ?thesis
  proof (cases "is_red (if d then l else r)")
    case True
    then show ?thesis using push_rotate [OF inv d] plain by blast
  next
    case False
    with plain have black: "\<not> c" "\<not> is_red l" "\<not> is_red r" by (auto split: if_splits)
    show ?thesis
    proof (cases ctx)
      case Nil
      then show ?thesis using push_root inv black by blast
    next
      case (Cons e upper)
      obtain found ld pc pk pv s where e: "e = (found, Frame ld pc pk pv s)"
        by (cases e; cases "snd e") auto
      obtain sk sv sl sr where s: "s = RBNode False sk sv sl sr"
        using sibling(2,3) [OF inv [unfolded Cons e] black(1)] by (cases s) auto
      show ?thesis
        using push_flip [of key found ld pc pk pv sk sv sl sr upper c k v l r d]
          push_sibling [of key found ld pc pk pv sk sv sl sr upper c k v l r d] inv black
        unfolding Cons e s by (cases "is_red sl \<or> is_red sr") auto
    qed
  qed
qed

lemma erase_loop:
  "del_inv key ctx n \<Longrightarrow> key \<in> K \<Longrightarrow>
   \<exists>ctx'. rberase_loop key ctx n = Some ctx' \<and> del_inv key ctx' RBNil \<and>
     rb_items (eplug ctx' RBNil) = rb_items (eplug ctx n) \<and> (n \<noteq> RBNil \<longrightarrow> ctx' \<noteq> [])"
proof (induction n arbitrary: ctx)
  case (RBNode c k v l r)
  define d where "d = (rank k < rank key)"
  define m where "m = (rank k = rank key)"
  note I = del_invD [OF RBNode.prems(1)]
  have "k \<in> K" using I(1) by (auto simp: keys_ok_def)
  then obtain n where cmp: "node_compare k key False = Some n" "(n < 0) = d" "(n = 0) = m"
    using node_compare_cases RBNode.prems(2) unfolding d_def m_def by metis
  have ctx0: "(if m then unmark ctx else ctx) = ctx"
    using unmark_id [OF RBNode.prems(1)] by (simp add: m_def)
  obtain ctx1 qc ql qr where push: "push_red ctx d c k v l r = Some (ctx1, RBNode qc k v ql qr)"
    and child: "if d then qr = r else ql = l"
    and items: "ctx_l (map snd ctx1) @ rb_items (RBNode qc k v ql qr) @ ctx_r (map snd ctx1) =
          ctx_l (map snd ctx) @ rb_items (RBNode c k v l r) @ ctx_r (map snd ctx)"
    and P: "list_all (mark_ok key) ctx1" "inv_h (RBNode qc k v ql qr)" "inv_c (RBNode qc k v ql qr)"
      "ctx_h (map snd ctx1) (bheight (RBNode qc k v ql qr))" "ctx_c (map snd ctx1) qc"
      "qc \<or> is_red (if d then r else l) \<or> ctx1 = [] \<and> \<not> is_red (if d then ql else qr)"
    using push_red_ok [OF RBNode.prems(1) d_def] unfolding pushes_def by blast
  let ?ctx2 = "(m, Frame d qc k v (if d then ql else qr)) # ctx1" and ?n = "if d then r else l"
  have n: "(if d then qr else ql) = ?n" using child by auto
  have "del_inv key ?ctx2 (if d then qr else ql)"
    by (rule del_inv_descend [OF _ P(1-5) d_def m_def]) (use items I(1) P(6) n in auto)
  then have inv2: "del_inv key ?ctx2 ?n" unfolding n .
  have step: "rberase_loop key ctx (RBNode c k v l r) = rberase_loop key ?ctx2 ?n"
    using cmp ctx0 push by (simp add: Let_def)
  have same: "rb_items (eplug ?ctx2 ?n) = rb_items (eplug ctx (RBNode c k v l r))"
    using items child by (auto simp: items_eplug)
  obtain ctx' where c': "rberase_loop key ?ctx2 ?n = Some ctx'" "del_inv key ctx' RBNil"
    "rb_items (eplug ctx' RBNil) = rb_items (eplug ?ctx2 ?n)" "?n \<noteq> RBNil \<longrightarrow> ctx' \<noteq> []"
    using RBNode.IH(1) [of ?ctx2] RBNode.IH(2) [of ?ctx2] inv2 RBNode.prems(2) by (cases d) auto
  moreover have "ctx' \<noteq> []"
    using c'(1,4) by (cases ?n) auto
  ultimately show ?case unfolding step same by auto
qed auto

text \<open>The marked frames are those whose key has the rank sought.\<close>

lemma marked_iff:
  "list_all (mark_ok key) ctx \<Longrightarrow>
   list_ex fst ctx \<longleftrightarrow> (\<exists>p \<in> set (ctx_l (map snd ctx) @ ctx_r (map snd ctx)). rank (fst p) = rank key)"
proof (induction ctx)
  case (Cons e ctx)
  obtain m d c k v other where e: "e = (m, Frame d c k v other)" by (cases e; cases "snd e") auto
  have "\<exists>p \<in> set (if d then rb_items other @ [(k, v)] else (k, v) # rb_items other). rank (fst p) = rank key"
    if m using that Cons.prems unfolding e by (auto simp: mark_ok_def split: if_splits)
  moreover have "m" if "p \<in> set (if d then rb_items other @ [(k, v)] else (k, v) # rb_items other)"
    "rank (fst p) = rank key" for p
    using that Cons.prems unfolding e by (fastforce simp: mark_ok_def split: if_splits)
  ultimately have "m \<longleftrightarrow> (\<exists>p \<in> set (if d then rb_items other @ [(k, v)] else (k, v) # rb_items other).
      rank (fst p) = rank key)" by blast
  with Cons show ?case unfolding e by (cases d) (simp_all add: bex_Un, blast+)
qed simp

text \<open>What is unlinked has no children; its data replaces the marked frame's.\<close>

lemma last_node:
  assumes "del_inv key ((m, Frame d c k v other) # upper) RBNil"
  shows "other = RBNil" "c \<or> upper = []"
proof -
  note I = del_invD [OF assms]
  have "\<not> is_red other" "c \<or> upper = []" using I(6,7) by (auto simp: red_near_def)
  moreover have "bheight other = 0" using I(5) by simp
  ultimately show "other = RBNil" "c \<or> upper = []" by (cases other; auto)+
qed

definition relabel :: "'v \<Rightarrow> 'v \<Rightarrow> bool \<times> 'v frame \<Rightarrow> bool \<times> 'v frame" where
  "relabel k v e = (fst e, if fst e then Frame (f_dir (snd e)) (f_red (snd e)) k v (f_other (snd e)) else snd e)"

lemma unlink_relabel:
  "unlink ((m, Frame d c k v other) # upper) = eplug (map (relabel k v) upper) other"
  unfolding unlink_def relabel_def
  by simp (rule arg_cong [where f = "\<lambda>c. eplug c other"], rule map_cong, auto)

lemma ctx_relabel [simp]:
  "ctx_h (map (snd \<circ> relabel k v) ctx) h = ctx_h (map snd ctx) h"
  "ctx_c (map (snd \<circ> relabel k v) ctx) red = ctx_c (map snd ctx) red"
proof (induction ctx arbitrary: h red)
  case (Cons e ctx)
  { case 1 then show ?case using Cons by (cases e; cases "snd e") (auto simp: relabel_def) }
  { case 2 then show ?case using Cons by (cases e; cases "snd e") (auto simp: relabel_def) }
qed simp_all

lemma items_relabel:
  "list_all (mark_ok key) ctx \<Longrightarrow>
   ctx_l (map (snd \<circ> relabel k v) ctx) = ctx_l (map snd ctx) \<and>
   ctx_r (map (snd \<circ> relabel k v) ctx) =
     map (\<lambda>p. if rank (fst p) = rank key then (k, v) else p) (ctx_r (map snd ctx))"
proof (induction ctx)
  case (Cons e ctx)
  obtain m d c k2 v2 other where e: "e = (m, Frame d c k2 v2 other)" by (cases e; cases "snd e") auto
  have "map (\<lambda>p. if rank (fst p) = rank key then (k, v) else p) (rb_items other) = rb_items other" if "\<not> d"
    using Cons.prems that unfolding e by (intro map_idI) (auto simp: mark_ok_def)
  with Cons show ?case unfolding e by (cases d) (auto simp: relabel_def mark_ok_def)
qed simp

lemma unlink_inv:
  assumes "del_inv key ctx RBNil" "ctx \<noteq> []"
  shows "inv_h (unlink ctx) \<and> inv_c (unlink ctx)"
proof -
  obtain m d c k v other upper where ctx: "ctx = (m, Frame d c k v other) # upper"
    using assms(2) by (cases ctx; cases "hd ctx"; cases "snd (hd ctx)") auto
  note L = last_node [OF assms(1) [unfolded ctx]] and I = del_invD [OF assms(1) [unfolded ctx]]
  have "ctx_h (map snd upper) 0" using I(5) L by auto
  moreover have "ctx_c (map snd upper) False" using I(6) ctx_c_black by auto
  ultimately show ?thesis
    unfolding ctx unlink_relabel eplug_def L(1)
    by (auto intro!: inv_h_plug inv_c_plug)
qed

lemma filter_single:
  assumes "keys_ok (X @ p # Z)" "rank (fst p) = rank key"
  shows "filter (\<lambda>q. rank (fst q) \<noteq> rank key) (X @ p # Z) = X @ Z"
proof -
  have "\<forall>q \<in> set X. rank (fst q) \<noteq> rank key" "\<forall>q \<in> set Z. rank (fst q) \<noteq> rank key"
    using assms by (auto simp: keys_ok_def sorted_wrt_append)
  then show ?thesis using assms(2) by (simp add: filter_id_conv)
qed

lemma unlink_items:
  assumes inv: "del_inv key ctx RBNil" and found: "list_ex fst ctx"
  shows "rb_items (unlink ctx) = filter (\<lambda>p. rank (fst p) \<noteq> rank key) (rb_items (eplug ctx RBNil))"
proof -
  obtain m d c k v other upper where ctx: "ctx = (m, Frame d c k v other) # upper"
    using found by (cases ctx; cases "hd ctx"; cases "snd (hd ctx)") auto
  note L = last_node [OF inv [unfolded ctx]] and I = del_invD [OF inv [unfolded ctx]]
  let ?l = "ctx_l (map snd upper)" and ?r = "ctx_r (map snd upper)"
  have marks: "list_all (mark_ok key) upper" and mk: "mark_ok key (m, Frame d c k v other)"
    using I(2) by auto
  have whole: "rb_items (eplug ctx RBNil) = ?l @ (k, v) # ?r" and s: "keys_ok (?l @ (k, v) # ?r)"
    using I(1) L(1) by (cases d; simp add: items_eplug ctx)+
  have part: "rb_items (unlink ctx) = ?l @ map (\<lambda>p. if rank (fst p) = rank key then (k, v) else p) ?r"
    using items_relabel [OF marks, of k v] by (simp add: ctx unlink_relabel items_eplug L(1))
  show ?thesis
  proof (cases m)
    case True
    then have k: "rank k = rank key" using mk by (auto simp: mark_ok_def split: if_splits)
    have "map (\<lambda>p. if rank (fst p) = rank key then (k, v) else p) ?r = ?r"
      using s k by (intro map_idI) (auto simp: keys_ok_def sorted_wrt_append)
    then show ?thesis unfolding part whole using filter_single [OF s, of key] k by simp
  next
    case False
    with found marked_iff [OF marks] obtain p where p: "p \<in> set (?l @ ?r)" "rank (fst p) = rank key"
      unfolding ctx by auto
    have nk: "rank k \<noteq> rank key" "\<not> d \<longrightarrow> rank key < rank k"
      using mk False by (auto simp: mark_ok_def split: if_splits)
    have le: "\<forall>q \<in> set ?r. rank k < rank (fst q)" "\<forall>q \<in> set ?l. rank (fst q) < rank k"
      using s by (auto simp: keys_ok_def sorted_wrt_append)
    have "p \<in> set ?r"
    proof (rule ccontr)
      assume "p \<notin> set ?r"
      then have "p \<in> set ?l" using p by simp
      moreover have "before key ?l" using marks
      proof (induction upper)
        case (Cons e upper)
        then show ?case by (cases e; cases "snd e") (auto simp: mark_ok_def split: if_splits)
      qed simp
      ultimately show False using p(2) by force
    qed
    moreover have "\<forall>q \<in> set ?r. rank key \<le> rank (fst q)" using marks
    proof (induction upper)
      case (Cons e upper)
      then show ?case by (cases e; cases "snd e") (force simp: mark_ok_def split: if_splits)
    qed simp
    moreover obtain p0 R where r0: "?r = p0 # R" using \<open>p \<in> set ?r\<close> by (cases ?r) auto
    moreover have "\<forall>q \<in> set R. rank (fst p0) < rank (fst q)"
      using s unfolding r0 by (auto simp: keys_ok_def sorted_wrt_append)
    ultimately have "p0 = p" using p(2) by force
    with r0 have r: "?r = p # R" by simp
    have R: "\<forall>q \<in> set R. rank (fst q) \<noteq> rank key"
      using s p(2) unfolding r by (auto simp: keys_ok_def sorted_wrt_append)
    have "map (\<lambda>p. if rank (fst p) = rank key then (k, v) else p) ?r = (k, v) # R"
      using R p(2) unfolding r by (auto intro!: map_idI)
    then show ?thesis unfolding part whole r
      using filter_single [of "?l @ [(k, v)]" p R key] s p(2) unfolding r by simp
  qed
qed

section \<open>Operations on whole maps\<close>

lemma keys_ok_filter: "keys_ok xs \<Longrightarrow> keys_ok (filter P xs)"
  by (auto simp: keys_ok_def sorted_wrt_filter)

lemma filter_length_one:
  assumes "keys_ok xs" "\<exists>p \<in> set xs. rank (fst p) = rank key"
  shows "length (filter (\<lambda>p. rank (fst p) \<noteq> rank key) xs) = length xs - 1"
proof -
  from assms(2) obtain p X Z where xs: "xs = X @ p # Z" and p: "rank (fst p) = rank key"
    by (metis split_list)
  from filter_single [OF assms(1) [unfolded xs] p] show ?thesis unfolding xs by simp
qed

lemma rberase_ok:
  assumes t: "map_ok t" and key: "key \<in> K"
  shows "\<exists>t'. rberase t key = Some (\<exists>p \<in> set (map_items t). rank (fst p) = rank key, t') \<and> map_ok t' \<and>
    map_items t' = filter (\<lambda>p. rank (fst p) \<noteq> rank key) (map_items t)"
proof (cases "rbroot t = RBNil")
  case True
  then show ?thesis using t by (auto simp: rberase_def map_items_def)
next
  case False
  have "del_inv key [] (rbroot t)"
    using t by (simp add: del_inv_def map_ok_def rb_tree_def map_items_def eplug_def red_near_def)
  from erase_loop [OF this key] False obtain ctx where
    loop: "rberase_loop key [] (rbroot t) = Some ctx" and inv: "del_inv key ctx RBNil"
    and items: "rb_items (eplug ctx RBNil) = map_items t" and ne: "ctx \<noteq> []"
    by (auto simp: eplug_def map_items_def)
  have ex: "list_ex fst ctx \<longleftrightarrow> (\<exists>p \<in> set (map_items t). rank (fst p) = rank key)"
    using marked_iff [OF del_invD(2) [OF inv]] unfolding items [symmetric] by (simp add: items_eplug)
  show ?thesis
  proof (cases "list_ex fst ctx")
    case found: True
    have "rberase t key = Some (True, RBTree (paint False (unlink ctx)) (rbsize t - 1))"
      using loop False found by (simp add: rberase_def)
    moreover have "map_ok (RBTree (paint False (unlink ctx)) (rbsize t - 1))"
      using t unlink_inv [OF inv ne] unlink_items [OF inv found] items ex found
      by (simp add: map_ok_def map_items_def rb_tree_paint keys_ok_filter filter_length_one)
    ultimately show ?thesis
      using ex found unlink_items [OF inv found] items by (auto simp: map_items_def)
  next
    case absent: False
    have "rberase t key = Some (False, RBTree (paint False (eplug ctx RBNil)) (rbsize t))"
      using loop False absent by (simp add: rberase_def)
    moreover have "inv_h (eplug ctx RBNil)" "inv_c (eplug ctx RBNil)"
      using del_invD(3-6) [OF inv] unfolding eplug_def by (auto intro: inv_h_plug inv_c_plug)
    moreover have "filter (\<lambda>p. rank (fst p) \<noteq> rank key) (map_items t) = map_items t"
      using ex absent by (auto simp: filter_id_conv)
    ultimately show ?thesis
      using t ex absent items by (auto simp: map_ok_def map_items_def rb_tree_paint)
  qed
qed

text \<open>The entries after an insertion.\<close>

definition updated :: "var \<Rightarrow> var \<Rightarrow> (var \<times> var) list \<Rightarrow> (var \<times> var) list \<Rightarrow> bool" where
  "updated key val xs ys \<longleftrightarrow> (\<exists>L R. filter (\<lambda>p. rank (fst p) \<noteq> rank key) xs = L @ R \<and>
     ys = L @ (key, val) # R \<and> before key L \<and> after key R)"

lemma insert_fresh:
  assumes "map_ok t" "key \<in> K"
  shows "\<exists>t1 t2. rberase t key = Some t1 \<and> rbinsert (snd t1) key val = Some t2 \<and> map_ok t2 \<and>
    updated key val (map_items t) (map_items t2)"
proof -
  obtain t1 where t1: "rberase t key = Some (\<exists>p \<in> set (map_items t). rank (fst p) = rank key, t1)" "map_ok t1"
    "map_items t1 = filter (\<lambda>p. rank (fst p) \<noteq> rank key) (map_items t)"
    using rberase_ok [OF assms] by blast
  have "\<forall>p \<in> set (map_items t1). rank (fst p) \<noteq> rank key" using t1(3) by simp
  from rbinsert_ok [OF t1(2) assms(2) this, of val] t1 show ?thesis
    unfolding updated_def by auto
qed

text \<open>Copying a map inserts its entries in order.\<close>

lemma insert_all_ok:
  "map_ok t \<Longrightarrow> keys_ok (map_items t @ xs) \<Longrightarrow>
   \<exists>t'. insert_all xs t = Some t' \<and> map_ok t' \<and> map_items t' = map_items t @ xs"
proof (induction xs arbitrary: t)
  case (Cons p xs)
  obtain k v where p: "p = (k, v)" by (cases p)
  have k: "k \<in> K" "before k (map_items t)"
    using Cons.prems(2) unfolding p by (auto simp: keys_ok_def sorted_wrt_append)
  then have "\<forall>p \<in> set (map_items t). rank (fst p) \<noteq> rank k" by auto
  from rbinsert_ok [OF Cons.prems(1) k(1) this, of v] obtain t1 L R where
    t1: "rbinsert t k v = Some t1" "map_ok t1" "map_items t = L @ R" "map_items t1 = L @ (k, v) # R" "after k R"
    by blast
  have "R = []" using t1(3,5) k(2) by (cases R) force+
  with t1 have "map_items t1 = map_items t @ [(k, v)]" by simp
  with Cons.IH [OF t1(2)] Cons.prems(2) t1(1) show ?case unfolding p by simp
qed simp

lemma map_dup_ok:
  assumes "map_ok t"
  shows "\<exists>t'. map_dup t = Some t' \<and> map_ok t' \<and> map_items t' = map_items t"
proof -
  have "map_ok map_empty" and "map_items map_empty = []"
    by (simp_all add: map_ok_def map_empty_def rbnew_def map_items_def rb_tree_def keys_ok_def)
  then show ?thesis
    using insert_all_ok [of map_empty "map_items t"] assms by (simp add: map_dup_def map_ok_def)
qed

end

end
