(* ===== verification/MapSpec.thy ===== *)
theory MapSpec
  imports MapErase
begin

text \<open>
  What maps promise: lookup after insertion and deletion for keys with an order, the
  traversal of all entries in order, and a bound on the depth of every traversal.
\<close>

section \<open>Lookup\<close>

context key_order
begin

lemma compare_same_rank: "a \<in> K \<Longrightarrow> b \<in> K \<Longrightarrow> compare a b cm = Some 0 \<Longrightarrow> rank a = rank b"
  using compare_rank [of a b] compare_exact [of a b] by (cases cm) auto

lemma compare_False_iff: "a \<in> K \<Longrightarrow> b \<in> K \<Longrightarrow> compare a b False = Some 0 \<longleftrightarrow> rank a = rank b"
  using compare_rank [of a b] by auto

lemma rbfind_node:
  assumes "k \<in> K" "key \<in> K"
  shows "rbfind (RBNode c k v l r) key cm =
    (if compare k key cm = Some 0 then Some (Some (k, v))
     else if rank k < rank key then rbfind r key cm else rbfind l key cm)"
  using compare_rank [OF assms] compare_exact [OF assms] by (cases cm) (auto simp: node_compare_def)

text \<open>With or without case, a search finds the entry that \<^verbatim>\<open>compare\<close> calls the same.\<close>

lemma rbfind_ok:
  assumes "keys_ok (rb_items n)" "key \<in> K"
  shows "rbfind n key cm = Some (List.find (\<lambda>p. compare (fst p) key cm = Some 0) (rb_items n))"
  using assms(1)
proof (induction n)
  case (RBNode c k v l r)
  let ?P = "\<lambda>p. compare (fst p) key cm = Some 0"
  have k: "k \<in> K" and l: "keys_ok (rb_items l)" and r: "keys_ok (rb_items r)"
    and lk: "\<And>p. p \<in> set (rb_items l) \<Longrightarrow> fst p \<in> K \<and> rank (fst p) < rank k"
    and rk: "\<And>p. p \<in> set (rb_items r) \<Longrightarrow> fst p \<in> K \<and> rank k < rank (fst p)"
    using RBNode.prems by (auto simp: keys_ok_def sorted_wrt_append)
  have nl: "List.find ?P (rb_items l) = None" if "rank k \<le> rank key"
    using lk compare_same_rank assms(2) that by (fastforce simp: find_None_iff)
  have nr: "List.find ?P (rb_items r) = None" if "rank key \<le> rank k"
    using rk compare_same_rank assms(2) that by (fastforce simp: find_None_iff)
  have same: "rank k = rank key" if "compare k key cm = Some 0"
    using compare_same_rank [OF k assms(2) that] .
  consider "rank k \<le> rank key" "compare k key cm = Some 0" | "compare k key cm \<noteq> Some 0" "rank k < rank key"
    | "compare k key cm \<noteq> Some 0" "rank key \<le> rank k"
    using same by fastforce
  then show ?case
  proof cases
    case 1
    then show ?thesis using nl by (simp add: find_append rbfind_node [OF k assms(2)] del: rbfind.simps)
  next
    case 2
    then show ?thesis using nl RBNode.IH(2) [OF r]
      by (simp add: find_append rbfind_node [OF k assms(2)] del: rbfind.simps)
  next
    case 3
    then show ?thesis using nr RBNode.IH(1) [OF l]
      by (auto simp: find_append rbfind_node [OF k assms(2)] simp del: rbfind.simps split: option.split)
  qed
qed simp

lemma find_updated:
  assumes u: "updated key val xs ys" and K: "fst ` set xs \<subseteq> K" "key \<in> K" "key' \<in> K"
  shows "List.find (\<lambda>p. compare (fst p) key' False = Some 0) ys =
    (if compare key key' False = Some 0 then Some (key, val)
     else List.find (\<lambda>p. compare (fst p) key' False = Some 0) xs)"
proof -
  let ?P = "\<lambda>p. compare (fst p) key' False = Some 0"
  obtain L R where LR: "filter (\<lambda>p. rank (fst p) \<noteq> rank key) xs = L @ R" "ys = L @ (key, val) # R"
    using u unfolding updated_def by blast
  have PK: "?P p \<longleftrightarrow> rank (fst p) = rank key'" if "fst p \<in> K" for p
    using compare_False_iff [OF that K(3)] .
  have LRK: "fst p \<in> K" "rank (fst p) \<noteq> rank key" if "p \<in> set (L @ R)" for p
    using that K(1) unfolding LR(1) [symmetric] by auto
  show ?thesis
  proof (cases "rank key = rank key'")
    case True
    then have "List.find ?P L = None"
      using LRK PK by (fastforce simp: find_None_iff)
    then show ?thesis using True PK [of "(key, val)"] K(2) by (simp add: LR(2) find_append)
  next
    case False
    have "List.find ?P ys = List.find ?P (L @ R)"
      using False PK [of "(key, val)"] K(2) by (simp add: LR(2) find_append split: option.split)
    also have "\<dots> = List.find ?P xs" unfolding LR(1) [symmetric] using K(1)
    proof (induction xs)
      case (Cons p xs)
      then show ?case using PK [of p] False by auto
    qed simp
    finally show ?thesis using False compare_False_iff [OF K(2,3)] by simp
  qed
qed

lemma mapinsert_ok:
  assumes t: "map_ok t" and key: "key \<in> K" "key \<noteq> VNONE" "key \<noteq> VCLEAR" "\<not> is_collection key"
  shows "\<exists>t'. mapinsert shared t key val = Some t' \<and> map_ok t' \<and> updated key val (map_items t) (map_items t')"
proof -
  obtain t0 where t0: "(if shared then map_dup t else Some t) = Some t0" "map_ok t0" "map_items t0 = map_items t"
    using map_dup_ok [OF t] t by (cases shared) auto
  with insert_fresh [OF t0(2) key(1), of val] obtain t1 t2 where
    "rberase t0 key = Some t1" "rbinsert (snd t1) key val = Some t2" "map_ok t2"
    "updated key val (map_items t) (map_items t2)" by auto
  with t0(1) key show ?thesis by (cases t1) (simp add: mapinsert_def)
qed

end

section \<open>Ordinary keys\<close>

text \<open>
  Keys on which \<^verbatim>\<open>compare\<close> is an order: integers and object numbers whose
  differences fit an \<^verbatim>\<open>int\<close>, strings, errors, floating point numbers. Truth values,
  anonymous objects and waifs are only told apart, not ordered.
\<close>

fun ordinary_key :: "var \<Rightarrow> bool" where
  "ordinary_key (VINT n) = (- (2 ^ 30) \<le> sint n \<and> sint n < 2 ^ 30)"
| "ordinary_key (VOBJ n) = (- (2 ^ 30) \<le> n \<and> n < 2 ^ 30)"
| "ordinary_key (VSTR s) = c_string s"
| "ordinary_key (VERR e) = True"
| "ordinary_key (VFLOAT f) = (\<not> f_isnan f)"
| "ordinary_key _ = False"

fun key_rank :: "var \<Rightarrow> int \<times> int \<times> nat list" where
  "key_rank (VINT n) = (0, sint n, [])"
| "key_rank (VOBJ n) = (1, n, [])"
| "key_rank (VSTR s) = (130, 0, map byte_of (map cmap s))"
| "key_rank (VERR e) = (3, error_code e, [])"
| "key_rank (VFLOAT f) = (9, f_ord f, [])"
| "key_rank _ = (0, 0, [])"

lemma sint_small_diff:
  assumes "- (2 ^ 30) \<le> sint a" "sint a < 2 ^ 30" "- (2 ^ 30) \<le> sint b" "sint b < 2 ^ 30"
  shows "sint (a - b :: num) = sint a - sint b"
proof -
  have "sint (a - b) = signed_take_bit 63 (sint a - sint b)"
    by (simp add: sint_word_ariths)
  also have "\<dots> = sint a - sint b"
    by (rule signed_take_bit_int_eq_self) (use assms in auto)
  finally show ?thesis .
qed

lemma error_code_inj: "error_code a = error_code b \<longleftrightarrow> a = b"
  by (cases a; cases b) auto

lemma byte_map_inj: "map byte_of s = map byte_of t \<longleftrightarrow> s = t"
  by (meson byte_of_inject inj_on_def inj_on_map_eq_map)

lemma strcmp_less:
  "c_string s \<Longrightarrow> c_string t \<Longrightarrow> strcmp s t < 0 \<longleftrightarrow> map byte_of s < map byte_of t"
  by (induction s t rule: strcmp.induct) (auto dest: byte_of_neq_less)

lemma strcasecmp_less:
  "c_string s \<Longrightarrow> c_string t \<Longrightarrow>
   strcasecmp s t < 0 \<longleftrightarrow> map byte_of (map cmap s) < map byte_of (map cmap t)"
  unfolding strcasecmp_def by (rule strcmp_less) simp_all

lemma compare_key_rank:
  assumes "ordinary_key a" "ordinary_key b"
  shows "\<exists>n. compare a b False = Some n \<and> (n < 0 \<longleftrightarrow> key_rank a < key_rank b) \<and>
    (n = 0 \<longleftrightarrow> key_rank a = key_rank b)"
proof (cases "type_of a = type_of b")
  case True
  with assms show ?thesis
    by (cases a; cases b)
      (auto simp: compare_def type_defs sint_small_diff to_int32_id error_code_inj f_eq_def f_less_def
         strcasecmp_less strcasecmp_zero_iff byte_map_inj simp del: map_map)
next
  case False
  with assms show ?thesis by (cases a; cases b) (auto simp: compare_def)
qed

lemma compare_key_exact:
  assumes "ordinary_key a" "ordinary_key b"
  shows "\<exists>n. compare a b True = Some n \<and> (n = 0 \<longrightarrow> key_rank a = key_rank b)"
proof (cases "type_of a = type_of b")
  case True
  with assms show ?thesis
    by (cases a; cases b)
      (auto simp: compare_def type_defs sint_small_diff to_int32_id error_code_inj f_eq_def f_less_def
         strcmp_zero_iff)
next
  case False
  with assms show ?thesis by (cases a; cases b) (auto simp: compare_def)
qed

interpretation mk: key_order "{v. ordinary_key v}" key_rank
  by unfold_locales (use compare_key_rank compare_key_exact in auto)

section \<open>Well-formed maps\<close>

definition wf_map :: "var rbtree \<Rightarrow> bool" where
  "wf_map t \<longleftrightarrow> rb_tree (rbroot t) \<and> list_all ordinary_key (map fst (map_items t)) \<and>
     sorted_wrt (\<lambda>a b. key_rank a < key_rank b) (map fst (map_items t)) \<and> rbsize t = length (map_items t)"

lemma wf_map_iff: "wf_map t \<longleftrightarrow> mk.map_ok t"
  by (auto simp: wf_map_def mk.map_ok_def mk.keys_ok_def sorted_wrt_map list_all_iff)

lemma wf_map_items: "wf_map t \<Longrightarrow> fst ` set (map_items t) \<subseteq> {v. ordinary_key v}"
  by (auto simp: wf_map_def list_all_iff)

lemma maplookup_find:
  assumes "wf_map t" "ordinary_key k"
  shows "maplookup t k cm = Some (List.find (\<lambda>p. compare (fst p) k cm = Some 0) (map_items t))"
  using mk.rbfind_ok [of "rbroot t" k cm] assms
  by (simp add: maplookup_def wf_map_iff mk.map_ok_def map_items_def)

lemma ordinary_key_plain: "ordinary_key k \<Longrightarrow> k \<noteq> VNONE \<and> k \<noteq> VCLEAR \<and> \<not> is_collection k"
  by (cases k) (auto simp: is_collection_def)

lemma find_filter_other:
  assumes "fst ` set xs \<subseteq> {v. ordinary_key v}" "ordinary_key k" "ordinary_key k'"
  shows "List.find (\<lambda>p. compare (fst p) k' False = Some 0)
      (filter (\<lambda>p. key_rank (fst p) \<noteq> key_rank k) xs) =
    (if compare k k' False = Some 0 then None else List.find (\<lambda>p. compare (fst p) k' False = Some 0) xs)"
  using assms(1)
proof (induction xs)
  case (Cons p xs)
  then show ?case
    using mk.compare_False_iff [of "fst p" k'] mk.compare_False_iff [of k k'] assms(2,3) by auto
qed simp

lemma rberase_wf:
  assumes "wf_map t" "ordinary_key k"
  shows "\<exists>t'. rberase t k = Some (maplookup t k False \<noteq> Some None, t') \<and> wf_map t' \<and>
    map_items t' = filter (\<lambda>p. key_rank (fst p) \<noteq> key_rank k) (map_items t)"
proof -
  have "(\<exists>p \<in> set (map_items t). key_rank (fst p) = key_rank k) \<longleftrightarrow> maplookup t k False \<noteq> Some None"
  proof -
    have "compare (fst p) k False = Some 0 \<longleftrightarrow> key_rank (fst p) = key_rank k" if "p \<in> set (map_items t)" for p
      using mk.compare_False_iff [of "fst p" k] wf_map_items [OF assms(1)] that assms(2) by auto
    then show ?thesis
      unfolding maplookup_find [OF assms] option.inject find_None_iff by blast
  qed
  with mk.rberase_ok [of t k] assms show ?thesis by (simp add: wf_map_iff)
qed

section \<open>Properties\<close>


text \<open>A map with two keys, one of them asked for in capitals.\<close>

definition sample_map :: "var rbtree" where
  "sample_map = RBTree (RBNode False (VINT 3) (VINT 0) RBNil
     (RBNode True (VSTR ''k'') (VINT 1) RBNil RBNil)) 2"

lemma sample_map_wf: "wf_map sample_map"
  by (simp add: wf_map_def sample_map_def map_items_def rb_tree_def c_string_def byte_of_def)




text \<open>Three anonymous objects as keys, inserted one after the other.\<close>

definition anon_map :: "var rbtree option" where
  "anon_map = Option.bind (mapinsert False map_empty (VANON (Some 0)) (VINT 0)) (\<lambda>t1.
     Option.bind (mapinsert False t1 (VANON (Some 1)) (VINT 1)) (\<lambda>t2.
       mapinsert False t2 (VANON (Some 2)) (VINT 2)))"


section \<open>Traversals\<close>

text \<open>
  The loop \<^verbatim>\<open>for (pnode = rbtfirst(...); pnode; pnode = rbtnext(...))\<close>, with the entries
  it visits; the fuel counts its turns.
\<close>

fun visit_all :: "nat \<Rightarrow> 'v rbtrav \<Rightarrow> ('v \<times> 'v) list option" where
  "visit_all 0 trav = None"
| "visit_all (Suc n) (RBNil, path) = Some []"
| "visit_all (Suc n) (RBNode c k v l r, path) =
     (case rbtnext (RBNode c k v l r, path) of
        None \<Rightarrow> None
      | Some trav \<Rightarrow> map_option ((#) (k, v)) (visit_all n trav))"

fun still_above :: "(bool \<times> 'v rbnode) list \<Rightarrow> ('v \<times> 'v) list" where
  "still_above [] = []"
| "still_above ((d, RBNode c k v l r) # path) =
     (if d then [] else (k, v) # rb_items r) @ still_above path"
| "still_above ((d, RBNil) # path) = still_above path"

fun ahead :: "'v rbtrav \<Rightarrow> ('v \<times> 'v) list" where
  "ahead (RBNil, path) = []"
| "ahead (RBNode c k v l r, path) = (k, v) # rb_items r @ still_above path"

lemma descend_node:
  "descend dir (RBNode c k v l r) path =
     (if (if dir then r else l) = RBNil then (RBNode c k v l r, path)
      else descend dir (if dir then r else l) ((dir, RBNode c k v l r) # path))"
  by (cases dir; cases l; cases r; simp)

declare descend.simps(2) [simp del]

lemma ahead_descend: "t \<noteq> RBNil \<Longrightarrow> ahead (descend False t path) = rb_items t @ still_above path"
proof (induction t arbitrary: path)
  case (RBNode c k v l r)
  then show ?case by (cases "l = RBNil") (simp_all add: descend_node)
qed simp

definition no_nil :: "(bool \<times> 'v rbnode) list \<Rightarrow> bool" where
  "no_nil path \<longleftrightarrow> list_all (\<lambda>e. snd e \<noteq> RBNil) path"

lemma no_nil_descend: "no_nil path \<Longrightarrow> no_nil (snd (descend dir t path))"
proof (induction t arbitrary: path)
  case (RBNode c k v l r)
  then show ?case by (cases dir) (simp_all add: descend_node no_nil_def)
qed simp

lemma ahead_ascend: "no_nil path \<Longrightarrow> ahead (ascend True path) = still_above path"
proof (induction path)
  case (Cons e path)
  then show ?case by (cases e; cases "snd e") (auto simp: no_nil_def)
qed simp

lemma no_nil_ascend: "no_nil path \<Longrightarrow> no_nil (snd (ascend dir path))"
  by (induction dir path rule: ascend.induct) (auto simp: no_nil_def)

lemma rbtnext_ahead:
  assumes "no_nil path"
  shows "\<exists>trav. rbtnext (RBNode c k v l r, path) = Some trav \<and> no_nil (snd trav) \<and>
    ahead (RBNode c k v l r, path) = (k, v) # ahead trav"
proof (cases r)
  case RBNil
  then show ?thesis using ahead_ascend [OF assms] no_nil_ascend [OF assms] by (simp add: rbmove_def)
next
  case (RBNode c2 k2 v2 l2 r2)
  have "no_nil ((True, RBNode c k v l r) # path)" using assms by (simp add: no_nil_def)
  then show ?thesis
    using no_nil_descend [of "(True, RBNode c k v l r) # path" False r] ahead_descend [of r "(True, RBNode c k v l r) # path"]
    unfolding RBNode by (simp add: rbmove_def del: descend.simps)
qed

lemma visit_all_ahead: "no_nil (snd trav) \<Longrightarrow> length (ahead trav) < n \<Longrightarrow> visit_all n trav = Some (ahead trav)"
proof (induction n trav rule: visit_all.induct)
  case (3 n c k v l r path)
  from rbtnext_ahead [of path c k v l r] 3(2) obtain trav where
    "rbtnext (RBNode c k v l r, path) = Some trav" "no_nil (snd trav)"
    "ahead (RBNode c k v l r, path) = (k, v) # ahead trav" by auto
  with 3(1,3) show ?case by (simp del: ahead.simps)
qed auto

text \<open>
  C28: the loop over a map with \<^verbatim>\<open>rbtfirst\<close> and \<^verbatim>\<open>rbtnext\<close> ends after one turn per
  entry and visits the entries of the tree from left to right.
\<close>

theorem traversal_in_order:
  "visit_all (Suc (length (map_items t))) (rbtfirst t) = Some (map_items t)"
proof -
  have "ahead (rbtfirst t) = map_items t"
    using ahead_descend [of "rbroot t" "[]"] by (cases "rbroot t") (auto simp: rbstart_def map_items_def)
  moreover have "no_nil (snd (rbtfirst t))"
    unfolding rbstart_def by (rule no_nil_descend) (simp add: no_nil_def)
  ultimately show ?thesis using visit_all_ahead by fastforce
qed

section \<open>Depth\<close>

fun height :: "'v rbnode \<Rightarrow> nat" where
  "height RBNil = 0"
| "height (RBNode c k v l r) = Suc (max (height l) (height r))"

lemma height_bound: "inv_h t \<Longrightarrow> inv_c t \<Longrightarrow> height t \<le> 2 * bheight t + (if is_red t then 1 else 0)"
proof (induction t)
  case (RBNode c k v l r)
  then show ?case by (cases c) (auto split: if_splits)
qed simp

lemma bheight_size: "inv_h t \<Longrightarrow> 2 ^ bheight t \<le> Suc (length (rb_items t))"
  by (induction t) auto

text \<open>Every traversal that the operations on maps can make.\<close>

inductive trav_of :: "var rbtree \<Rightarrow> var rbtrav \<Rightarrow> bool" for t where
  start: "trav_of t (rbstart t dir)"
| seek: "rbseek t key cm = Some (Some trav) \<Longrightarrow> trav_of t trav"
| move: "trav_of t trav \<Longrightarrow> rbmove trav dir = Some trav' \<Longrightarrow> trav_of t trav'"

fun fits :: "nat \<Rightarrow> (bool \<times> 'v rbnode) list \<Rightarrow> bool" where
  "fits h [] = True"
| "fits h ((d, n) # path) \<longleftrightarrow> height n + length path \<le> h \<and> fits h path"

definition trav_fits :: "nat \<Rightarrow> 'v rbtrav \<Rightarrow> bool" where
  "trav_fits h trav \<longleftrightarrow> height (fst trav) + length (snd trav) \<le> h \<and> fits h (snd trav)"

lemma descend_fits: "trav_fits h (t, path) \<Longrightarrow> trav_fits h (descend dir t path)"
proof (induction t arbitrary: path)
  case (RBNode c k v l r)
  have "trav_fits h (if dir then r else l, (dir, RBNode c k v l r) # path)"
    using RBNode.prems by (cases dir) (auto simp: trav_fits_def)
  with RBNode show ?case by (cases dir) (auto simp: descend_node)
qed simp

lemma ascend_fits: "fits h path \<Longrightarrow> trav_fits h (ascend dir path)"
  by (induction dir path rule: ascend.induct) (auto simp: trav_fits_def)

lemma seek_fits:
  "trav_fits h (n, path) \<Longrightarrow> rbseek_from n path key cm = Some (Some trav) \<Longrightarrow> trav_fits h trav"
  by (induction n path key cm rule: rbseek_from.induct)
    (auto simp: trav_fits_def split: option.splits if_splits)

lemma move_fits:
  assumes "trav_fits h trav" "rbmove trav dir = Some trav'"
  shows "trav_fits h trav'"
proof (cases "fst trav")
  case RBNil
  then show ?thesis using assms by (cases trav) (simp add: rbmove_def)
next
  case (RBNode c k v l r)
  then obtain path where trav: "trav = (RBNode c k v l r, path)" by (cases trav) auto
  show ?thesis
  proof (cases "if dir then r else l")
    case RBNil
    then show ?thesis using assms ascend_fits by (auto simp: trav rbmove_def trav_fits_def)
  next
    case child: (RBNode c2 k2 v2 l2 r2)
    have "height (if dir then r else l) < height (RBNode c k v l r)" by (auto simp: max_def)
    then have "trav_fits h (if dir then r else l, (dir, RBNode c k v l r) # path)"
      using assms(1) by (simp add: trav trav_fits_def)
    then show ?thesis
      using assms(2) child descend_fits by (auto simp: trav rbmove_def simp del: descend.simps)
  qed
qed

lemma trav_of_fits: "trav_of t trav \<Longrightarrow> trav_fits (height (rbroot t)) trav"
proof (induction rule: trav_of.induct)
  case (start dir)
  show ?case unfolding rbstart_def by (rule descend_fits) (simp add: trav_fits_def)
next
  case (seek key cm trav)
  then show ?case unfolding rbseek_def by (rule seek_fits [rotated]) (simp add: trav_fits_def)
next
  case (move trav dir trav')
  then show ?case using move_fits by blast
qed

text \<open>
  C29: no traversal of a well-formed map of fewer than \<open>2 ^ 32 - 1\<close> entries, from either end
  or from a key, ever needs more than the \<^verbatim>\<open>HEIGHT_LIMIT\<close> places of its path.
\<close>

theorem traversal_path_bound:
  assumes "wf_map t" "rbsize t < 2 ^ 32 - 1" "trav_of t trav"
  shows "length (snd trav) < HEIGHT_LIMIT"
proof -
  have rb: "inv_h (rbroot t)" "inv_c (rbroot t)" "\<not> is_red (rbroot t)" "rbsize t = length (rb_items (rbroot t))"
    using assms(1) by (auto simp: wf_map_def rb_tree_def map_items_def)
  have "(2::nat) ^ bheight (rbroot t) < 2 ^ 32"
    using bheight_size [OF rb(1)] assms(2) rb(4) by simp
  then have "bheight (rbroot t) < 32" by (simp only: power_strict_increasing_iff)
  then have "height (rbroot t) < 64" using height_bound [OF rb(1,2)] rb(3) by simp
  then show ?thesis using trav_of_fits [OF assms(3)] by (simp add: trav_fits_def)
qed

theorem traversal_path_bound_witness:
  "wf_map sample_map \<and> rbsize sample_map < 2 ^ 32 - 1 \<and> trav_of sample_map (rbtlast sample_map) \<and>
   length (snd (rbtlast sample_map)) < 64"
proof -
  have s: "rbsize sample_map < 2 ^ 32 - 1" by (simp add: sample_map_def)
  show ?thesis
    using traversal_path_bound [OF sample_map_wf s trav_of.start [of sample_map True]] sample_map_wf s
      trav_of.start [of sample_map True] by blast
qed

end
