(* ===== verification/DbInvariants.thy ===== *)
theory DbInvariants
  imports DbFrame MapSpec "HOL-Library.Multiset"
begin

text \<open>
  The invariants of the object table: both hierarchies stay linked and free of cycles, and
  the ancestor cache stays coherent, through every operation that writes them.
\<close>

section \<open>Descent\<close>

lemma finite_family_up: "finite (family.up objs)"
proof (rule finite_subset)
  show "family.up objs \<subseteq> (\<Union>c \<in> {0..<int (length objs)}. \<Union>ob \<in> set_option (find_in objs c). {c} \<times> set (up_parents ob))"
    unfolding family.up_def by (auto dest: find_in_range split: if_splits)
qed auto

lemma family_up_valid:
  assumes "family.linked objs" "(c, p) \<in> family.up objs"
  shows "find_in objs c \<noteq> None" "find_in objs p \<noteq> None"
  using assms unfolding family.linked_def family.up_def by blast+

lemma family_rtrancl_valid:
  assumes "family.linked objs" "(a, b) \<in> (family.up objs)\<^sup>*" "a \<noteq> b"
  shows "find_in objs a \<noteq> None" "find_in objs b \<noteq> None"
  using assms(2,3) family_up_valid [OF assms(1)] by (metis converse_rtranclE, metis rtranclE)

lemma up_parents_iff: "p \<noteq> NOTHING \<Longrightarrow> p \<in> set (up_parents ob) \<longleftrightarrow> p \<in> set (o_parent_list ob)"
  by (auto simp: o_parent_list_def parent_list_def linked_parents_def split: parents.splits)

lemma family_up_iff: "(c, p) \<in> family.up objs \<longleftrightarrow> (\<exists>ob. find_in objs c = Some ob \<and> p \<in> set (up_parents ob))"
  by (simp add: family.up_def)

text \<open>What a search queues: parents, and the \<^verbatim>\<open>#-1\<close> of orphans.\<close>

definition below :: "object option list \<Rightarrow> (objid \<times> objid) set" where
  "below objs = {NOTHING} \<times> (- {NOTHING}) \<union> (family.up objs)\<inverse>"

lemma wf_below:
  assumes "family.ordered objs"
  shows "wf (below objs)"
  unfolding below_def
proof (rule wf_Un)
  show "wf ((family.up objs)\<inverse>)"
    using assms finite_family_up unfolding family.ordered_def by (simp add: finite_acyclic_wf_converse)
  show "wf ({NOTHING} \<times> (- {NOTHING}))"
    by (rule wf_subset [OF wf_measure [of "\<lambda>x. if x = NOTHING then 0 else 1"]]) (auto split: if_splits)
  show "Domain ({NOTHING} \<times> (- {NOTHING})) \<inter> Range ((family.up objs)\<inverse>) = {}"
    unfolding family.up_def by auto
qed

lemma parent_in_below:
  assumes "find_in objs a = Some ob" "p \<in> set (o_parent_list ob)"
  shows "(p, a) \<in> below objs"
proof (cases "p = NOTHING")
  case True
  then show ?thesis using assms by (auto simp: below_def)
next
  case False
  then show ?thesis using assms up_parents_iff [OF False, of ob] by (auto simp: below_def family_up_iff)
qed

lemma below_shorter: "(mset rest, mset (a # rest)) \<in> mult (below objs)"
  using one_step_implies_mult [of "{#a#}" "{#}" "below objs" "mset rest"] by simp

lemma below_expand:
  assumes "find_in objs a = Some ob"
  shows "(mset (rest @ o_parent_list ob), mset (a # rest)) \<in> mult (below objs)"
  using one_step_implies_mult [of "{#a#}" "mset (o_parent_list ob)" "below objs" "mset rest"]
    parent_in_below [OF assms] by simp

lemma parent_list_up:
  assumes "family.linked objs" "find_in objs a = Some ob"
  shows "p \<in> set (o_parent_list ob) \<Longrightarrow> p = NOTHING \<or> find_in objs p \<noteq> None"
    and "(p \<in> set (o_parent_list ob) \<and> p \<noteq> NOTHING) \<longleftrightarrow> (a, p) \<in> family.up objs"
proof -
  show iff: "(p \<in> set (o_parent_list ob) \<and> p \<noteq> NOTHING) \<longleftrightarrow> (a, p) \<in> family.up objs" for p
    using assms(2) family_up_valid(2) [OF assms(1), of a p] up_parents_iff [of p ob]
    by (cases "p = NOTHING") (auto simp: family_up_iff)
  show "p \<in> set (o_parent_list ob) \<Longrightarrow> p = NOTHING \<or> find_in objs p \<noteq> None"
    using iff [of p] family_up_valid(2) [OF assms(1), of a p] by auto
qed

lemma rtrancl_first: "a \<noteq> p \<Longrightarrow> (a, p) \<in> R\<^sup>* \<longleftrightarrow> (\<exists>b. (a, b) \<in> R \<and> (b, p) \<in> R\<^sup>*)"
  by (auto elim: converse_rtranclE intro: converse_rtrancl_into_rtrancl)

lemma parents_reach:
  assumes "family.linked objs" "find_in objs a = Some ob" "a \<noteq> p"
  shows "(\<exists>b \<in> set (o_parent_list ob). b \<noteq> NOTHING \<and> (b, p) \<in> (family.up objs)\<^sup>*) \<longleftrightarrow> (a, p) \<in> (family.up objs)\<^sup>*"
  unfolding rtrancl_first [OF assms(3)] parent_list_up(2) [OF assms(1,2), symmetric] by blast

lemma isa_loop_ok:
  assumes ord: "family.ordered (objects d)"
  shows "\<forall>a \<in> set queue. a = NOTHING \<or> find_in (objects d) a \<noteq> None \<Longrightarrow>
    isa_loop d parent queue =
      Some (\<exists>a \<in> set queue. \<exists>p. parent = Perm p \<and> a \<noteq> NOTHING \<and> (a, p) \<in> (family.up (objects d))\<^sup>*)"
proof (induction "mset queue" arbitrary: queue rule: wf_induct_rule [OF wf_mult [OF wf_below [OF ord]]])
  case 1
  let ?up = "family.up (objects d)"
  have L: "family.linked (objects d)" using ord by (simp add: family.ordered_def)
  show ?case
  proof (cases queue)
    case Nil
    then show ?thesis by (subst isa_loop.simps) simp
  next
    case (Cons a rest)
    consider (orphan) "a = NOTHING" | (found) "a \<noteq> NOTHING" "Perm a = parent" | (deeper) "a \<noteq> NOTHING" "Perm a \<noteq> parent" by blast
    then show ?thesis
    proof cases
      case orphan
      have "isa_loop d parent rest = Some (\<exists>a \<in> set rest. \<exists>p. parent = Perm p \<and> a \<noteq> NOTHING \<and> (a, p) \<in> ?up\<^sup>*)"
        by (rule 1(1)) (use 1(2) Cons below_shorter in auto)
      then show ?thesis using orphan Cons isa_loop.simps [of d parent "a # rest"] by simp
    next
      case found
      then show ?thesis using Cons by (subst isa_loop.simps) auto
    next
      case deeper
      with 1(2) Cons obtain t where t: "find_in (objects d) a = Some t" by auto
      have "isa_loop d parent (rest @ o_parent_list t) = Some (\<exists>b \<in> set (rest @ o_parent_list t).
          \<exists>p. parent = Perm p \<and> b \<noteq> NOTHING \<and> (b, p) \<in> ?up\<^sup>*)"
        by (rule 1(1)) (use 1(2) Cons below_expand [OF t] parent_list_up(1) [OF L t] in auto)
      moreover have "(\<exists>b \<in> set (o_parent_list t). \<exists>p. parent = Perm p \<and> b \<noteq> NOTHING \<and> (b, p) \<in> ?up\<^sup>*) \<longleftrightarrow>
          (\<exists>p. parent = Perm p \<and> (a, p) \<in> ?up\<^sup>*)"
        using deeper by (cases parent) (auto simp: parents_reach [OF L t])
      ultimately show ?thesis
        using deeper t isa_loop.simps [of d parent "a # rest"] unfolding Cons
        by (simp add: dbpriv_find_object_def bex_Un disj_commute)
    qed
  qed
qed

lemma db_object_isa_iff:
  assumes "family.ordered (objects d)" and "valid d x"
  shows "db_object_isa d (Perm x) (Perm p) = Some ((x, p) \<in> (family.up (objects d))\<^sup>*)"
proof -
  have L: "family.linked (objects d)" using assms(1) by (simp add: family.ordered_def)
  obtain ob where ob: "find_in (objects d) x = Some ob" using assms(2) by (auto simp: valid_find)
  have "isa_loop d (Perm p) (o_parent_list ob) =
      Some (\<exists>a \<in> set (o_parent_list ob). a \<noteq> NOTHING \<and> (a, p) \<in> (family.up (objects d))\<^sup>*)"
    using isa_loop_ok [OF assms(1), of "o_parent_list ob" "Perm p"] parent_list_up(1) [OF L ob] by simp
  then show ?thesis
    using ob by (cases "x = p") (simp_all add: db_object_isa_def dbpriv_find_object_def parents_reach [OF L ob])
qed

section \<open>What the walks return\<close>

lemma set_walk_from:
  assumes "find_in objs x = Some ob"
  shows "set (walk objs fld (fld ob) []) = {y. (edge objs fld)\<^sup>+\<^sup>+ x y}"
proof -
  have "edge objs fld x a \<longleftrightarrow> a \<in> set (fld ob) \<and> find_in objs a \<noteq> None" for a
    using assms by (auto simp: edge_def)
  then show ?thesis unfolding set_walk tranclp_unfold_left by (auto simp del: not_None_eq) blast+
qed

lemma tranclp_edge_up:
  assumes "\<And>a b. edge objs fld a b \<longleftrightarrow> (a, b) \<in> R"
  shows "(edge objs fld)\<^sup>+\<^sup>+ x y \<longleftrightarrow> (x, y) \<in> R\<^sup>+"
proof -
  have "edge objs fld = (\<lambda>a b. (a, b) \<in> R)" using assms by (intro ext) simp
  then show ?thesis by (simp add: trancl_def)
qed

lemma edge_children:
  assumes "family.linked objs"
  shows "edge objs o_children a b \<longleftrightarrow> (b, a) \<in> family.up objs"
  using assms unfolding edge_def family.linked_def family.up_def by blast

lemma edge_parents:
  assumes "family.linked objs"
  shows "edge objs o_parent_list a b \<longleftrightarrow> (a, b) \<in> family.up objs"
proof -
  have "b \<noteq> NOTHING" if "find_in objs b \<noteq> None" using that by auto
  then show ?thesis
    using parent_list_up(2) [OF assms, of a] family_up_valid [OF assms, of a b] unfolding edge_def by auto
qed

lemma walk_descendants:
  assumes "family.linked objs" "find_in objs x = Some ob"
  shows "set (walk objs o_children (o_children ob) []) = {y. (y, x) \<in> (family.up objs)\<^sup>+}"
  unfolding set_walk_from [where fld = o_children, OF assms(2)]
  using tranclp_edge_up [of objs o_children "(family.up objs)\<inverse>"] edge_children [OF assms(1)]
  by (auto simp: trancl_converse)

lemma walk_ancestors:
  assumes "family.linked objs" "find_in objs x = Some ob"
  shows "set (walk objs o_parent_list (o_parent_list ob) []) = {y. (x, y) \<in> (family.up objs)\<^sup>+}"
  unfolding set_walk_from [where fld = o_parent_list, OF assms(2)]
  using tranclp_edge_up [of objs o_parent_list "family.up objs"] edge_parents [OF assms(1)] by auto

lemma db_descendants_eq:
  assumes "dbpriv_find_object d x = Some ob"
  shows "db_descendants d (Perm x) full =
    Some (map Perm ((if full then [x] else []) @ walk (objects d) o_children (o_children ob) []))"
  using assms by (auto simp: db_descendants_def db_walk_def db2_add_walk)

section \<open>The invariant of the table\<close>

definition db_ok :: "db \<Rightarrow> bool" where
  "db_ok d \<longleftrightarrow> family.ordered (objects d) \<and> places.ordered (objects d) \<and> cache_ok d"

lemma shape_read:
  "shape d' = shape d \<Longrightarrow>
   map_option (\<lambda>ob. f (skeleton ob)) (find_in (objects d') q) = map_option (\<lambda>ob. f (skeleton ob)) (find_in (objects d) q)"
  using arg_cong [OF same_shape_find [of d' d q], of "map_option f"]
  by (simp add: dbpriv_find_object_def option.map_comp comp_def)

lemma family_same_shape:
  assumes "shape d' = shape d"
  shows "family.ordered (objects d') = family.ordered (objects d)" "family.up (objects d') = family.up (objects d)"
proof -
  have "map_option (\<lambda>ob. (up_parents ob, o_children ob)) (find_in (objects d') q) =
      map_option (\<lambda>ob. (up_parents ob, o_children ob)) (find_in (objects d) q)" for q
    using shape_read [OF assms, of "\<lambda>(i, ps, cs, l, ct, vs). (linked_parents ps, cs)"] by (simp add: skeleton_def)
  from family.ordered_cong(3,1) [OF this]
  show "family.ordered (objects d') = family.ordered (objects d)" "family.up (objects d') = family.up (objects d)" .
qed

lemma places_same_shape:
  assumes "shape d' = shape d"
  shows "places.ordered (objects d') = places.ordered (objects d)"
  by (rule places.ordered_cong(3))
    (use shape_read [OF assms, of "\<lambda>(i, ps, cs, l, ct, vs). (if l = NOTHING then [] else [l], ct)"]
     in \<open>simp add: skeleton_def\<close>)

lemma parents_same_shape:
  "shape d' = shape d \<Longrightarrow> map_option o_parents (find_in (objects d') q) = map_option o_parents (find_in (objects d) q)"
  using shape_read [of d' d "\<lambda>(i, ps, cs, l, ct, vs). ps"] by (simp add: skeleton_def)

lemma verbs_same_shape:
  "shape d' = shape d \<Longrightarrow> map_option o_verbdefs (find_in (objects d') q) = map_option o_verbdefs (find_in (objects d) q)"
  using shape_read [of d' d "\<lambda>(i, ps, cs, l, ct, vs). vs"] by (simp add: skeleton_def)

lemma db_ok_same_shape: "same_shape d d' \<Longrightarrow> db_ok d \<Longrightarrow> db_ok d'"
  unfolding same_shape_def db_ok_def using family_same_shape(1) places_same_shape by blast

section \<open>Changing parents\<close>

lemma invalidate_keeps_cache:
  assumes c: "cache_ok d" and ord: "family.linked (objects d')" and c': "ancestor_cache d' = ancestor_cache d"
    and find: "\<And>q. find_in (objects d') q =
       map_option (\<lambda>oq. if q = x then oq\<lparr>o_children := cs q oq, o_parents := new\<rparr>
                         else oq\<lparr>o_children := cs q oq\<rparr>) (find_in (objects d) q)"
    and inv: "invalidate_below (Perm x) d' = Some d2"
  shows "cache_ok d2"
proof -
  obtain ds where ds: "db_descendants d' (Perm x) True = Some ds"
    and d2: "d2 = d'\<lparr>ancestor_cache := \<lambda>y. if Perm y \<in> set ds then None else ancestor_cache d' y\<rparr>"
    using inv by (auto simp: invalidate_below_def)
  then obtain ox where ox: "find_in (objects d') x = Some ox"
    by (auto simp: db_descendants_def db_walk_def dbpriv_find_object_def split: option.splits)
  have far: "(y, x) \<notin> (family.up (objects d'))\<^sup>*" if "Perm y \<notin> set ds" for y
    using that ds db_descendants_eq [of d' x ox True] ox walk_descendants [OF ord ox]
    by (auto simp: dbpriv_find_object_def rtrancl_eq_or_trancl)
  let ?A = "{v. (v, x) \<notin> (family.up (objects d'))\<^sup>*}"
  have parents: "o_parents oq' = o_parents oq \<and> o_id oq' = o_id oq"
    if "q \<in> ?A" "find_in (objects d) q = Some oq" "find_in (objects d') q = Some oq'" for q oq oq'
    using that find [of q] by auto
  have closed: "set (o_parent_list oq') \<subseteq> ?A" if "q \<in> ?A" "find_in (objects d') q = Some oq'" for q oq'
  proof
    fix p assume p: "p \<in> set (o_parent_list oq')"
    show "p \<in> ?A"
    proof (cases "p = NOTHING")
      case True
      then show ?thesis using family_rtrancl_valid(1) [OF ord, of p x] ox by (cases "x = NOTHING") auto
    next
      case False
      then have "(q, p) \<in> family.up (objects d')" using parent_list_up(2) [OF ord that(2), of p] p by blast
      then show ?thesis using that(1) by (auto intro: converse_rtrancl_into_rtrancl)
    qed
  qed
  have walk: "walk (objects d') o_parent_list stack [] = walk (objects d) o_parent_list stack []"
    if "set stack \<subseteq> ?A" for stack
  proof (rule walk_agree [where A = ?A, OF that])
    show "find_in (objects d') v = None \<longleftrightarrow> find_in (objects d) v = None" for v by (simp add: find)
    show "o_parent_list oq' = o_parent_list oq \<and> set (o_parent_list oq') \<subseteq> ?A"
      if "v \<in> ?A" "find_in (objects d') v = Some oq'" "find_in (objects d) v = Some oq" for v oq oq'
      using parents [OF that(1,3,2)] closed [OF that(1,2)] unfolding o_parent_list_def by (intro conjI) simp_all
  qed
  show ?thesis unfolding cache_ok_def
  proof (intro allI impI)
    fix oid ob' assume f2: "dbpriv_find_object d2 oid = Some ob'"
    then have f': "find_in (objects d') oid = Some ob'" by (simp add: d2 dbpriv_find_object_def)
    then obtain ob where f: "find_in (objects d) oid = Some ob" "o_id ob' = o_id ob"
      using find [of oid] by (auto split: if_splits)
    note cc = c [unfolded cache_ok_def dbpriv_find_object_def, rule_format, OF f(1)]
    have "as = walk (objects d2) o_parent_list (o_parent_list ob') []"
      if "o_parents ob' \<noteq> POne NOTHING" "ancestor_cache d2 oid = Some as" for as
    proof -
      have out: "Perm oid \<notin> set ds" and as: "ancestor_cache d oid = Some as"
        using that(2) by (auto simp: d2 c' split: if_splits)
      then have A: "oid \<in> ?A" using far by blast
      have ps: "o_parents ob = o_parents ob'" using parents [OF A f(1) f'] by simp
      then have "as = walk (objects d) o_parent_list (o_parent_list ob) []" using cc as that(1) by simp
      with walk [OF closed [OF A f']] ps show ?thesis by (simp add: d2 o_parent_list_def)
    qed
    with cc f(2) show "o_id ob' = oid \<and> (o_parents ob' \<noteq> POne NOTHING \<longrightarrow>
        (\<forall>as. ancestor_cache d2 oid = Some as \<longrightarrow> as = walk (objects d2) o_parent_list (o_parent_list ob') []))"
      by simp
  qed
qed

lemma sbindE:
  assumes "sbind m f d = Some r"
  obtains x d1 where "m d = Some (x, d1)" "f x d1 = Some r"
  using assms by (auto simp: sbind_def split: option.splits prod.splits)

lemma apply_change_ok:
  assumes ok: "db_ok d" and x: "dbpriv_find_object d x = Some ob"
    and new: "\<forall>p \<in> set (linked_parents new_parents). valid d p \<and> (p, x) \<notin> (family.up (objects d))\<^sup>*"
    and run: "apply_change (Perm x) ob new_parents kids d = Some (b, d')"
  shows "db_ok d' \<and> b \<and> map_option o_parents (dbpriv_find_object d' x) = Some new_parents \<and>
    family.up (objects d') = {(c, p) \<in> family.up (objects d). c \<noteq> x} \<union> {x} \<times> set (linked_parents new_parents) \<and>
    vc_table d' = vc_table (if o_verbdefs ob = [] \<and> o_children ob = [] then d
                            else db_priv_affected_callable_verb_lookup d) \<and>
    (\<forall>q. map_option o_verbdefs (find_in (objects d') q) = map_option o_verbdefs (find_in (objects d) q) \<and>
       (q \<noteq> x \<longrightarrow> map_option o_parents (find_in (objects d') q) = map_option o_parents (find_in (objects d) q))) \<and>
    (\<forall>a. map_option skeleton (anon_store d' a) = map_option skeleton (anon_store d a))"
proof -
  obtain d1 olds d2 d3 d4 news d5 where
    d1: "d1 = (if o_verbdefs ob = [] \<and> o_children ob = [] then d else db_priv_affected_callable_verb_lookup d)"
    and d2: "db_ancestors (Perm x) True d1 = Some (olds, d2)"
    and d3: "relink_parents (Perm x) (o_parents ob) new_parents d2 = Some d3"
    and d4: "invalidate_below (Perm x) (upd_ref (Perm x) (\<lambda>ob. ob\<lparr>o_parents := new_parents\<rparr>) d3) = Some d4"
    and d5: "db_ancestors (Perm x) True d4 = Some (news, d5)"
    and d': "dbpriv_fix_properties_after_chparent (Perm x) olds news kids d5 = Some d'" and b
    using run unfolding apply_change_def
    by (auto simp: smodify_def sreturn_def map_option_case simp del: upd_ref.simps elim!: sbindE split: option.splits)
  have o1: "objects d1 = objects d" "ancestor_cache d1 = ancestor_cache d" and anon1: "anon_store d1 = anon_store d"
    by (auto simp: d1 db_priv_affected_callable_verb_lookup_def split: option.split)
  have c1: "cache_ok d1" using ok o1 by (simp add: db_ok_def cache_ok_def dbpriv_find_object_def)
  from db_ancestors_ok [OF c1, of "Perm x" ob True] x d2 o1 have c2: "cache_ok d2"
    and f2: "d2 = d1\<lparr>ancestor_cache := ancestor_cache d2\<rparr>" by (auto simp: dbpriv_find_object_def)
  have o2: "objects d2 = objects d" using o1 f2 by (metis db.ext_inject db.surjective db.update_convs(7))
  let ?d = "upd_ref (Perm x) (\<lambda>ob. ob\<lparr>o_parents := new_parents\<rparr>) d3"
  have L: "family.linked (objects d2)" using ok o2 by (simp add: db_ok_def family.ordered_def)
  have x2: "dbpriv_find_object d2 x = Some ob" using x o2 by (simp add: dbpriv_find_object_def)
  have new2: "\<forall>p \<in> set (linked_parents new_parents). valid d2 p" using new o2 by (simp add: valid_find)
  from relink_parents_ok [OF L x2 new2] d3 obtain cs where
    f3: "d3 = d2\<lparr>objects := objects d3\<rparr>" and
    rel: "family.relinked x (linked_parents new_parents) (objects d) (objects ?d)" and
    find: "\<And>q. find_in (objects ?d) q =
       map_option (\<lambda>oq. if q = x then oq\<lparr>o_children := cs q oq, o_parents := new_parents\<rparr>
                         else oq\<lparr>o_children := cs q oq\<rparr>) (find_in (objects d) q)"
    unfolding o2 by auto
  have fx: "find_in (objects d) x \<noteq> None" using x by (simp add: dbpriv_find_object_def)
  have fam: "family.ordered (objects ?d)"
    using family.ordered_relinked [OF _ rel fx] ok new by (simp add: db_ok_def valid_find)
  have "map_option (\<lambda>ob. (up_location ob, o_contents ob)) (find_in (objects ?d) q) =
      map_option (\<lambda>ob. (up_location ob, o_contents ob)) (find_in (objects d) q)" for q
    unfolding find by (cases "find_in (objects d) q") auto
  from places.ordered_cong(3) [OF this] have pl: "places.ordered (objects ?d)" using ok by (simp add: db_ok_def)
  have cache: "ancestor_cache ?d = ancestor_cache d2"
    using f3 by (simp add: upd_obj_def split: option.split) (metis db.ext_inject db.surjective db.update_convs(1))
  have c4: "cache_ok d4"
    by (rule invalidate_keeps_cache [OF c2 _ cache find [folded o2] d4]) (use fam in \<open>simp add: family.ordered_def\<close>)
  have o4: "objects d4 = objects ?d" using d4 by (auto simp: invalidate_below_def)
  have ok4: "db_ok d4" using fam pl c4 by (simp add: db_ok_def o4)
  have "same_shape d4 d5" by (rule fr.keepsD [OF keeps_db_ancestors d5])
  moreover have "same_shape d5 d'"
    using updates_fix_properties d' unfolding fr.updates_def dbpriv_fix_properties_after_chparent_def by blast
  ultimately have same: "same_shape d4 d'" by (rule fr.trans)
  then have sh: "shape d' = shape d4" by (simp add: same_shape_def)
  have "family.up (objects d') = {(c, p) \<in> family.up (objects d). c \<noteq> x} \<union> {x} \<times> set (linked_parents new_parents)"
    unfolding family_same_shape(2) [OF sh] o4 by (rule family.up_relinked [OF rel fx])
  moreover have "map_option o_parents (dbpriv_find_object d' x) = Some new_parents"
    unfolding dbpriv_find_object_def parents_same_shape [OF sh] o4 find using fx by auto
  moreover have "vc_table d' = vc_table d1" "anon_store d4 = anon_store d"
  proof -
    have "vc_table d3 = vc_table d2" "anon_store d3 = anon_store d2" by (subst f3, simp)+
    moreover have "vc_table d2 = vc_table d1" "anon_store d2 = anon_store d1" by (subst f2, simp)+
    ultimately have "vc_table d3 = vc_table d1" "anon_store d3 = anon_store d" by (simp_all add: anon1)
    then show "vc_table d' = vc_table d1" "anon_store d4 = anon_store d"
      using same d4 by (auto simp: same_shape_def invalidate_below_def upd_obj_def split: option.splits)
  qed
  moreover have "map_option o_verbdefs (find_in (objects d') q) = map_option o_verbdefs (find_in (objects d) q)"
    "q \<noteq> x \<Longrightarrow> map_option o_parents (find_in (objects d') q) = map_option o_parents (find_in (objects d) q)" for q
  proof -
    show "map_option o_verbdefs (find_in (objects d') q) = map_option o_verbdefs (find_in (objects d) q)"
      unfolding verbs_same_shape [OF sh] o4 find by (simp add: option.map_comp comp_def if_distrib cong: if_cong)
    show "map_option o_parents (find_in (objects d') q) = map_option o_parents (find_in (objects d) q)" if "q \<noteq> x"
      unfolding parents_same_shape [OF sh] o4 find using that by (simp add: option.map_comp comp_def)
  qed
  ultimately show ?thesis using db_ok_same_shape [OF same ok4] \<open>b\<close> same d1
    by (simp add: same_shape_def)
qed

section \<open>Changing location\<close>

lemma cache_ok_cong:
  assumes "\<And>q. map_option (\<lambda>ob. (o_id ob, o_parents ob)) (find_in (objects d') q) =
      map_option (\<lambda>ob. (o_id ob, o_parents ob)) (find_in (objects d) q)"
    and "ancestor_cache d' = ancestor_cache d" and "cache_ok d"
  shows "cache_ok d'"
proof -
  have old: "\<exists>ob. find_in (objects d) q = Some ob \<and> o_id ob = o_id ob' \<and> o_parents ob = o_parents ob'"
    if "find_in (objects d') q = Some ob'" for q ob'
    using assms(1) [of q] that by (cases "find_in (objects d) q") auto
  have walk: "walk (objects d') o_parent_list st [] = walk (objects d) o_parent_list st []" for st
  proof (rule walk_agree [where A = UNIV])
    fix v
    show "find_in (objects d') v = None \<longleftrightarrow> find_in (objects d) v = None"
      using arg_cong [OF assms(1) [of v], of "\<lambda>z. z = None"] by simp
    show "o_parent_list oq' = o_parent_list oq \<and> set (o_parent_list oq') \<subseteq> UNIV"
      if "find_in (objects d') v = Some oq'" "find_in (objects d) v = Some oq" for oq oq'
      using old [OF that(1)] that(2) unfolding o_parent_list_def by auto
  qed simp
  show ?thesis unfolding cache_ok_def dbpriv_find_object_def
  proof (intro allI impI)
    fix oid ob' assume "find_in (objects d') oid = Some ob'"
    from old [OF this] obtain ob where
      ob: "find_in (objects d) oid = Some ob" "o_id ob = o_id ob'" "o_parents ob = o_parents ob'" by blast
    from assms(3) [unfolded cache_ok_def dbpriv_find_object_def, rule_format, OF ob(1)] ob(2,3)
    show "o_id ob' = oid \<and> (o_parents ob' \<noteq> POne NOTHING \<longrightarrow> (\<forall>as. ancestor_cache d' oid = Some as \<longrightarrow>
        as = walk (objects d') o_parent_list (o_parent_list ob') []))"
      by (simp add: walk assms(2) o_parent_list_def)
  qed
qed

lemma db_ok_places:
  assumes ok: "db_ok d" and pl: "places.ordered (objects d')"
    and eq: "\<And>q. map_option (\<lambda>ob. (o_id ob, o_parents ob, o_children ob)) (find_in (objects d') q) =
      map_option (\<lambda>ob. (o_id ob, o_parents ob, o_children ob)) (find_in (objects d) q)"
    and "ancestor_cache d' = ancestor_cache d"
  shows "db_ok d'"
proof -
  have rd: "map_option (\<lambda>ob. f (o_id ob, o_parents ob, o_children ob)) (find_in (objects d') q) =
      map_option (\<lambda>ob. f (o_id ob, o_parents ob, o_children ob)) (find_in (objects d) q)" for f :: "_ \<Rightarrow> 'a" and q
    using arg_cong [OF eq [of q], of "map_option f"] by (simp add: option.map_comp comp_def)
  have "family.ordered (objects d')"
    using family.ordered_cong(3) [of "objects d'" "objects d"] rd [of "\<lambda>(i, ps, cs). (linked_parents ps, cs)"] ok
    by (simp add: db_ok_def)
  moreover have "cache_ok d'"
    by (rule cache_ok_cong [of d' d])
      (use rd [of "\<lambda>(i, ps, cs). (i, ps)"] assms(4) ok in \<open>simp_all add: db_ok_def\<close>)
  ultimately show ?thesis using pl by (simp add: db_ok_def)
qed

lemma wf_map_empty: "wf_map map_empty"
  by (simp add: wf_map_def map_empty_def rbnew_def map_items_def rb_tree_def)

lemma note_move_returns:
  assumes "\<And>t. lm = VMAP t \<Longrightarrow> wf_map t"
  shows "\<exists>t. note_move shared now old lm = Some (VMAP t) \<and> wf_map t"
proof -
  define sh t where "sh = (case lm of VMAP t \<Rightarrow> shared | _ \<Rightarrow> True)" and "t = (case lm of VMAP t \<Rightarrow> t | _ \<Rightarrow> map_empty)"
  have k: "ordinary_key (VSTR ''time'')" "ordinary_key (VSTR ''source'')"
    by (simp_all add: c_string_def byte_of_def)
  have "wf_map t" using assms wf_map_empty by (auto simp: t_def split: var.split)
  from mk.mapinsert_ok [of t "VSTR ''time''" sh "VINT now"] this k obtain t1 where
    t1: "mapinsert sh t (VSTR ''time'') (VINT now) = Some t1" "wf_map t1"
    using ordinary_key_plain by (auto simp: wf_map_iff)
  from mk.mapinsert_ok [of t1 "VSTR ''source''" False "VOBJ old"] this k obtain t2 where
    "mapinsert False t1 (VSTR ''source'') (VOBJ old) = Some t2" "wf_map t2"
    using ordinary_key_plain by (auto simp: wf_map_iff)
  with t1 show ?thesis by (cases lm) (auto simp: note_move_def sh_def t_def)
qed

lemma db_change_location_eq:
  assumes "dbpriv_find_object d x = Some ob"
  shows "db_change_location clear shared now x new position d =
    (let d3 = move_writes x (o_location ob) new position d in
     if clear then Some d3
     else map_option (\<lambda>lm. upd_obj x (\<lambda>ob. ob\<lparr>o_last_move := lm\<rparr>) d3)
            (note_move shared now (o_location ob) (o_last_move ob)))"
  using assms by (simp add: db_change_location_def move_writes_def Let_def)

lemma upd_obj_read:
  assumes "\<And>ob. g (f ob) = g ob"
  shows "map_option g (find_in (objects (upd_obj oid f d)) q) = map_option g (find_in (objects d) q)"
  using find_upd_obj [of oid f d q] assms
  by (simp add: dbpriv_find_object_def option.map_comp comp_def)

lemma move_writes_keeps:
  "map_option (\<lambda>ob. (o_id ob, o_parents ob, o_children ob)) (find_in (objects (move_writes x old new position d)) q) =
   map_option (\<lambda>ob. (o_id ob, o_parents ob, o_children ob)) (find_in (objects d) q)"
  "ancestor_cache (move_writes x old new position d) = ancestor_cache d"
proof -
  show "map_option (\<lambda>ob. (o_id ob, o_parents ob, o_children ob)) (find_in (objects (move_writes x old new position d)) q) =
      map_option (\<lambda>ob. (o_id ob, o_parents ob, o_children ob)) (find_in (objects d) q)"
    by (simp add: move_writes_def upd_obj_read)
  have "ancestor_cache (upd_obj q f d) = ancestor_cache d" for q f d
    by (simp add: upd_obj_def split: option.split)
  then show "ancestor_cache (move_writes x old new position d) = ancestor_cache d"
    by (simp add: move_writes_def)
qed

lemma move_ok:
  assumes ok: "db_ok d" and x: "dbpriv_find_object d x = Some ob"
    and new: "new = NOTHING \<or> valid d new \<and> (new, x) \<notin> (places.up (objects d))\<^sup>*"
  shows "db_ok (move_writes x (o_location ob) new position d)"
    and "places.up (objects (move_writes x (o_location ob) new position d)) =
      {(c, p) \<in> places.up (objects d). c \<noteq> x} \<union> {x} \<times> set (if new = NOTHING then [] else [new])"
proof -
  have pl: "places.ordered (objects d)" using ok by (simp add: db_ok_def)
  have fx: "find_in (objects d) x \<noteq> None" using x by (simp add: dbpriv_find_object_def)
  have rel: "places.relinked x (if new = NOTHING then [] else [new]) (objects d)
      (objects (move_writes x (o_location ob) new position d))"
    by (rule move_writes_ok) (use pl x new in \<open>auto simp: places.ordered_def\<close>)
  have "places.ordered (objects (move_writes x (o_location ob) new position d))"
    by (rule places.ordered_relinked [OF pl rel fx]) (use new in \<open>auto simp: valid_find\<close>)
  then show "db_ok (move_writes x (o_location ob) new position d)"
    by (rule db_ok_places [OF ok _ move_writes_keeps])
  show "places.up (objects (move_writes x (o_location ob) new position d)) =
      {(c, p) \<in> places.up (objects d). c \<noteq> x} \<union> {x} \<times> set (if new = NOTHING then [] else [new])"
    by (rule places.up_relinked [OF rel fx])
qed

lemma last_move_shape: "shape (upd_obj x (\<lambda>ob. ob\<lparr>o_last_move := lm\<rparr>) d) = shape d"
  by (rule shape_upd_obj) simp

lemma db_change_location_ok:
  assumes ok: "db_ok d" and x: "dbpriv_find_object d x = Some ob"
    and new: "new = NOTHING \<or> valid d new \<and> (new, x) \<notin> (places.up (objects d))\<^sup>*"
    and lm: "clear \<or> (\<forall>t. o_last_move ob = VMAP t \<longrightarrow> wf_map t)"
  shows "\<exists>d'. db_change_location clear shared now x new position d = Some d' \<and> db_ok d' \<and>
    places.up (objects d') = {(c, p) \<in> places.up (objects d). c \<noteq> x} \<union> {x} \<times> set (if new = NOTHING then [] else [new])"
proof (cases clear)
  case True
  then show ?thesis using move_ok [OF ok x new, of position] by (simp add: db_change_location_eq [OF x])
next
  case False
  then obtain t where t: "note_move shared now (o_location ob) (o_last_move ob) = Some (VMAP t)"
    using lm note_move_returns by blast
  let ?d3 = "move_writes x (o_location ob) new position d"
  let ?d4 = "upd_obj x (\<lambda>ob. ob\<lparr>o_last_move := VMAP t\<rparr>) ?d3"
  have "same_shape ?d3 (upd_ref (Perm x) (\<lambda>ob. ob\<lparr>o_last_move := VMAP t\<rparr>) ?d3)"
    by (rule same_shape_upd_ref) simp
  then have "db_ok ?d4" using db_ok_same_shape [OF _ move_ok(1) [OF ok x new, of position]] by simp
  moreover have "places.up (objects ?d4) = places.up (objects ?d3)"
    by (rule places.ordered_cong(1))
      (use shape_read [OF last_move_shape, of "\<lambda>(i, ps, cs, l, ct, vs). (if l = NOTHING then [] else [l], ct)"]
       in \<open>simp add: skeleton_def\<close>)
  ultimately show ?thesis
    using False t move_ok(2) [OF ok x new, of position] by (simp add: db_change_location_eq [OF x])
qed

section \<open>Creation and destruction\<close>

context hierarchy
begin

definition isolated :: "objid \<Rightarrow> object option list \<Rightarrow> bool" where
  "isolated x objs \<longleftrightarrow> (\<forall>ob. find_in objs x = Some ob \<longrightarrow> ups ob = [] \<and> downs ob = [])"

lemma isolated_no_links:
  assumes "linked objs" "isolated x objs"
  shows "(x, p) \<notin> up objs" "(p, x) \<notin> up objs"
proof -
  show "(x, p) \<notin> up objs" using assms(2) by (auto simp: isolated_def up_def)
  have "(p, x) \<in> up objs \<longleftrightarrow> (\<exists>op. find_in objs x = Some op \<and> p \<in> set (downs op))"
    using assms(1) unfolding linked_def by blast
  then show "(p, x) \<notin> up objs" using assms(2) by (auto simp: isolated_def)
qed

text \<open>An object without links comes or goes: the rest of the hierarchy stays.\<close>

lemma ordered_isolated:
  assumes "ordered objs" "isolated x objs" "isolated x objs'"
    and eq: "\<And>q. q \<noteq> x \<Longrightarrow> find_in objs' q = find_in objs q"
  shows "up objs' = up objs" "ordered objs'"
proof -
  have L: "linked objs" using assms(1) by (simp add: ordered_def)
  have nox: "(x, p) \<notin> up objs'" for p using assms(3) by (auto simp: up_def isolated_def)
  have "(c, p) \<in> up objs' \<longleftrightarrow> (c, p) \<in> up objs" for c p
    using eq [of c] nox isolated_no_links(1) [OF L assms(2)] by (cases "c = x") (auto simp: up_def)
  then show u: "up objs' = up objs" by auto
  have "(c, p) \<in> up objs' \<longleftrightarrow> (\<exists>op. find_in objs' p = Some op \<and> c \<in> set (downs op))" for c p
  proof (cases "p = x")
    case True
    then show ?thesis using isolated_no_links(2) [OF L assms(2)] assms(3) by (auto simp: u isolated_def)
  next
    case False
    then show ?thesis unfolding u eq [OF False] using L by (simp add: linked_def)
  qed
  moreover have "distinct (downs op)" if "find_in objs' p = Some op" for p op
    using that assms(3) L eq [of p] by (cases "p = x") (auto simp: isolated_def linked_def)
  ultimately have "linked objs'" by (simp add: linked_def)
  then show "ordered objs'" using assms(1) by (simp add: ordered_def u)
qed

end

lemma db_ok_isolated:
  assumes ok: "db_ok d"
    and iso: "family.isolated x (objects d)" "family.isolated x (objects d')"
      "places.isolated x (objects d)" "places.isolated x (objects d')"
    and eq: "\<And>q. q \<noteq> x \<Longrightarrow> find_in (objects d') q = find_in (objects d) q"
    and cache: "ancestor_cache d' = ancestor_cache d"
    and new: "\<And>ob. find_in (objects d') x = Some ob \<Longrightarrow> o_id ob = x \<and> o_parents ob = POne NOTHING"
  shows "db_ok d'"
proof -
  have fo: "family.ordered (objects d)" and po: "places.ordered (objects d)" and c: "cache_ok d"
    using ok by (auto simp: db_ok_def)
  have L: "family.linked (objects d)" using fo by (simp add: family.ordered_def)
  have step: "p \<noteq> x \<or> x = NOTHING" if "find_in (objects d) q = Some oq" "p \<in> set (o_parent_list oq)" for p q oq
    using parent_list_up(2) [OF L that(1), of p] that(2) family.isolated_no_links(2) [OF L iso(1), of q] by auto
  have walk: "walk (objects d') o_parent_list st [] = walk (objects d) o_parent_list st []"
    if "set st \<subseteq> {v. v \<noteq> x \<or> x = NOTHING}" for st
  proof (rule walk_agree [OF that])
    show "find_in (objects d') v = None \<longleftrightarrow> find_in (objects d) v = None" if "v \<in> {v. v \<noteq> x \<or> x = NOTHING}" for v
      using eq [of v] that by (cases "v = x") auto
    show "o_parent_list oq' = o_parent_list oq \<and> set (o_parent_list oq') \<subseteq> {v. v \<noteq> x \<or> x = NOTHING}"
      if "v \<in> {v. v \<noteq> x \<or> x = NOTHING}" "find_in (objects d') v = Some oq'" "find_in (objects d) v = Some oq" for v oq oq'
      using that step [OF that(3)] eq [of v] by (cases "v = x") auto
  qed
  have "cache_ok d'" unfolding cache_ok_def dbpriv_find_object_def
  proof (intro allI impI)
    fix oid ob assume f: "find_in (objects d') oid = Some ob"
    show "o_id ob = oid \<and> (o_parents ob \<noteq> POne NOTHING \<longrightarrow> (\<forall>as. ancestor_cache d' oid = Some as \<longrightarrow>
        as = walk (objects d') o_parent_list (o_parent_list ob) []))"
    proof (cases "oid = x")
      case True
      then show ?thesis using new f by auto
    next
      case False
      with f eq have f0: "find_in (objects d) oid = Some ob" by simp
      have "walk (objects d') o_parent_list (o_parent_list ob) [] = walk (objects d) o_parent_list (o_parent_list ob) []"
        by (rule walk) (use step [OF f0] in auto)
      with c [unfolded cache_ok_def dbpriv_find_object_def, rule_format, OF f0] cache show ?thesis by simp
    qed
  qed
  with family.ordered_isolated(2) [OF fo iso(1,2) eq] places.ordered_isolated(2) [OF po iso(3,4) eq]
  show ?thesis by (simp add: db_ok_def)
qed

text \<open>
  Slots are numbered below \<^verbatim>\<open>num_objects\<close>, and the bit arrays of the walks, of
  \<^verbatim>\<open>array_size\<close> bits, have one for each slot.
\<close>

definition sized :: "db \<Rightarrow> bool" where
  "sized d \<longleftrightarrow> 0 \<le> num_objects d \<and> num_objects d \<le> max_objects d \<and> length (objects d) \<le> array_size d \<and>
     (\<forall>i \<ge> num_objects d. find_in (objects d) i = None)"

lemma grow_size_greater: "0 < sz \<Longrightarrow> n < grow_size sz n"
  by (induction sz n rule: grow_size.induct) (subst grow_size.simps, auto)

lemma grow_size_power: "\<exists>k. grow_size sz n = sz * 2 ^ k"
proof (induction sz n rule: grow_size.induct)
  case (1 sz n)
  show ?case
  proof (cases "0 < sz \<and> sz \<le> n")
    case True
    with 1 obtain k where "grow_size (sz * 2) n = sz * 2 * 2 ^ k" by blast
    with True have "grow_size sz n = sz * 2 ^ Suc k" by (subst grow_size.simps) simp
    then show ?thesis by blast
  next
    case False
    then have "grow_size sz n = sz * 2 ^ 0" by (subst grow_size.simps) auto
    then show ?thesis by blast
  qed
qed

lemma grow_size_least: "n < sz * 2 ^ k \<Longrightarrow> grow_size sz n \<le> sz * 2 ^ k"
proof (induction sz n arbitrary: k rule: grow_size.induct)
  case (1 sz n)
  show ?case
  proof (cases "0 < sz \<and> sz \<le> n")
    case True
    with 1(2) have "k \<noteq> 0" by (cases k) auto
    then obtain j where k: "k = Suc j" using not0_implies_Suc by blast
    have "grow_size (sz * 2) n \<le> sz * 2 * 2 ^ j" by (rule 1(1) [OF True]) (use 1(2) k in simp)
    then show ?thesis using True k by (subst grow_size.simps) simp
  next
    case False
    then have "grow_size sz n = sz" by (subst grow_size.simps) auto
    then show ?thesis by simp
  qed
qed

lemma grow_sizes: "grow_size 128 n \<le> grow_size 4096 n"
proof -
  obtain k where k: "grow_size 4096 n = 4096 * 2 ^ k" using grow_size_power by blast
  have "grow_size 128 n \<le> 128 * 2 ^ (k + 5)"
    by (rule grow_size_least) (use grow_size_greater [of 4096 n] k in \<open>simp add: power_add\<close>)
  then show ?thesis by (simp add: k power_add)
qed

lemma find_in_replicate: "find_in (objs @ replicate n None) q = find_in objs q"
  by (auto simp: find_in_def nth_append)

lemma extend_ok:
  assumes "length (objects d) \<le> array_size d"
  shows "find_in (objects (extend n d)) q = find_in (objects d) q" "n < length (objects (extend n d))"
    "length (objects (extend n d)) \<le> array_size (extend n d)"
    "extend n d = d\<lparr>objects := objects (extend n d), array_size := array_size (extend n d)\<rparr>"
proof -
  have nil: "find_in [] q = None" by (auto simp: find_in_def)
  show "find_in (objects (extend n d)) q = find_in (objects d) q"
    using find_in_replicate [of "[]" "grow_size 128 n" q] by (simp add: extend_def Let_def find_in_replicate nil)
  show "n < length (objects (extend n d))" "length (objects (extend n d)) \<le> array_size (extend n d)"
    using grow_size_greater [of 128 n] grow_sizes [of n] assms by (auto simp: extend_def Let_def)
  show "extend n d = d\<lparr>objects := objects (extend n d), array_size := array_size (extend n d)\<rparr>"
    by (simp add: extend_def Let_def)
qed

text \<open>The slot a creation takes: the number asked for, or the next one.\<close>

definition new_slot :: "objid \<Rightarrow> db \<Rightarrow> objid" where
  "new_slot want d = (if want \<le> 0 \<or> want \<ge> num_objects d then num_objects d else want)"

lemma db_create_object_eq:
  assumes "sized d" and "db_create_object clm mem want anon d = (oid, d')"
  shows "oid = new_slot want d"
    and "find_in (objects d') q =
      (if q = oid then Some (db_init_object clm anon (fresh_object mem oid)) else find_in (objects d) q)"
    and "ancestor_cache d' = ancestor_cache d"
    and "sized d'"
proof -
  define e where "e = ensure_new_object d"
  have n: "0 \<le> num_objects d" "num_objects d \<le> max_objects d" and a: "length (objects d) \<le> array_size d"
    and free: "\<And>i. num_objects d \<le> i \<Longrightarrow> find_in (objects d) i = None" using assms(1) by (auto simp: sized_def)
  note E = extend_ok [OF a, of "nat (num_objects d + 1)", folded ensure_new_object_def e_def]
  define d1 where "d1 = (if want \<le> 0 \<or> want \<ge> num_objects d then e\<lparr>num_objects := num_objects d + 1\<rparr> else d)"
  let ?mem = "fresh_object mem (new_slot want d)"
  let ?d2 = "d1\<lparr>objects := (objects d1)[nat (new_slot want d) := Some ?mem]\<rparr>"
  have run: "oid = new_slot want d" "d' = upd_obj oid (db_init_object clm anon) ?d2"
    using assms(2) n
    by (auto simp: db_create_object_def dbpriv_new_object_def new_slot_def d1_def e_def Let_def split: if_splits)
  have e: "num_objects e = num_objects d" "ancestor_cache e = ancestor_cache d"
    by (simp_all add: e_def ensure_new_object_def extend_def Let_def)
  have d1: "find_in (objects d1) q = find_in (objects d) q" "max_objects d1 > new_slot want d" "0 \<le> new_slot want d"
    "ancestor_cache d1 = ancestor_cache d" "length (objects d1) \<le> array_size d1"
    "num_objects d1 = (if want \<le> 0 \<or> want \<ge> num_objects d then num_objects d + 1 else num_objects d)"
    "num_objects d1 \<le> max_objects d1" for q
    using E n a e by (auto simp: d1_def new_slot_def)
  show oid: "oid = new_slot want d" by (rule run)
  have f2: "find_in (objects ?d2) q = (if q = oid then Some ?mem else find_in (objects d) q)" for q
    using find_in_update [of oid "objects d1" "Some ?mem" q] d1 by (simp add: oid)
  show find: "find_in (objects d') q =
      (if q = oid then Some (db_init_object clm anon (fresh_object mem oid)) else find_in (objects d) q)" for q
    unfolding run(2) using find_upd_obj [of oid "db_init_object clm anon" ?d2 q] f2
    by (simp add: dbpriv_find_object_def oid)
  show "ancestor_cache d' = ancestor_cache d"
    using d1 by (simp add: run(2) upd_obj_def split: option.split)
  have "num_objects d' = num_objects d1" "length (objects d') = length (objects d1)" "array_size d' = array_size d1"
    by (simp_all add: run(2) upd_obj_def split: option.split)
  then show "sized d'"
    using d1 n free by (auto simp: sized_def find oid new_slot_def)
qed

lemma create_ok:
  assumes "db_ok d" "sized d" "\<not> valid d (new_slot want d)"
    and "db_create_object clm mem want anon d = (oid, d')"
  shows "db_ok d'"
proof -
  note C = db_create_object_eq [OF assms(2,4)]
  have none: "find_in (objects d) oid = None" using assms(3) by (simp add: C(1) valid_find)
  let ?ob = "db_init_object clm anon (fresh_object mem oid)"
  have some: "find_in (objects d') oid = Some ?ob" by (simp add: C(2))
  have new: "up_parents ?ob = []" "o_children ?ob = []" "o_location ?ob = NOTHING" "o_contents ?ob = []"
    "o_id ?ob = oid" "o_parents ?ob = POne NOTHING"
    by (simp_all add: db_init_object_def fresh_object_def linked_parents_def)
  show ?thesis
    by (rule db_ok_isolated [OF assms(1), of oid])
      (use none some new C(3) in \<open>auto simp: family.isolated_def places.isolated_def C(2)\<close>)
qed

lemma destroy_ok:
  assumes "db_ok d" "db_destroy_object oid d = Some d'"
  shows "db_ok d' \<and> (sized d \<longrightarrow> sized d')"
    and "find_in (objects d') q = (if q = oid then None else find_in (objects d) q)"
proof -
  have o: "objects (db_priv_affected_callable_verb_lookup d) = objects d"
    "ancestor_cache (db_priv_affected_callable_verb_lookup d) = ancestor_cache d"
    "num_objects (db_priv_affected_callable_verb_lookup d) = num_objects d"
    "array_size (db_priv_affected_callable_verb_lookup d) = array_size d"
    by (simp_all add: db_priv_affected_callable_verb_lookup_def split: option.split)
  obtain ob where ob: "find_in (objects d) oid = Some ob" "o_location ob = NOTHING" "o_contents ob = []"
    "no_parents (o_parents ob)" "o_children ob = []"
    and d': "objects d' = (objects d)[nat oid := None]" "ancestor_cache d' = ancestor_cache d"
      "num_objects d' = num_objects d" "array_size d' = array_size d"
    using assms(2) by (auto simp: db_destroy_object_def Let_def o dbpriv_find_object_def split: option.splits if_splits)
  show find: "find_in (objects d') q = (if q = oid then None else find_in (objects d) q)" for q
    using find_in_update [of oid "objects d" None q] find_in_range [OF ob(1)] by (simp add: d')
  have "up_parents ob = []" using ob(4) by (auto simp: no_parents_def linked_parents_def split: parents.splits)
  then have "db_ok d'"
    by (intro db_ok_isolated [OF assms(1), of oid])
      (use ob find d' in \<open>auto simp: family.isolated_def places.isolated_def\<close>)
  moreover have "sized d'" if "sized d" using that find by (simp add: sized_def d'(2-4)) (simp add: d'(1))
  ultimately show "db_ok d' \<and> (sized d \<longrightarrow> sized d')" by blast
qed

section \<open>A small database\<close>

text \<open>Where every link goes to a smaller number there is no cycle.\<close>

context hierarchy
begin

lemma orderedI:
  assumes "linked objs" "\<And>c p. (c, p) \<in> up objs \<Longrightarrow> 0 \<le> p \<and> p < c"
  shows "ordered objs"
proof -
  have "up objs \<subseteq> (measure nat)\<inverse>" using assms(2) by fastforce
  then have "acyclic (up objs)"
    by (metis acyclic_converse acyclic_subset wf_acyclic wf_measure)
  with assms(1) show ?thesis by (simp add: ordered_def)
qed

end

text \<open>
  A root \<^verbatim>\<open>#0\<close> that holds its child \<^verbatim>\<open>#1\<close>, and an orphan
  \<^verbatim>\<open>#2\<close>; the cache has the ancestors of \<^verbatim>\<open>#1\<close>.
\<close>

definition plain_object :: "objid \<Rightarrow> parents \<Rightarrow> objid list \<Rightarrow> objid \<Rightarrow> objid list \<Rightarrow> object" where
  "plain_object oid ps cs loc ct =
     \<lparr>o_location = loc, o_last_move = VMAP map_empty, o_contents = ct, o_parents = ps, o_children = cs,
      o_propdefs = [], o_id = oid, o_owner = 0, o_name = [], o_propval = [], o_verbdefs = [],
      o_waif_propdefs = None, o_flags = 0\<rparr>"

definition small_db :: db where
  "small_db =
     \<lparr>objects = [Some (plain_object 0 (POne NOTHING) [1] NOTHING [1]),
                 Some (plain_object 1 (POne 0) [] 0 []),
                 Some (plain_object 2 (POne NOTHING) [] NOTHING [])],
      num_objects = 3, array_size = 4096, anon_store = (\<lambda>_. None), anonymous_objects = [], all_users = [],
      ancestor_cache = (\<lambda>_. None)(1 := Some [0]), vc_table = None, db_verb_generation = 0,
      verbcache_hit = 0, verbcache_neg_hit = 0, verbcache_miss = 0\<rparr>"

lemma linked_parents_simps:
  "linked_parents (POne x) = (if x = NOTHING then [] else [x])" "linked_parents (PMany xs) = xs"
  by (simp_all add: linked_parents_def)

lemma find_small_db:
  "find_in (objects small_db) q =
     (if q = 0 then Some (plain_object 0 (POne NOTHING) [1] NOTHING [1])
      else if q = 1 then Some (plain_object 1 (POne 0) [] 0 [])
      else if q = 2 then Some (plain_object 2 (POne NOTHING) [] NOTHING []) else None)"
proof (cases "0 \<le> q \<and> q < 3")
  case True
  then consider "q = 0" | "q = 1" | "q = 2" by linarith
  then show ?thesis by cases (simp_all add: find_in_def small_db_def)
qed (auto simp: find_in_def small_db_def)

lemma small_db_ok: "db_ok small_db" "sized small_db"
proof -
  have fup: "family.up (objects small_db) = {(1, 0)}"
    by (auto simp: family_up_iff find_small_db plain_object_def linked_parents_simps split: if_splits)
  have pup: "places.up (objects small_db) = {(1, 0)}"
    by (auto simp: places_up_iff find_small_db plain_object_def split: if_splits)
  have "family.ordered (objects small_db)"
    by (rule family.orderedI)
      (auto simp: family.linked_def fup find_small_db plain_object_def split: if_splits)
  moreover have "places.ordered (objects small_db)"
    by (rule places.orderedI)
      (auto simp: places.linked_def pup find_small_db plain_object_def split: if_splits)
  moreover have "cache_ok small_db"
    unfolding cache_ok_def dbpriv_find_object_def
    by (auto simp: find_small_db plain_object_def o_parent_list_def parent_list_def split: if_splits)
      (simp add: small_db_def)
  ultimately show "db_ok small_db" by (simp add: db_ok_def)
  show "sized small_db" by (auto simp: sized_def find_small_db) (simp_all add: small_db_def)
qed

lemma db_change_parents_ok:
  assumes "db_ok d"
    and "\<forall>p \<in> set (linked_parents new_parents). valid d p \<and> (p, x) \<notin> (family.up (objects d))\<^sup>*"
    and "db_change_parents (Perm x) new_parents anon_kids d = Some (done, d')"
  shows "db_ok d' \<and> (if done
      then db_object_parents2 d' (Perm x) = Some new_parents \<and>
        family.up (objects d') = {(c, p) \<in> family.up (objects d). c \<noteq> x} \<union> {x} \<times> set (linked_parents new_parents)
      else d' = d)"
proof -
  have "d' = d \<and> \<not> done \<or> (\<exists>ob kids. dbpriv_find_object d x = Some ob \<and>
      apply_change (Perm x) ob new_parents kids d = Some (done, d'))"
    using assms(3) by (auto simp: db_change_parents_def Let_def split: if_splits option.splits bool.splits)
  then show ?thesis
    using apply_change_ok [OF assms(1) _ assms(2)] assms(1) unfolding db_object_parents2_def by auto
qed

section \<open>Properties\<close>

text \<open>
  C25: \<^verbatim>\<open>db_object_isa\<close>, a search that marks nothing, ends on every table whose
  hierarchy is linked and free of cycles, and answers whether there is a path of parents
  from the object to the other.
\<close>

theorem db_object_isa_reachable:
  assumes "family.ordered (objects d)" and "valid d x"
  shows "db_object_isa d (Perm x) (Perm p) = Some ((x, p) \<in> (family.up (objects d))\<^sup>*)"
  using assms by (rule db_object_isa_iff)

theorem db_object_isa_reachable_witness:
  "family.ordered (objects small_db) \<and> valid small_db 1 \<and>
   db_object_isa small_db (Perm 1) (Perm 2) = Some ((1, 2) \<in> (family.up (objects small_db))\<^sup>*)"
proof -
  have "family.ordered (objects small_db)" "valid small_db 1"
    using small_db_ok by (simp_all add: db_ok_def valid_find find_small_db)
  with db_object_isa_reachable [OF this] show ?thesis by simp
qed

text \<open>
  C27: the descendants and the ancestors of an object, as the two passes of the
  \<^verbatim>\<open>DEFUNC\<close> walks compute them, are exactly the objects below and above it, each
  once, and the counting pass counts as many as the collecting pass stores.
\<close>

theorem db_walks_exact:
  assumes "family.linked (objects d)" and "dbpriv_find_object d x = Some ob"
  shows "\<exists>ds as. db_descendants d (Perm x) False = Some (map Perm ds) \<and>
      db_find_ancestors d (Perm x) False = Some (map Perm as) \<and>
      distinct ds \<and> set ds = {y. (y, x) \<in> (family.up (objects d))\<^sup>+} \<and>
      distinct as \<and> set as = {y. (x, y) \<in> (family.up (objects d))\<^sup>+} \<and>
      db1_count (objects d) o_children (o_children ob) [] 0 = length ds \<and>
      db1_count (objects d) o_parent_list (o_parent_list ob) [] 0 = length as"
proof -
  let ?ds = "walk (objects d) o_children (o_children ob) []"
  let ?as = "walk (objects d) o_parent_list (o_parent_list ob) []"
  have f: "find_in (objects d) x = Some ob" using assms(2) by (simp add: dbpriv_find_object_def)
  have "?as = []" if "no_parents (o_parents ob)"
    using that by (auto simp: no_parents_def o_parent_list_def parent_list_def split: parents.splits)
  then have "db_find_ancestors d (Perm x) False = Some (map Perm ?as)"
    using assms(2) by (simp add: db_find_ancestors_def db_walk_def db2_add_walk)
  moreover have "db_descendants d (Perm x) False = Some (map Perm ?ds)"
    using db_descendants_eq [OF assms(2), of False] by simp
  ultimately show ?thesis
    using walk_descendants [OF assms(1) f] walk_ancestors [OF assms(1) f]
    by (intro exI [of _ ?ds] exI [of _ ?as]) (simp add: walk_distinct db1_count_walk)
qed

theorem db_walks_exact_witness:
  "\<exists>ds as. db_descendants small_db (Perm 0) False = Some (map Perm ds) \<and>
      db_find_ancestors small_db (Perm 0) False = Some (map Perm as) \<and>
      distinct ds \<and> set ds = {y. (y, 0) \<in> (family.up (objects small_db))\<^sup>+} \<and>
      distinct as \<and> set as = {y. (0, y) \<in> (family.up (objects small_db))\<^sup>+} \<and>
      db1_count (objects small_db) o_children [1] [] 0 = length ds \<and>
      db1_count (objects small_db) o_parent_list [NOTHING] [] 0 = length as"
proof -
  have "family.linked (objects small_db)" using small_db_ok by (simp add: db_ok_def family.ordered_def)
  moreover have "dbpriv_find_object small_db 0 = Some (plain_object 0 (POne NOTHING) [1] NOTHING [1])"
    by (simp add: dbpriv_find_object_def find_small_db)
  ultimately show ?thesis
    using db_walks_exact [of small_db 0 "plain_object 0 (POne NOTHING) [1] NOTHING [1]"]
    by (simp add: plain_object_def o_parent_list_def parent_list_def)
qed

text \<open>
  C26: with a coherent ancestor cache, \<^verbatim>\<open>db_ancestors\<close> returns what the uncached walk
  returns, and it changes nothing but the cache, which stays coherent.
\<close>

theorem db_ancestors_cached:
  assumes "cache_ok d" and "valid d x"
  shows "\<exists>l d'. db_ancestors (Perm x) full d = Some (l, d') \<and> db_find_ancestors d (Perm x) full = Some l \<and>
    cache_ok d' \<and> d' = d\<lparr>ancestor_cache := ancestor_cache d'\<rparr>"
proof -
  obtain ob where ob: "dbpriv_dereference d (Perm x) = Some ob" using assms(2) by (auto simp: valid_def)
  have "walk (objects d) o_parent_list (o_parent_list ob) [] = []" if "no_parents (o_parents ob)"
    using that by (auto simp: no_parents_def o_parent_list_def parent_list_def split: parents.splits)
  then have "db_find_ancestors d (Perm x) full =
      Some ((if full then [Perm x] else []) @ map Perm (walk (objects d) o_parent_list (o_parent_list ob) []))"
    using ob by (simp add: db_find_ancestors_def db_walk_def db2_add_walk)
  with db_ancestors_ok [OF assms(1) ob, of full] show ?thesis by auto
qed

theorem db_ancestors_cached_witness:
  "\<exists>l d'. db_ancestors (Perm 1) True small_db = Some (l, d') \<and> db_find_ancestors small_db (Perm 1) True = Some l \<and>
    cache_ok d' \<and> d' = small_db\<lparr>ancestor_cache := ancestor_cache d'\<rparr>"
  by (rule db_ancestors_cached) (use small_db_ok in \<open>simp_all add: db_ok_def valid_find find_small_db\<close>)



text \<open>
  C8: moving an object to nowhere, or to a valid place that it does not itself contain,
  succeeds whatever the position, keeps the invariant and leaves every other location as it
  was; the map in \<^verbatim>\<open>last_move\<close>, if there is one, has to be well formed.
\<close>

theorem db_change_location_total:
  assumes "db_ok d" and "dbpriv_find_object d x = Some ob"
    and "new = NOTHING \<or> valid d new \<and> (new, x) \<notin> (places.up (objects d))\<^sup>*"
    and "clear_last_move \<or> (\<forall>t. o_last_move ob = VMAP t \<longrightarrow> wf_map t)"
  shows "\<exists>d'. db_change_location clear_last_move shared now x new position d = Some d' \<and> db_ok d' \<and>
    places.up (objects d') =
      {(c, p) \<in> places.up (objects d). c \<noteq> x} \<union> {x} \<times> set (if new = NOTHING then [] else [new])"
  using assms by (rule db_change_location_ok)

theorem db_change_location_total_witness:
  "\<exists>d'. db_change_location False True 7 2 1 0 small_db = Some d' \<and> db_ok d' \<and>
    places.up (objects d') =
      {(c, p) \<in> places.up (objects small_db). c \<noteq> 2} \<union> {2} \<times> set (if (1 :: int) = NOTHING then [] else [1])"
proof (rule db_change_location_total [OF small_db_ok(1)])
  show "dbpriv_find_object small_db 2 = Some (plain_object 2 (POne NOTHING) [] NOTHING [])"
    by (simp add: dbpriv_find_object_def find_small_db)
  have "places.up (objects small_db) = {(1, 0)}"
    by (auto simp: places_up_iff find_small_db plain_object_def split: if_splits)
  then show "(1 :: int) = NOTHING \<or> valid small_db 1 \<and> (1, 2) \<notin> (places.up (objects small_db))\<^sup>*"
    by (auto simp: valid_find find_small_db elim: rtranclE)
qed (simp add: plain_object_def wf_map_empty)

end
