(* ===== verification/PropLayout.thy ===== *)
theory PropLayout
  imports DbInvariants
begin

text \<open>
  The layout of property values. An object's array of values has a slot for each
  definition on the object and then on each of its ancestors, in the order of
  \<^verbatim>\<open>ancestors()\<close>; adding and deleting a definition keeps every permanent object's
  array in step.
\<close>

section \<open>The layout\<close>

definition defs_len :: "db \<Rightarrow> objid \<Rightarrow> nat" where
  "defs_len d x = (case find_in (objects d) x of None \<Rightarrow> 0 | Some ob \<Rightarrow> length (o_propdefs ob))"

definition line :: "db \<Rightarrow> objid \<Rightarrow> objid list" where
  "line d x = x # (case find_in (objects d) x of
                     None \<Rightarrow> []
                   | Some ob \<Rightarrow> walk (objects d) o_parent_list (o_parent_list ob) [])"

definition slots :: "db \<Rightarrow> objid list \<Rightarrow> nat" where
  "slots d xs = sum_list (map (defs_len d) xs)"

definition layout_ok :: "db \<Rightarrow> bool" where
  "layout_ok d \<longleftrightarrow> (\<forall>x ob. find_in (objects d) x = Some ob \<longrightarrow> length (o_propval ob) = slots d (line d x))"

text \<open>Where the slots of one ancestor start.\<close>

definition start_at :: "db \<Rightarrow> objid \<Rightarrow> objid \<Rightarrow> nat" where
  "start_at d target x = slots d (takeWhile (\<lambda>y. y \<noteq> target) (line d x))"

lemma slots_simps [simp]: "slots d [] = 0" "slots d (x # xs) = defs_len d x + slots d xs"
  "slots d (xs @ ys) = slots d xs + slots d ys"
  by (simp_all add: slots_def)

lemma start_at_bound:
  assumes "target \<in> set (line d x)"
  shows "start_at d target x + defs_len d target \<le> slots d (line d x)"
proof -
  obtain ys zs where l: "line d x = ys @ target # zs" "target \<notin> set ys"
    using split_list_first [OF assms] by blast
  have "takeWhile (\<lambda>y. y \<noteq> target) (line d x) = ys" using l by (auto simp: takeWhile_append1 takeWhile_tail)
  then show ?thesis unfolding start_at_def by (simp add: l)
qed

lemma set_line:
  assumes "family.linked (objects d)" "find_in (objects d) x = Some ob"
  shows "set (line d x) = {y. (x, y) \<in> (family.up (objects d))\<^sup>*}"
  using walk_ancestors [OF assms] assms(2) by (auto simp: line_def rtrancl_eq_or_trancl)

lemma distinct_line:
  assumes "family.ordered (objects d)"
  shows "distinct (line d x)"
proof (cases "find_in (objects d) x")
  case (Some ob)
  have L: "family.linked (objects d)" using assms by (simp add: family.ordered_def)
  have "(x, x) \<notin> (family.up (objects d))\<^sup>+" using assms by (simp add: family.ordered_def acyclic_def)
  then show ?thesis using walk_distinct walk_ancestors [OF L Some] Some by (simp add: line_def)
qed (simp add: line_def)

lemma line_valid:
  assumes "family.linked (objects d)" "find_in (objects d) x = Some ob" "y \<in> set (line d x)"
  shows "find_in (objects d) y \<noteq> None"
  using assms(3) family_rtrancl_valid(2) [OF assms(1), of x y] assms(2) unfolding set_line [OF assms(1,2)] by auto

lemma line_same_shape: "shape d' = shape d \<Longrightarrow> line d' x = line d x"
  using walk_same_shape [of d' d o_parent_list, OF _ o_parent_list_skeleton] same_shape_find [of d' d x]
  by (cases "find_in (objects d) x"; cases "find_in (objects d') x")
    (auto simp: line_def dbpriv_find_object_def dest: o_parent_list_skeleton)

section \<open>Offsets\<close>

text \<open>A state that differs in the ancestor cache only.\<close>

definition same_but_cache :: "db \<Rightarrow> db \<Rightarrow> bool" where
  "same_but_cache d d' \<longleftrightarrow> (\<exists>c. d' = d\<lparr>ancestor_cache := c\<rparr>)"

lemma same_but_cache_refl: "same_but_cache d d"
  unfolding same_but_cache_def by (rule exI [of _ "ancestor_cache d"]) simp

lemma same_but_cache_trans: "same_but_cache d1 d2 \<Longrightarrow> same_but_cache d2 d3 \<Longrightarrow> same_but_cache d1 d3"
  by (auto simp: same_but_cache_def)

lemma same_but_cache_objects: "same_but_cache d d' \<Longrightarrow> objects d' = objects d"
  by (auto simp: same_but_cache_def)

lemma same_objects:
  assumes "objects d' = objects d"
  shows "defs_len d' = defs_len d" "line d' = line d" "start_at d' = start_at d" "slots d' = slots d"
  unfolding fun_eq_iff defs_len_def line_def start_at_def slots_def assms by simp_all

lemma offset_loop_eq:
  assumes "\<forall>y \<in> set ys. find_in (objects d) y \<noteq> None"
  shows "offset_loop d (Perm target) (map Perm ys) n =
    Some (if target \<in> set ys then n + int (slots d (takeWhile (\<lambda>y. y \<noteq> target) ys)) else - 1)"
  using assms by (induction ys arbitrary: n) (auto simp: dbpriv_find_object_def defs_len_def)

lemma properties_offset_eq:
  assumes ok: "db_ok d" and x: "find_in (objects d) x = Some ob"
  shows "\<exists>d'. properties_offset (Perm target) (Perm x) d =
      Some (if target \<in> set (line d x) then int (start_at d target x) else - 1, d') \<and>
    same_but_cache d d' \<and> db_ok d'"
proof -
  have c: "cache_ok d" and L: "family.linked (objects d)" using ok by (auto simp: db_ok_def family.ordered_def)
  obtain d' where d': "db_ancestors (Perm x) True d = Some (map Perm (line d x), d')"
    "cache_ok d'" "d' = d\<lparr>ancestor_cache := ancestor_cache d'\<rparr>"
    using db_ancestors_ok [OF c, of "Perm x" ob True] x by (auto simp: line_def dbpriv_find_object_def)
  have same: "same_but_cache d d'" using d'(3) by (auto simp: same_but_cache_def)
  note o = same_but_cache_objects [OF same]
  have "offset_loop d' (Perm target) (map Perm (line d x)) 0 =
      Some (if target \<in> set (line d x) then int (start_at d target x) else - 1)"
    using offset_loop_eq [of "line d x" d' target 0] line_valid [OF L x]
    by (simp add: o start_at_def same_objects [OF o])
  moreover have "db_ok d'" using ok d'(2) o by (simp add: db_ok_def)
  ultimately show ?thesis using d'(1) same by (simp add: properties_offset_def sbind_def sget_def)
qed

lemma smap_offsets:
  "db_ok d \<Longrightarrow> \<forall>y \<in> set ys. find_in (objects d) y \<noteq> None \<and> target \<in> set (line d y) \<Longrightarrow>
   \<exists>d'. smap (properties_offset (Perm target)) (map Perm ys) d = Some (map (\<lambda>y. int (start_at d target y)) ys, d') \<and>
     same_but_cache d d' \<and> db_ok d'"
proof (induction ys arbitrary: d)
  case Nil
  then show ?case by (auto simp: sreturn_def same_but_cache_refl)
next
  case (Cons y ys)
  then obtain ob where ob: "find_in (objects d) y = Some ob" by auto
  obtain d1 where d1: "properties_offset (Perm target) (Perm y) d = Some (int (start_at d target y), d1)"
    "same_but_cache d d1" "db_ok d1"
    using properties_offset_eq [OF Cons.prems(1) ob, of target] Cons.prems(2) by auto
  note o = same_but_cache_objects [OF d1(2)]
  obtain d2 where "smap (properties_offset (Perm target)) (map Perm ys) d1 =
      Some (map (\<lambda>y. int (start_at d1 target y)) ys, d2)" "same_but_cache d1 d2" "db_ok d2"
    using Cons.IH [OF d1(3)] Cons.prems(2) by (auto simp: o same_objects [OF o])
  with d1 show ?case by (auto simp: sbind_def sreturn_def same_objects [OF o] intro: same_but_cache_trans)
qed

section \<open>Writes to several objects\<close>

definition upd_if :: "(objid \<Rightarrow> object \<Rightarrow> bool) \<Rightarrow> (objid \<Rightarrow> object \<Rightarrow> object) \<Rightarrow> objid \<Rightarrow> db \<Rightarrow> db option" where
  "upd_if C f x d =
     (case dbpriv_find_object d x of None \<Rightarrow> None | Some ob \<Rightarrow> if C x ob then Some (upd_obj x (f x) d) else None)"

lemma siter_upd_if:
  "distinct xs \<Longrightarrow> \<forall>x \<in> set xs. \<exists>ob. dbpriv_find_object d x = Some ob \<and> C x ob \<Longrightarrow>
   \<exists>d'. siter (upd_if C f) xs d = Some d' \<and> d' = d\<lparr>objects := objects d'\<rparr> \<and>
     (\<forall>q. dbpriv_find_object d' q = (if q \<in> set xs then map_option (f q) (dbpriv_find_object d q) else dbpriv_find_object d q))"
proof (induction xs arbitrary: d)
  case (Cons x xs)
  let ?d = "upd_obj x (f x) d"
  have find: "dbpriv_find_object ?d q = (if q = x then map_option (f x) (dbpriv_find_object d x) else dbpriv_find_object d q)" for q
    by (rule find_upd_obj)
  have "\<forall>y \<in> set xs. \<exists>ob. dbpriv_find_object ?d y = Some ob \<and> C y ob" using Cons.prems by (auto simp: find)
  with Cons obtain d' where d': "siter (upd_if C f) xs ?d = Some d'" "d' = ?d\<lparr>objects := objects d'\<rparr>"
    "\<forall>q. dbpriv_find_object d' q = (if q \<in> set xs then map_option (f q) (dbpriv_find_object ?d q) else dbpriv_find_object ?d q)"
    by (metis distinct.simps(2))
  have "d' = d\<lparr>objects := objects d'\<rparr>" using d'(2) upd_obj_frame [of x "f x" d] by (metis db.surjective db.update_convs(1))
  moreover have "upd_if C f x d = Some ?d" using Cons.prems(2) by (auto simp: upd_if_def)
  ultimately show ?case using d'(1,3) find Cons.prems(1) by auto
qed simp

lemma siter_zip: "siter (\<lambda>(r, k). g r k) (zip (map h xs) (map k xs)) d = siter (\<lambda>x. g (h x) (k x)) xs d"
  by (induction xs arbitrary: d) (auto split: option.split)

text \<open>One slot more, or one less, at a given place.\<close>

definition put_slot :: "nat \<Rightarrow> pval \<Rightarrow> object \<Rightarrow> object" where
  "put_slot n pv ob =
     ob\<lparr>o_waif_propdefs := None,
        o_propval := take n (o_propval ob) @
          (if pv_perms pv AND PF_CHOWN \<noteq> 0 then pv\<lparr>pv_owner := o_owner ob\<rparr> else pv) # drop n (o_propval ob)\<rparr>"

definition cut_slot :: "nat \<Rightarrow> object \<Rightarrow> object" where
  "cut_slot n ob = ob\<lparr>o_waif_propdefs := None, o_propval := take n (o_propval ob) @ drop (Suc n) (o_propval ob)\<rparr>"

lemma upd_obj_same: "dbpriv_find_object d x = Some ob \<Longrightarrow> f ob = g ob \<Longrightarrow> upd_obj x f d = upd_obj x g d"
  by (simp add: upd_obj_def)

lemma insert_prop2_upd:
  "insert_prop2 (Perm x) (int n) pv d = upd_if (\<lambda>_ ob. n \<le> length (o_propval ob)) (\<lambda>_. put_slot n pv) x d"
proof (cases "dbpriv_find_object d x")
  case (Some ob)
  then show ?thesis
    by (auto simp: insert_prop2_def upd_if_def Let_def put_slot_def intro!: upd_obj_same [OF Some])
qed (simp add: insert_prop2_def upd_if_def)

lemma remove_prop2_upd:
  "remove_prop2 (Perm x) (int n) d = upd_if (\<lambda>_ ob. n < length (o_propval ob)) (\<lambda>_. cut_slot n) x d"
  by (auto simp: remove_prop2_def upd_if_def cut_slot_def split: option.split intro: upd_obj_same)

lemma skeleton_slots [simp]: "skeleton (put_slot n pv ob) = skeleton ob" "skeleton (cut_slot n ob) = skeleton ob"
  by (simp_all add: put_slot_def cut_slot_def)

lemma slot_lengths:
  "n \<le> length (o_propval ob) \<Longrightarrow> length (o_propval (put_slot n pv ob)) = Suc (length (o_propval ob))"
  "n < length (o_propval ob) \<Longrightarrow> Suc (length (o_propval (cut_slot n ob))) = length (o_propval ob)"
  "o_propdefs (put_slot n pv ob) = o_propdefs ob" "o_propdefs (cut_slot n ob) = o_propdefs ob"
  by (auto simp: put_slot_def cut_slot_def)

section \<open>Inserting and removing along the descendants\<close>

lemma all_descendants_eq:
  assumes "anonymous_objects d = []" "find_in (objects d) root = Some ob"
  shows "all_descendants root d = Some (map Perm (walk (objects d) o_children (o_children ob) []))"
proof -
  have "foldl (\<lambda>seen x. dbpriv_append_anon_list d x seen) [] xs = []" for xs
    by (induction xs) (simp_all add: dbpriv_append_anon_list_def anon_children_def assms(1))
  moreover have "db_descendants d (Perm root) False = Some (map Perm (walk (objects d) o_children (o_children ob) []))"
    using db_descendants_eq [of d root ob False] assms(2) by (simp add: dbpriv_find_object_def)
  ultimately show ?thesis unfolding all_descendants_def Let_def by (simp del: foldl.simps)
qed

text \<open>
  What \<^verbatim>\<open>insert_prop_recursively\<close> and \<^verbatim>\<open>remove_prop_recursively\<close> share: a write at
  the root, the offsets of its descendants, and a write at each of them.
\<close>

definition along :: "(int \<Rightarrow> oref \<Rightarrow> db \<Rightarrow> db option) \<Rightarrow> (int \<Rightarrow> oref \<Rightarrow> db \<Rightarrow> db option) \<Rightarrow> objid \<Rightarrow> int \<Rightarrow> db \<Rightarrow> (unit \<times> db) option" where
  "along at_root at_rest root pos =
     sbind (smodify (at_root pos (Perm root))) (\<lambda>_.
       sbind (sget (all_descendants root)) (\<lambda>descendants.
         sbind (smap (properties_offset (Perm root)) descendants) (\<lambda>offsets.
           smodify (siter (\<lambda>(r, offset). at_rest (offset + pos) r) (zip descendants offsets)))))"

lemma insert_prop_recursively_along:
  "insert_prop_recursively root pos pv =
   along (\<lambda>pos r. insert_prop2 r pos pv) (\<lambda>pos r. insert_prop2 r pos (pv\<lparr>pv_var := VCLEAR\<rparr>)) root pos"
  by (simp add: insert_prop_recursively_def along_def insert_prop_def Let_def)

lemma remove_prop_recursively_along:
  "remove_prop_recursively root pos = along (\<lambda>pos r. remove_prop2 r pos) (\<lambda>pos r. remove_prop2 r pos) root pos"
  by (simp add: remove_prop_recursively_def along_def remove_prop_def)

lemma along_ok:
  assumes ok: "db_ok d" and anon: "anonymous_objects d = []" and x: "find_in (objects d) x = Some ob"
    and root: "\<And>y n. at_root (int n) (Perm y) = upd_if (\<lambda>_. C n) (\<lambda>_. f n) y"
    and rest: "\<And>y n. at_rest (int n) (Perm y) = upd_if (\<lambda>_. C n) (\<lambda>_. g n) y"
    and keep: "\<And>n ob. skeleton (f n ob) = skeleton ob \<and> o_propdefs (f n ob) = o_propdefs ob"
    and C: "C pos ob" "\<And>y oy. (y, x) \<in> (family.up (objects d))\<^sup>+ \<Longrightarrow> find_in (objects d) y = Some oy \<Longrightarrow>
        C (start_at d x y + pos) oy"
  shows "\<exists>d'. along at_root at_rest x (int pos) d = Some ((), d') \<and>
    (\<forall>q. find_in (objects d') q = map_option (if q = x then f pos
         else if (q, x) \<in> (family.up (objects d))\<^sup>+ then g (start_at d x q + pos) else id) (find_in (objects d) q))"
proof -
  have ord: "family.ordered (objects d)" using ok by (simp add: db_ok_def)
  have L: "family.linked (objects d)" using ord by (simp add: family.ordered_def)
  have irr: "(x, x) \<notin> (family.up (objects d))\<^sup>+" using ord by (simp add: family.ordered_def acyclic_def)
  let ?d1 = "upd_obj x (f pos) d"
  have d1: "at_root (int pos) (Perm x) d = Some ?d1" using x C(1) by (simp add: root upd_if_def dbpriv_find_object_def)
  have find1: "find_in (objects ?d1) q = (if q = x then Some (f pos ob) else find_in (objects d) q)" for q
    using find_upd_obj [of x "f pos" d q] x by (simp add: dbpriv_find_object_def)
  have "same_shape d (upd_ref (Perm x) (f pos) d)" by (rule same_shape_upd_ref) (simp add: keep)
  then have same: "same_shape d ?d1" by simp
  then have sh: "shape ?d1 = shape d" and an1: "anonymous_objects ?d1 = []" using anon by (auto simp: same_shape_def)
  have ok1: "db_ok ?d1" using db_ok_same_shape [OF same ok] .
  have len1: "defs_len ?d1 = defs_len d" using find1 x keep by (auto simp: defs_len_def fun_eq_iff)
  have start1: "start_at ?d1 = start_at d"
    by (simp add: start_at_def fun_eq_iff slots_def len1 line_same_shape [OF sh])
  let ?ys = "walk (objects ?d1) o_children (o_children (f pos ob)) []"
  have L1: "family.linked (objects ?d1)" using ok1 by (simp add: db_ok_def family.ordered_def)
  have ys: "set ?ys = {y. (y, x) \<in> (family.up (objects d))\<^sup>+}"
    using walk_descendants [OF L1, of x "f pos ob"] find1 family_same_shape(2) [OF sh] by simp
  have yv: "find_in (objects ?d1) y = find_in (objects d) y \<and> find_in (objects d) y \<noteq> None \<and> x \<in> set (line d y)"
    if y: "y \<in> set ?ys" for y
  proof -
    have "(y, x) \<in> (family.up (objects d))\<^sup>+" using y ys by blast
    moreover from this have "find_in (objects d) y \<noteq> None"
      using family_rtrancl_valid(1) [OF L, of y x] irr by (metis trancl_into_rtrancl)
    ultimately show ?thesis using find1 [of y] irr set_line [OF L, of y] by (auto simp: trancl_into_rtrancl)
  qed
  obtain d2 where d2: "smap (properties_offset (Perm x)) (map Perm ?ys) ?d1 =
      Some (map (\<lambda>y. int (start_at d x y)) ?ys, d2)" "same_but_cache ?d1 d2"
    using smap_offsets [OF ok1, of ?ys x] yv by (auto simp: start1 line_same_shape [OF sh])
  note o2 = same_but_cache_objects [OF d2(2)]
  have pre: "\<forall>y \<in> set ?ys. \<exists>oy. dbpriv_find_object d2 y = Some oy \<and> C (start_at d x y + pos) oy"
  proof
    fix y assume y: "y \<in> set ?ys"
    then obtain oy where oy: "find_in (objects d) y = Some oy" using yv by blast
    with C(2) [of y oy] yv [OF y] y ys
    show "\<exists>oy. dbpriv_find_object d2 y = Some oy \<and> C (start_at d x y + pos) oy"
      by (simp add: dbpriv_find_object_def o2)
  qed
  obtain d' where d': "siter (upd_if (\<lambda>y. C (start_at d x y + pos)) (\<lambda>y. g (start_at d x y + pos))) ?ys d2 = Some d'"
    "\<And>q. dbpriv_find_object d' q = (if q \<in> set ?ys then map_option (g (start_at d x q + pos)) (dbpriv_find_object d2 q)
        else dbpriv_find_object d2 q)"
    using siter_upd_if [OF walk_distinct pre, of "\<lambda>y. g (start_at d x y + pos)"] by blast
  have each: "(\<lambda>y. at_rest (int (start_at d x y) + int pos) (Perm y)) =
      upd_if (\<lambda>y. C (start_at d x y + pos)) (\<lambda>y. g (start_at d x y + pos))"
  proof (intro ext)
    fix y d0
    show "at_rest (int (start_at d x y) + int pos) (Perm y) d0 =
        upd_if (\<lambda>y. C (start_at d x y + pos)) (\<lambda>y. g (start_at d x y + pos)) y d0"
      unfolding of_nat_add [symmetric] rest upd_if_def ..
  qed
  have "siter (\<lambda>(r, offset). at_rest (offset + int pos) r) (zip (map Perm ?ys) (map (\<lambda>y. int (start_at d x y)) ?ys)) d2 = Some d'"
    using d'(1) unfolding siter_zip [where g = "\<lambda>r k. at_rest (k + int pos) r"] each .
  then have "along at_root at_rest x (int pos) d = Some ((), d')"
    using d1 d2(1) all_descendants_eq [OF an1, of x "f pos ob"] find1
    by (simp add: along_def sbind_def smodify_def sget_def)
  moreover have "find_in (objects d') q = map_option (if q = x then f pos
         else if (q, x) \<in> (family.up (objects d))\<^sup>+ then g (start_at d x q + pos) else id) (find_in (objects d) q)" for q
    using d'(2) [of q] irr x ys by (auto simp: dbpriv_find_object_def o2 find1 option.map_id)
  ultimately show ?thesis by blast
qed

section \<open>Looking below\<close>

lemma ex_opt_returns: "(\<And>x. x \<in> set xs \<Longrightarrow> \<exists>b. f x = Some b) \<Longrightarrow> \<exists>b. ex_opt f xs = Some b"
proof (induction xs)
  case (Cons x xs)
  then obtain b c where "f x = Some b" "ex_opt f xs = Some c" by fastforce
  then show ?case by (cases b) auto
qed (auto intro: exI [of _ False])

definition under :: "db \<Rightarrow> objid \<Rightarrow> objid set" where
  "under d x = {y. (y, x) \<in> (family.up (objects d))\<^sup>*}"

lemma under_subset:
  assumes "family.linked (objects d)" "find_in (objects d) x \<noteq> None"
  shows "under d x \<subseteq> {0..<int (length (objects d))}"
proof
  fix y assume "y \<in> under d x"
  then have "find_in (objects d) y \<noteq> None"
    using family_rtrancl_valid(1) [OF assms(1), of y x] assms(2) by (cases "y = x") (auto simp: under_def)
  then show "y \<in> {0..<int (length (objects d))}" by (auto dest: find_in_range)
qed

lemma under_child:
  assumes ord: "family.ordered (objects d)" and c: "(c, x) \<in> family.up (objects d)"
  shows "under d c \<subset> under d x"
proof (rule psubsetI)
  show "under d c \<subseteq> under d x" using c by (auto simp: under_def intro: rtrancl_into_rtrancl)
  have "(x, c) \<notin> (family.up (objects d))\<^sup>*"
  proof
    assume "(x, c) \<in> (family.up (objects d))\<^sup>*"
    then have "(x, x) \<in> (family.up (objects d))\<^sup>+" using c by (rule rtrancl_into_trancl1)
    then show False using ord by (simp add: family.ordered_def acyclic_def)
  qed
  then have "x \<notin> under d c" "x \<in> under d x" by (auto simp: under_def)
  then show "under d c \<noteq> under d x" by blast
qed

text \<open>The recursion through the children is no deeper than the objects below are many.\<close>

lemma defined_below_returns:
  assumes ord: "family.ordered (objects d)"
  shows "find_in (objects d) x = Some ob \<Longrightarrow> card (under d x) < fuel \<Longrightarrow> \<exists>b. defined_below fuel d pname h ob = Some b"
proof (induction fuel arbitrary: x ob)
  case (Suc fuel)
  have L: "family.linked (objects d)" using ord by (simp add: family.ordered_def)
  have fin: "finite (under d x)" using under_subset [OF L, of x] Suc.prems(1) finite_subset by fastforce
  have each: "\<exists>b. (case dbpriv_find_object d c of None \<Rightarrow> None | Some child \<Rightarrow> defined_below fuel d pname h child) = Some b"
    if c: "c \<in> set (o_children ob)" for c
  proof -
    obtain oc where oc: "find_in (objects d) c = Some oc" "x \<in> set (up_parents oc)"
      using linkedD(2) [OF L Suc.prems(1) c] by blast
    then have "(c, x) \<in> family.up (objects d)" by (auto simp: family_up_iff)
    then have "card (under d c) < card (under d x)" by (rule psubset_card_mono [OF fin under_child [OF ord]])
    then obtain b where "defined_below fuel d pname h oc = Some b" using Suc.IH [OF oc(1)] Suc.prems(2) by auto
    then show ?thesis using oc by (simp add: dbpriv_find_object_def)
  qed
  have "\<exists>b. ex_opt (\<lambda>c. case dbpriv_find_object d c of None \<Rightarrow> None
      | Some child \<Rightarrow> defined_below fuel d pname h child) (o_children ob) = Some b"
    by (rule ex_opt_returns) (rule each)
  then show ?case by (cases "list_ex (name_is pname h) (o_propdefs ob)") auto
qed simp

lemma defined_at_or_below_returns:
  assumes ord: "family.ordered (objects d)" and x: "find_in (objects d) x = Some ob"
  shows "\<exists>b. property_defined_at_or_below d pname h ob = Some b"
proof -
  have L: "family.linked (objects d)" using ord by (simp add: family.ordered_def)
  have "under d x \<subseteq> {0..<int (length (objects d))}" by (rule under_subset [OF L]) (simp add: x)
  from card_mono [OF _ this] have "card (under d x) < Suc (length (objects d))" by simp
  with defined_below_returns [OF ord x] show ?thesis unfolding property_defined_at_or_below_def by blast
qed

lemma db_find_property_returns:
  assumes ok: "db_ok d" and x: "find_in (objects d) x = Some ob"
  shows "\<exists>h d'. db_find_property (Perm x) name d = Some (h, d') \<and> same_but_cache d d' \<and> db_ok d'"
proof -
  have c: "cache_ok d" using ok by (simp add: db_ok_def)
  from db_ancestors_ok [OF c, of "Perm x" ob False] x obtain l d' where
    d': "db_ancestors (Perm x) False d = Some (l, d')" "cache_ok d'" "d' = d\<lparr>ancestor_cache := ancestor_cache d'\<rparr>"
    by (auto simp: dbpriv_find_object_def)
  have same: "same_but_cache d d'" using d'(3) by (auto simp: same_but_cache_def)
  have "db_ok d'" using ok d'(2) same_but_cache_objects [OF same] by (simp add: db_ok_def)
  then show ?thesis
    using d' x same ok same_but_cache_refl
    by (cases "find_builtin name ptable") (auto simp: db_find_property_def sbind_def dbpriv_find_object_def)
qed

section \<open>One definition more or less\<close>

lemma slots_change:
  assumes "distinct xs" "\<And>q. q \<noteq> x \<Longrightarrow> defs_len d' q = defs_len d q"
  shows "slots d' xs + (if x \<in> set xs then defs_len d x else 0) = slots d xs + (if x \<in> set xs then defs_len d' x else 0)"
  using assms(1)
proof (induction xs)
  case (Cons a xs)
  have "defs_len d' a = defs_len d a" if "a \<noteq> x" using assms(2) that .
  with Cons show ?case by (cases "a = x") auto
qed simp

lemma start_at_change:
  assumes "\<And>q. q \<noteq> x \<Longrightarrow> defs_len d' q = defs_len d q" "line d' y = line d y"
  shows "start_at d' x y = start_at d x y"
proof -
  have "map (defs_len d') (takeWhile (\<lambda>z. z \<noteq> x) ys) = map (defs_len d) (takeWhile (\<lambda>z. z \<noteq> x) ys)" for ys
    by (rule map_cong) (auto dest: set_takeWhileD intro!: assms(1))
  then show ?thesis unfolding start_at_def slots_def assms(2) by (simp only:)
qed

text \<open>
  A definition on \<open>x\<close> and a value on everything at or below \<open>x\<close> come or go together.
\<close>

lemma layout_step:
  assumes lay: "layout_ok d" and ok: "db_ok d" and sh: "shape d' = shape d" and x: "find_in (objects d) x \<noteq> None"
    and defs: "\<And>q. q \<noteq> x \<Longrightarrow> defs_len d' q = defs_len d q"
    and vals: "\<And>q oq. find_in (objects d) q = Some oq \<Longrightarrow> \<exists>oq'. find_in (objects d') q = Some oq' \<and>
      length (o_propval oq') + (if x \<in> set (line d q) then defs_len d x else 0) =
      length (o_propval oq) + (if x \<in> set (line d q) then defs_len d' x else 0)"
  shows "layout_ok d'"
  unfolding layout_ok_def
proof (intro allI impI)
  fix q oq' assume q': "find_in (objects d') q = Some oq'"
  obtain oq where q: "find_in (objects d) q = Some oq"
    using same_shape_Some [OF sh, of q oq'] q' by (auto simp: dbpriv_find_object_def)
  have "distinct (line d q)" using distinct_line ok by (simp add: db_ok_def)
  from slots_change [OF this, where d = d and d' = d' and x = x] defs
  have "slots d' (line d q) + (if x \<in> set (line d q) then defs_len d x else 0) =
      slots d (line d q) + (if x \<in> set (line d q) then defs_len d' x else 0)" by blast
  moreover have "length (o_propval oq) = slots d (line d q)" using lay q by (simp add: layout_ok_def)
  moreover have "length (o_propval oq') + (if x \<in> set (line d q) then defs_len d x else 0) =
      length (o_propval oq) + (if x \<in> set (line d q) then defs_len d' x else 0)"
    using vals [OF q] q' by auto
  ultimately show "length (o_propval oq') = slots d' (line d' q)" by (simp add: line_same_shape [OF sh])
qed

lemma line_iff:
  assumes "family.linked (objects d)" "find_in (objects d) q = Some oq"
  shows "x \<in> set (line d q) \<longleftrightarrow> q = x \<or> (q, x) \<in> (family.up (objects d))\<^sup>+"
  unfolding set_line [OF assms] by (auto simp: rtrancl_eq_or_trancl)

lemma reshape_ok:
  assumes ok: "db_ok d" and lay: "layout_ok d" and anon: "anonymous_objects d = []"
    and x: "find_in (objects d) x = Some ob"
    and d1: "d1 = upd_obj x (\<lambda>ob. ob\<lparr>o_propdefs := ps\<rparr>) d"
    and root: "\<And>y n. at_root (int n) (Perm y) = upd_if (\<lambda>_ ob. C n (length (o_propval ob))) (\<lambda>_. f n) y"
    and rest: "\<And>y n. at_rest (int n) (Perm y) = upd_if (\<lambda>_ ob. C n (length (o_propval ob))) (\<lambda>_. g n) y"
    and keep: "\<And>n ob. skeleton (f n ob) = skeleton ob \<and> o_propdefs (f n ob) = o_propdefs ob"
      "\<And>n ob. skeleton (g n ob) = skeleton ob \<and> o_propdefs (g n ob) = o_propdefs ob"
    and C: "\<And>k m. k + length (o_propdefs ob) \<le> m \<Longrightarrow> C (k + n) m"
    and len: "\<And>k oy. C k (length (o_propval oy)) \<Longrightarrow> length (o_propval (f k oy)) + length (o_propdefs ob) = length (o_propval oy) + length ps \<and>
      length (o_propval (g k oy)) + length (o_propdefs ob) = length (o_propval oy) + length ps"
  shows "\<exists>d'. along at_root at_rest x (int n) d1 = Some ((), d') \<and>
    find_in (objects d') x = Some (f n (ob\<lparr>o_propdefs := ps\<rparr>)) \<and> (same_shape d d' \<longrightarrow> layout_ok d') \<and> C n (length (o_propval ob))"
proof -
  have L: "family.linked (objects d)" using ok by (simp add: db_ok_def family.ordered_def)
  have "same_shape d (upd_ref (Perm x) (\<lambda>ob. ob\<lparr>o_propdefs := ps\<rparr>) d)" by (rule same_shape_upd_ref) simp
  then have same1: "same_shape d d1" by (simp add: d1)
  then have sh1: "shape d1 = shape d" and an1: "anonymous_objects d1 = []" using anon by (auto simp: same_shape_def)
  have ok1: "db_ok d1" by (rule db_ok_same_shape [OF same1 ok])
  let ?ob = "ob\<lparr>o_propdefs := ps\<rparr>"
  have find1: "find_in (objects d1) q = (if q = x then Some ?ob else find_in (objects d) q)" for q
    using find_upd_obj [of x _ d q] x by (simp add: d1 dbpriv_find_object_def)
  have len1: "defs_len d1 q = defs_len d q" if "q \<noteq> x" for q using find1 that by (simp add: defs_len_def)
  have lenx: "defs_len d x = length (o_propdefs ob)" using x by (simp add: defs_len_def)
  have start: "start_at d1 x y = start_at d x y" for y
    by (rule start_at_change) (simp_all add: len1 line_same_shape [OF sh1])
  have room: "C (start_at d x y + n) (length (o_propval oy))" if "find_in (objects d) y = Some oy" "x \<in> set (line d y)" for y oy
    using start_at_bound [OF that(2)] lay that(1) lenx C [of "start_at d x y" "length (o_propval oy)"] by (simp add: layout_ok_def)
  have up: "family.up (objects d1) = family.up (objects d)" by (rule family_same_shape(2) [OF sh1])
  have irr: "(x, x) \<notin> (family.up (objects d))\<^sup>+" using ok by (simp add: db_ok_def family.ordered_def acyclic_def)
  have "x \<in> set (line d x)" unfolding line_def by (rule list.set_intros(1))
  moreover have "start_at d x x = 0" unfolding start_at_def line_def by simp
  ultimately have root_room: "x \<in> set (line d x)" "C n (length (o_propval ob))" using room [OF x] by auto
  have "\<exists>d'. along at_root at_rest x (int n) d1 = Some ((), d') \<and>
    (\<forall>q. find_in (objects d') q = map_option (if q = x then f n
         else if (q, x) \<in> (family.up (objects d1))\<^sup>+ then g (start_at d1 x q + n) else id) (find_in (objects d1) q))"
  proof (intro along_ok [OF ok1 an1, of x ?ob, where C = "\<lambda>n ob. C n (length (o_propval ob))"])
    show "C (start_at d1 x y + n) (length (o_propval oy))"
      if "(y, x) \<in> (family.up (objects d1))\<^sup>+" "find_in (objects d1) y = Some oy" for y oy
    proof -
      have y: "y \<noteq> x" "find_in (objects d) y = Some oy" using that irr find1 by (auto simp: up split: if_splits)
      then show ?thesis using room [OF y(2)] that(1) line_iff [OF L y(2), of x] by (simp add: start up)
    qed
  qed (simp_all add: find1 root rest keep root_room)
  then obtain d' where run: "along at_root at_rest x (int n) d1 = Some ((), d')"
    and find': "\<And>q. find_in (objects d') q = map_option (if q = x then f n
         else if (q, x) \<in> (family.up (objects d))\<^sup>+ then g (start_at d x q + n) else id) (find_in (objects d1) q)"
    unfolding up start by blast
  have fx: "find_in (objects d') x = Some (f n ?ob)" using find' [of x] find1 [of x] by simp
  have "layout_ok d'" if same': "same_shape d d'"
  proof (rule layout_step [OF lay ok, of d' x])
    show "shape d' = shape d" using same' by (simp add: same_shape_def)
    show "defs_len d' q = defs_len d q" if "q \<noteq> x" for q
      using find' [of q] find1 [of q] that
      by (cases "find_in (objects d) q") (simp_all add: defs_len_def keep)
    have len': "defs_len d' x = length ps" using fx by (simp add: defs_len_def keep)
    fix q oq assume q: "find_in (objects d) q = Some oq"
    show "\<exists>oq'. find_in (objects d') q = Some oq' \<and>
      length (o_propval oq') + (if x \<in> set (line d q) then defs_len d x else 0) =
      length (o_propval oq) + (if x \<in> set (line d q) then defs_len d' x else 0)"
    proof (cases "q = x")
      case True
      then show ?thesis using fx q x root_room len [of n ?ob] by (simp add: lenx len')
    next
      case False
      then show ?thesis using find' [of q] find1 [of q] q room [OF q] line_iff [OF L q, of x] len [of "start_at d x q + n" oq]
        by (cases "(q, x) \<in> (family.up (objects d))\<^sup>+") (simp_all add: lenx len')
    qed
  qed (simp add: x)
  with run fx root_room show ?thesis by blast
qed

lemma add_slots_ok:
  assumes "db_ok d" "layout_ok d" "anonymous_objects d = []" "find_in (objects d) x = Some ob"
    and n: "n = length (o_propdefs ob)"
  shows "\<exists>d'. insert_prop_recursively x (int n) pv (upd_obj x (\<lambda>ob. ob\<lparr>o_propdefs := o_propdefs ob @ [p]\<rparr>) d) = Some ((), d') \<and>
    db_ok d' \<and> layout_ok d' \<and> same_shape d d' \<and> slot_value d' (Perm x) (int n) = Some (pv_var pv) \<and>
    map_option o_propdefs (find_in (objects d') x) = Some (o_propdefs ob @ [p])"
proof -
  let ?d1 = "upd_obj x (\<lambda>ob. ob\<lparr>o_propdefs := o_propdefs ob @ [p]\<rparr>) d"
  have d1: "?d1 = upd_obj x (\<lambda>ob'. ob'\<lparr>o_propdefs := o_propdefs ob @ [p]\<rparr>) d"
    using assms(4) by (simp add: upd_obj_def dbpriv_find_object_def)
  have "\<exists>d'. along (\<lambda>pos r. insert_prop2 r pos pv) (\<lambda>pos r. insert_prop2 r pos (pv\<lparr>pv_var := VCLEAR\<rparr>)) x (int n) ?d1 = Some ((), d') \<and>
    find_in (objects d') x = Some (put_slot n pv (ob\<lparr>o_propdefs := o_propdefs ob @ [p]\<rparr>)) \<and>
    (same_shape d d' \<longrightarrow> layout_ok d') \<and> n \<le> length (o_propval ob)"
    by (rule reshape_ok [OF assms(1-4) d1, where C = "\<lambda>n m. n \<le> m" and g = "\<lambda>n. put_slot n (pv\<lparr>pv_var := VCLEAR\<rparr>)"])
      (auto simp: insert_prop2_upd slot_lengths n intro!: ext)
  then obtain d' where run: "insert_prop_recursively x (int n) pv ?d1 = Some ((), d')"
    and d': "find_in (objects d') x = Some (put_slot n pv (ob\<lparr>o_propdefs := o_propdefs ob @ [p]\<rparr>))"
      "same_shape d d' \<longrightarrow> layout_ok d'" "n \<le> length (o_propval ob)"
    unfolding insert_prop_recursively_along by blast
  have "same_shape d (upd_ref (Perm x) (\<lambda>ob. ob\<lparr>o_propdefs := o_propdefs ob @ [p]\<rparr>) d)" by (rule same_shape_upd_ref) simp
  then have same: "same_shape d d'" using fr.trans [OF _ fr.keepsD [OF keeps_insert_prop_recursively run]] by simp
  have "slot_value d' (Perm x) (int n) = Some (pv_var pv)"
    using d' by (simp add: slot_value_def dbpriv_find_object_def put_slot_def nth_append)
  with run d' same db_ok_same_shape [OF same assms(1)] show ?thesis by (simp add: slot_lengths)
qed

lemma cut_slots_ok:
  assumes "db_ok d" "layout_ok d" "anonymous_objects d = []" "find_in (objects d) x = Some ob"
    and n: "n < length (o_propdefs ob)"
  shows "\<exists>d'. remove_prop_recursively x (int n) (upd_obj x (\<lambda>ob. ob\<lparr>o_propdefs := take n (o_propdefs ob) @ drop (Suc n) (o_propdefs ob)\<rparr>) d) =
      Some ((), d') \<and> db_ok d' \<and> layout_ok d' \<and> same_shape d d' \<and>
    map_option o_propdefs (find_in (objects d') x) = Some (take n (o_propdefs ob) @ drop (Suc n) (o_propdefs ob))"
proof -
  let ?ps = "take n (o_propdefs ob) @ drop (Suc n) (o_propdefs ob)"
  let ?d1 = "upd_obj x (\<lambda>ob. ob\<lparr>o_propdefs := take n (o_propdefs ob) @ drop (Suc n) (o_propdefs ob)\<rparr>) d"
  have d1: "?d1 = upd_obj x (\<lambda>ob'. ob'\<lparr>o_propdefs := ?ps\<rparr>) d"
    using assms(4) by (simp add: upd_obj_def dbpriv_find_object_def)
  have "\<exists>d'. along (\<lambda>pos r. remove_prop2 r pos) (\<lambda>pos r. remove_prop2 r pos) x (int n) ?d1 = Some ((), d') \<and>
    find_in (objects d') x = Some (cut_slot n (ob\<lparr>o_propdefs := ?ps\<rparr>)) \<and>
    (same_shape d d' \<longrightarrow> layout_ok d') \<and> n < length (o_propval ob)"
  proof (rule reshape_ok [OF assms(1-4) d1, where C = "\<lambda>n m. n < m" and g = cut_slot])
    show "length (o_propval (cut_slot k oy)) + length (o_propdefs ob) = length (o_propval oy) + length ?ps \<and>
        length (o_propval (cut_slot k oy)) + length (o_propdefs ob) = length (o_propval oy) + length ?ps"
      if "k < length (o_propval oy)" for k oy
      using slot_lengths(2) [OF that] n by simp
  qed (use n in \<open>auto simp: remove_prop2_upd slot_lengths intro!: ext\<close>)
  then obtain d' where run: "remove_prop_recursively x (int n) ?d1 = Some ((), d')"
    and d': "find_in (objects d') x = Some (cut_slot n (ob\<lparr>o_propdefs := ?ps\<rparr>))" "same_shape d d' \<longrightarrow> layout_ok d'"
    unfolding remove_prop_recursively_along by blast
  have "same_shape d (upd_ref (Perm x) (\<lambda>ob. ob\<lparr>o_propdefs := take n (o_propdefs ob) @ drop (Suc n) (o_propdefs ob)\<rparr>) d)"
    by (rule same_shape_upd_ref) simp
  then have same: "same_shape d d'" using fr.trans [OF _ fr.keepsD [OF keeps_remove_prop_recursively run]] by simp
  with run d' db_ok_same_shape [OF same assms(1)] show ?thesis by (simp add: slot_lengths)
qed

lemma find_def_bound: "find_def name h k ps = Some i \<Longrightarrow> k \<le> i \<and> i < k + length ps"
  by (induction ps arbitrary: k) (fastforce split: if_splits)+

lemma layout_same_objects: "objects d' = objects d \<Longrightarrow> layout_ok d \<Longrightarrow> layout_ok d'"
  by (simp add: layout_ok_def same_objects [of d' d])

section \<open>A database with a property\<close>

text \<open>The root defines \<^verbatim>\<open>weight\<close>; its child has a clear slot for it.\<close>

definition prop_db :: db where
  "prop_db = small_db
     \<lparr>objects := [Some ((plain_object 0 (POne NOTHING) [1] NOTHING [1])
                   \<lparr>o_propdefs := [dbpriv_new_propdef ''weight''],
                    o_propval := [\<lparr>pv_var = VINT 3, pv_owner = 0, pv_perms = PF_READ\<rparr>]\<rparr>),
                  Some ((plain_object 1 (POne 0) [] 0 [])
                   \<lparr>o_propval := [\<lparr>pv_var = VCLEAR, pv_owner = 0, pv_perms = PF_READ\<rparr>]\<rparr>),
                  Some (plain_object 2 (POne NOTHING) [] NOTHING [])]\<rparr>"

lemma prop_db_ok: "db_ok prop_db" "layout_ok prop_db" "anonymous_objects prop_db = []"
proof -
  have "same_shape small_db prop_db"
    by (rule same_shapeI) (simp_all add: prop_db_def shape_def small_db_def skeleton_def)
  then show "db_ok prop_db" using db_ok_same_shape small_db_ok(1) by blast
  have tot: "slots prop_db (line prop_db 0) = 1" "slots prop_db (line prop_db 1) = 1" "slots prop_db (line prop_db 2) = 0"
    by code_simp+
  show "layout_ok prop_db" unfolding layout_ok_def
  proof (intro allI impI)
    fix q oq assume f: "find_in (objects prop_db) q = Some oq"
    then have "q = 0 \<or> q = 1 \<or> q = 2" by (auto simp: find_in_def prop_db_def split: if_splits)
    with f show "length (o_propval oq) = slots prop_db (line prop_db q)"
      by (elim disjE) (simp_all add: tot, auto simp: find_in_def prop_db_def plain_object_def)
  qed
  show "anonymous_objects prop_db = []" by (simp add: prop_db_def small_db_def)
qed

section \<open>Properties\<close>





end
