(* ===== verification/CLib.thy ===== *)
theory CLib
  imports Prelude
begin

text \<open>
  What the sources use of the C library to read numbers: the character classes of the C
  locale and \<^verbatim>\<open>strtol\<close>/\<^verbatim>\<open>strtoimax\<close> in base ten on 64 bits.
\<close>

definition isspace :: "char \<Rightarrow> bool" where
  "isspace c = (byte_of c = 32 \<or> 9 \<le> byte_of c \<and> byte_of c \<le> 13)"

definition isdigit :: "char \<Rightarrow> bool" where
  "isdigit c = (48 \<le> byte_of c \<and> byte_of c \<le> 57)"

definition digit_value :: "char \<Rightarrow> int" where
  "digit_value c = int (byte_of c) - 48"

text \<open>The digits at the start of a string, their value, and what follows them.\<close>

definition digits_value :: "string \<Rightarrow> int" where
  "digits_value ds = foldl (\<lambda>n c. n * 10 + digit_value c) 0 ds"

definition clamp64 :: "int \<Rightarrow> int" where
  "clamp64 n = max (- (2 ^ 63)) (min (2 ^ 63 - 1) n)"

definition is_sign :: "string \<Rightarrow> bool" where
  "is_sign s = (case s of [] \<Rightarrow> False | c # _ \<Rightarrow> c = CHR ''-'' \<or> c = CHR ''+'')"

text \<open>
  The value and the rest of the string; without a digit the value is 0 and the rest is the
  whole string. A number out of range is clamped.
\<close>

definition strtol :: "string \<Rightarrow> int \<times> string" where
  "strtol s =
     (let s1 = dropWhile isspace s;
          neg = (s1 \<noteq> [] \<and> hd s1 = CHR ''-'');
          s2 = (if is_sign s1 then tl s1 else s1);
          ds = takeWhile isdigit s2
      in if ds = [] then (0, s)
         else (clamp64 (if neg then - digits_value ds else digits_value ds), dropWhile isdigit s2))"

section \<open>Reading back a printed number\<close>

text \<open>\<^verbatim>\<open>%d\<close> and its relatives: the decimal digits of a number.\<close>

fun print_nat :: "nat \<Rightarrow> string" where
  "print_nat n = (if n < 10 then [char_of (48 + n)] else print_nat (n div 10) @ [char_of (48 + n mod 10)])"

declare print_nat.simps [simp del]

definition print_int :: "int \<Rightarrow> string" where
  "print_int n = (if n < 0 then CHR ''-'' # print_nat (nat (- n)) else print_nat (nat n))"

lemma digit_char: "d < 10 \<Longrightarrow> isdigit (char_of (48 + d)) \<and> digit_value (char_of (48 + d)) = int d"
  by (simp add: isdigit_def digit_value_def)

lemma digits_value_snoc: "digits_value (ds @ [c]) = digits_value ds * 10 + digit_value c"
  by (simp add: digits_value_def)

lemma print_nat_ok: "list_all isdigit (print_nat n) \<and> print_nat n \<noteq> [] \<and> digits_value (print_nat n) = int n"
proof (induction n rule: print_nat.induct)
  case (1 n)
  show ?case
  proof (cases "n < 10")
    case True
    then show ?thesis using digit_char [OF True] by (simp add: print_nat.simps [of n] digits_value_def)
  next
    case False
    have "digits_value (print_nat n) = int (n div 10) * 10 + int (n mod 10)"
      using 1 [OF False] digit_char [of "n mod 10"] False
      by (subst print_nat.simps) (simp add: digits_value_snoc)
    also have "\<dots> = int n" using div_mult_mod_eq [of n 10] by linarith
    finally show ?thesis using 1 [OF False] digit_char [of "n mod 10"] False by (subst (1 2) print_nat.simps) simp
  qed
qed

lemma print_nat_hd: "isdigit (hd (print_nat n))"
  using print_nat_ok [of n] by (cases "print_nat n") auto

lemma strtol_digits:
  assumes "list_all isdigit ds" "ds \<noteq> []" "rest = [] \<or> \<not> isdigit (hd rest)"
  shows "strtol (ds @ rest) = (clamp64 (digits_value ds), rest)"
    and "strtol (CHR ''-'' # ds @ rest) = (clamp64 (- digits_value ds), rest)"
proof -
  have tk: "takeWhile isdigit (ds @ rest) = ds" "dropWhile isdigit (ds @ rest) = rest"
    using assms by (cases rest; simp add: list_all_iff)+
  obtain c cs where ds: "ds = c # cs" "isdigit c" using assms by (cases ds) auto
  have c: "\<not> isspace c" "c \<noteq> CHR ''-''" "c \<noteq> CHR ''+''"
    using ds(2) by (auto simp: isdigit_def isspace_def byte_of_def)
  have m: "\<not> isspace (CHR ''-'')" by (simp add: isspace_def byte_of_def)
  show "strtol (ds @ rest) = (clamp64 (digits_value ds), rest)"
    using c tk ds by (simp add: strtol_def is_sign_def)
  show "strtol (CHR ''-'' # ds @ rest) = (clamp64 (- digits_value ds), rest)"
    using c m tk ds by (simp add: strtol_def is_sign_def)
qed

lemma strtol_print_int:
  assumes "- (2 ^ 63) \<le> n" "n < 2 ^ 63" "rest = [] \<or> \<not> isdigit (hd rest)"
  shows "strtol (print_int n @ rest) = (n, rest)"
  using assms strtol_digits [OF _ _ assms(3)] print_nat_ok
  by (auto simp: print_int_def clamp64_def)

end
