(* ===== verification/DbVerbs.thy ===== *)
theory DbVerbs
  imports DbInvariants CLib
begin

text \<open>
  The verbs of objects, \<^verbatim>\<open>db_verbs.cc\<close>: definitions on an object, their flags and
  argument specifications, the search for a verb along the ancestors, and the verb cache.
  A handle is the object that defines the verb and the position of the definition on it.
\<close>

section \<open>Definitions\<close>

abbreviation "VF_READ \<equiv> 1 :: int"
abbreviation "VF_WRITE \<equiv> 2 :: int"
abbreviation "VF_EXEC \<equiv> 4 :: int"
abbreviation "VF_DEBUG \<equiv> 8 :: int"

abbreviation "ASPEC_NONE \<equiv> 0 :: int"
abbreviation "ASPEC_ANY \<equiv> 1 :: int"
abbreviation "ASPEC_THIS \<equiv> 2 :: int"

abbreviation "PREP_ANY \<equiv> - 2 :: int"
abbreviation "PREP_NONE \<equiv> - 1 :: int"

abbreviation "DOBJSHIFT \<equiv> 4 :: nat"
abbreviation "IOBJSHIFT \<equiv> 6 :: nat"
abbreviation "OBJMASK \<equiv> 3 :: int"
abbreviation "PERMMASK \<equiv> 15 :: int"

type_synonym vhandle = "oref \<times> nat"

text \<open>Stored in a field of type \<^verbatim>\<open>short\<close>.\<close>

definition to_short :: "int \<Rightarrow> int" where
  "to_short x = signed_take_bit 15 x"

definition pack_perms :: "int \<Rightarrow> int \<Rightarrow> int \<Rightarrow> int" where
  "pack_perms flags dobj iobj = to_short (flags OR push_bit DOBJSHIFT dobj OR push_bit IOBJSHIFT iobj)"

definition dobj_spec :: "verbdef \<Rightarrow> int" where
  "dobj_spec v = drop_bit DOBJSHIFT (vd_perms v) AND OBJMASK"

definition iobj_spec :: "verbdef \<Rightarrow> int" where
  "iobj_spec v = drop_bit IOBJSHIFT (vd_perms v) AND OBJMASK"

definition db_add_verb ::
  "oref \<Rightarrow> string \<Rightarrow> objid \<Rightarrow> int \<Rightarrow> int \<Rightarrow> int \<Rightarrow> int \<Rightarrow> db \<Rightarrow> (nat \<times> db) option" where
  "db_add_verb obj vnames owner flags dobj prep iobj d =
     (case dbpriv_dereference d obj of
        None \<Rightarrow> None
      | Some ob \<Rightarrow>
          let newv = \<lparr>vd_name = vnames, vd_program = None, vd_owner = owner,
                      vd_perms = pack_perms flags dobj iobj, vd_prep = to_short prep\<rparr>
          in Some (length (o_verbdefs ob) + 1,
                   upd_ref obj (\<lambda>ob. ob\<lparr>o_verbdefs := o_verbdefs ob @ [newv]\<rparr>)
                     (db_priv_affected_callable_verb_lookup d)))"

fun first_index :: "('a \<Rightarrow> bool) \<Rightarrow> 'a list \<Rightarrow> nat option" where
  "first_index P [] = None"
| "first_index P (x # xs) = (if P x then Some 0 else map_option Suc (first_index P xs))"

text \<open>
  \<^verbatim>\<open>verbcasecmp\<close> first compares two pointers: \<open>same v\<close> says that the name of the
  definition and the name looked up are the very same string in memory.
\<close>

definition verb_matches :: "(verbdef \<Rightarrow> bool) \<Rightarrow> string \<Rightarrow> bool \<Rightarrow> verbdef \<Rightarrow> bool" where
  "verb_matches same vname check_x_bit v =
     (verbcasecmp (same v) (vd_name v) vname \<and> (\<not> check_x_bit \<or> vd_perms v AND VF_EXEC \<noteq> 0))"

definition find_verbdef_by_name :: "(verbdef \<Rightarrow> bool) \<Rightarrow> object \<Rightarrow> string \<Rightarrow> bool \<Rightarrow> nat option" where
  "find_verbdef_by_name same ob vname check_x_bit =
     first_index (verb_matches same vname check_x_bit) (o_verbdefs ob)"

definition db_count_verbs :: "db \<Rightarrow> oref \<Rightarrow> nat option" where
  "db_count_verbs d obj = map_option (\<lambda>ob. length (o_verbdefs ob)) (dbpriv_dereference d obj)"

definition db_for_all_verbs :: "db \<Rightarrow> oref \<Rightarrow> string list option" where
  "db_for_all_verbs d obj = map_option (\<lambda>ob. map vd_name (o_verbdefs ob)) (dbpriv_dereference d obj)"

text \<open>The definition that a handle points to, and an assignment to one of its fields.\<close>

definition handle_verbdef :: "db \<Rightarrow> vhandle \<Rightarrow> verbdef option" where
  "handle_verbdef d h =
     (case dbpriv_dereference d (fst h) of
        None \<Rightarrow> None
      | Some ob \<Rightarrow> if snd h < length (o_verbdefs ob) then Some (o_verbdefs ob ! snd h) else None)"

definition upd_verbdef :: "vhandle \<Rightarrow> (verbdef \<Rightarrow> verbdef) \<Rightarrow> db \<Rightarrow> db option" where
  "upd_verbdef h f d =
     (case handle_verbdef d h of
        None \<Rightarrow> None
      | Some v \<Rightarrow> Some (upd_ref (fst h) (\<lambda>ob. ob\<lparr>o_verbdefs := (o_verbdefs ob)[snd h := f v]\<rparr>) d))"

definition db_delete_verb :: "vhandle \<Rightarrow> db \<Rightarrow> db option" where
  "db_delete_verb h d =
     (let d1 = db_priv_affected_callable_verb_lookup d in
      case handle_verbdef d1 h of
        None \<Rightarrow> None
      | Some _ \<Rightarrow>
          Some (upd_ref (fst h)
            (\<lambda>ob. ob\<lparr>o_verbdefs := take (snd h) (o_verbdefs ob) @ drop (Suc (snd h)) (o_verbdefs ob)\<rparr>) d1))"

definition db_verb_definer :: "vhandle \<Rightarrow> oref" where
  "db_verb_definer h = fst h"

definition db_verb_names :: "db \<Rightarrow> vhandle \<Rightarrow> string option" where
  "db_verb_names d h = map_option vd_name (handle_verbdef d h)"

definition db_set_verb_names :: "vhandle \<Rightarrow> string \<Rightarrow> db \<Rightarrow> db option" where
  "db_set_verb_names h names d =
     upd_verbdef h (\<lambda>v. v\<lparr>vd_name := names\<rparr>) (db_priv_affected_callable_verb_lookup d)"

definition db_verb_owner :: "db \<Rightarrow> vhandle \<Rightarrow> objid option" where
  "db_verb_owner d h = map_option vd_owner (handle_verbdef d h)"

definition db_set_verb_owner :: "vhandle \<Rightarrow> objid \<Rightarrow> db \<Rightarrow> db option" where
  "db_set_verb_owner h owner = upd_verbdef h (\<lambda>v. v\<lparr>vd_owner := owner\<rparr>)"

definition db_verb_flags :: "db \<Rightarrow> vhandle \<Rightarrow> int option" where
  "db_verb_flags d h = map_option (\<lambda>v. vd_perms v AND PERMMASK) (handle_verbdef d h)"

definition db_set_verb_flags :: "vhandle \<Rightarrow> int \<Rightarrow> db \<Rightarrow> db option" where
  "db_set_verb_flags h flags d =
     upd_verbdef h (\<lambda>v. v\<lparr>vd_perms := to_short (to_short (vd_perms v AND NOT PERMMASK) OR flags)\<rparr>)
       (db_priv_affected_callable_verb_lookup d)"

definition db_verb_program :: "db \<Rightarrow> vhandle \<Rightarrow> nat option option" where
  "db_verb_program d h = map_option vd_program (handle_verbdef d h)"

definition db_set_verb_program :: "vhandle \<Rightarrow> nat \<Rightarrow> db \<Rightarrow> db option" where
  "db_set_verb_program h program = upd_verbdef h (\<lambda>v. v\<lparr>vd_program := Some program\<rparr>)"

definition db_verb_arg_specs :: "db \<Rightarrow> vhandle \<Rightarrow> (int \<times> int \<times> int) option" where
  "db_verb_arg_specs d h = map_option (\<lambda>v. (dobj_spec v, vd_prep v, iobj_spec v)) (handle_verbdef d h)"

definition db_set_verb_arg_specs :: "vhandle \<Rightarrow> int \<Rightarrow> int \<Rightarrow> int \<Rightarrow> db \<Rightarrow> db option" where
  "db_set_verb_arg_specs h dobj prep iobj d =
     upd_verbdef h (\<lambda>v. v\<lparr>vd_perms := pack_perms (vd_perms v AND PERMMASK) dobj iobj, vd_prep := to_short prep\<rparr>)
       (db_priv_affected_callable_verb_lookup d)"

definition db_verb_allows :: "db \<Rightarrow> vhandle \<Rightarrow> objid \<Rightarrow> int \<Rightarrow> bool option" where
  "db_verb_allows d h progr flag =
     map_option (\<lambda>v. (vd_perms v AND PERMMASK) AND flag \<noteq> 0 \<or> progr = vd_owner v \<or> is_wizard d progr)
       (handle_verbdef d h)"

section \<open>Finding a verb\<close>

definition command_matches :: "(verbdef \<Rightarrow> bool) \<Rightarrow> string \<Rightarrow> int \<Rightarrow> int \<Rightarrow> int \<Rightarrow> verbdef \<Rightarrow> bool" where
  "command_matches same verb dobj prep iobj v =
     (verbcasecmp (same v) (vd_name v) verb
      \<and> (dobj_spec v = ASPEC_ANY \<or> dobj_spec v = dobj)
      \<and> (vd_prep v = PREP_ANY \<or> vd_prep v = prep)
      \<and> (iobj_spec v = ASPEC_ANY \<or> iobj_spec v = iobj))"

text \<open>The first match along a list of objects; \<open>None\<close> is one that is no object.\<close>

fun match_along :: "db \<Rightarrow> (verbdef \<Rightarrow> bool) \<Rightarrow> oref list \<Rightarrow> vhandle option option" where
  "match_along d P [] = Some None"
| "match_along d P (r # rs) =
     (case dbpriv_dereference d r of
        None \<Rightarrow> None
      | Some ob \<Rightarrow>
          (case first_index P (o_verbdefs ob) of
             Some i \<Rightarrow> Some (Some (r, i))
           | None \<Rightarrow> match_along d P rs))"

definition db_find_command_verb ::
  "(verbdef \<Rightarrow> bool) \<Rightarrow> objid \<Rightarrow> string \<Rightarrow> int \<Rightarrow> int \<Rightarrow> int \<Rightarrow> db \<Rightarrow> (vhandle option \<times> db) option" where
  "db_find_command_verb same oid verb dobj prep iobj =
     sbind (db_ancestors (Perm oid) True) (\<lambda>ancestors.
       sget (\<lambda>d. match_along d (command_matches same verb dobj prep iobj) ancestors))"

text \<open>
  \<^verbatim>\<open>find_callable_verbdef\<close>: a stack of ancestors, with nothing marked. \<open>None\<close> is a
  search that does not end.
\<close>

partial_function (option) callable_loop ::
  "object option list \<Rightarrow> (verbdef \<Rightarrow> bool) \<Rightarrow> objid list \<Rightarrow> vhandle option option"
  where [code]: "callable_loop objs P stack =
     (case stack of
        [] \<Rightarrow> Some None
      | oid # rest \<Rightarrow>
          (case find_in objs oid of
             None \<Rightarrow> callable_loop objs P rest
           | Some ob \<Rightarrow>
               (case first_index P (o_verbdefs ob) of
                  Some i \<Rightarrow> Some (Some (Perm oid, i))
                | None \<Rightarrow> callable_loop objs P (o_parent_list ob @ rest))))"

definition find_callable_verbdef :: "db \<Rightarrow> (verbdef \<Rightarrow> bool) \<Rightarrow> oref \<Rightarrow> string \<Rightarrow> vhandle option option" where
  "find_callable_verbdef d same start verb =
     (case dbpriv_dereference d start of
        None \<Rightarrow> None
      | Some ob \<Rightarrow>
          (case find_verbdef_by_name same ob verb True of
             Some i \<Rightarrow> Some (Some (start, i))
           | None \<Rightarrow> callable_loop (objects d) (verb_matches same verb True) (o_parent_list ob)))"

text \<open>
  The verb cache. An entry is filed by a hash of the name and of the address of the object,
  \<open>addr\<close>.
\<close>

abbreviation "DEFAULT_VC_SIZE \<equiv> 7507 :: 32 word"

definition vc_key :: "(oref \<Rightarrow> 64 word) \<Rightarrow> string \<Rightarrow> oref \<Rightarrow> 32 word" where
  "vc_key addr verb r = ucast (ucast (str_hash verb) XOR NOT (addr r))"

definition vc_bucket :: "32 word \<Rightarrow> 32 word" where
  "vc_bucket h = h mod DEFAULT_VC_SIZE"

definition vc_buckets :: "db \<Rightarrow> 32 word \<Rightarrow> vc_entry list" where
  "vc_buckets d = (case vc_table d of None \<Rightarrow> (\<lambda>_. []) | Some t \<Rightarrow> t)"

definition vc_find :: "(oref \<Rightarrow> 64 word) \<Rightarrow> string \<Rightarrow> oref \<Rightarrow> db \<Rightarrow> vc_entry option" where
  "vc_find addr verb r d =
     (let h = vc_key addr verb r in
      List.find (\<lambda>e. h = vc_hash e \<and> r = vc_object e \<and> strcasecmp verb (vc_verbname e) = 0)
        (vc_buckets d (vc_bucket h)))"

definition vc_add :: "(oref \<Rightarrow> 64 word) \<Rightarrow> string \<Rightarrow> oref \<Rightarrow> vhandle option \<Rightarrow> db \<Rightarrow> db" where
  "vc_add addr verb r handle d =
     (let h = vc_key addr verb r; b = vc_bucket h; t = vc_buckets d
      in d\<lparr>vc_table := Some (t(b := \<lparr>vc_hash = h, vc_object = r, vc_verbname = verb, vc_handle = handle\<rparr> # t b)),
           verbcache_miss := verbcache_miss d + 1\<rparr>)"

definition vc_count :: "vhandle option \<Rightarrow> db \<Rightarrow> db" where
  "vc_count handle d =
     (let d1 = d\<lparr>vc_table := Some (vc_buckets d)\<rparr>
      in if handle = None then d1\<lparr>verbcache_neg_hit := verbcache_neg_hit d + 1\<rparr>
         else d1\<lparr>verbcache_hit := verbcache_hit d + 1\<rparr>)"

text \<open>
  \<^verbatim>\<open>db_find_callable_verb\<close>: from the receiver up to the first ancestor with verbs, then
  the cache, then the search from there; a miss goes on with what is left on the stack.
\<close>

record lookup =
  lk_addr :: "oref \<Rightarrow> 64 word"
  lk_same :: "verbdef \<Rightarrow> bool"
  lk_verb :: string

partial_function (option) callable_search ::
  "lookup \<Rightarrow> oref list \<Rightarrow> db \<Rightarrow> (vhandle option \<times> db) option"
  where [code]: "callable_search k stack d =
     (case stack of
        [] \<Rightarrow> Some (None, d)
      | r # rest \<Rightarrow>
          (case is_valid r d of (ok, d1) \<Rightarrow>
            (if \<not> ok then callable_search k rest d1
             else case dbpriv_dereference d1 r of
               None \<Rightarrow> None
             | Some ob \<Rightarrow>
                 if o_verbdefs ob = []
                 then callable_search k (map Perm (o_parent_list ob) @ rest) d1
                 else (case vc_find (lk_addr k) (lk_verb k) r d1 of
                         Some e \<Rightarrow>
                           (case vc_handle e of
                              Some h \<Rightarrow> Some (Some h, vc_count (Some h) d1)
                            | None \<Rightarrow> callable_search k rest (vc_count None d1))
                       | None \<Rightarrow>
                           (case find_callable_verbdef d1 (lk_same k) r (lk_verb k) of
                              None \<Rightarrow> None
                            | Some handle \<Rightarrow>
                                (case handle of
                                   None \<Rightarrow> callable_search k rest (vc_add (lk_addr k) (lk_verb k) r None d1)
                                 | Some h \<Rightarrow> Some (Some h, vc_add (lk_addr k) (lk_verb k) r (Some h) d1)))))))"

definition db_find_callable_verb ::
  "(oref \<Rightarrow> 64 word) \<Rightarrow> (verbdef \<Rightarrow> bool) \<Rightarrow> oref \<Rightarrow> string \<Rightarrow> db \<Rightarrow> (vhandle option \<times> db) option" where
  "db_find_callable_verb addr same recv verb d =
     callable_search \<lparr>lk_addr = addr, lk_same = same, lk_verb = verb\<rparr> [recv] d"

text \<open>
  \<^verbatim>\<open>db_find_defined_verb\<close>: by position, when numbers are allowed and the whole name
  reads as one, or by name. The value of \<^verbatim>\<open>strtol\<close> is stored in an \<^verbatim>\<open>int\<close>.
\<close>

definition verb_number :: "string \<Rightarrow> bool \<Rightarrow> int" where
  "verb_number vname allow_numbers =
     (if \<not> allow_numbers \<or> (vname \<noteq> [] \<and> isspace (hd vname)) \<or> snd (strtol vname) \<noteq> [] then - 1
      else to_int32 (fst (strtol vname)))"

definition db_find_defined_verb :: "(verbdef \<Rightarrow> bool) \<Rightarrow> oref \<Rightarrow> string \<Rightarrow> bool \<Rightarrow> db \<Rightarrow> vhandle option option" where
  "db_find_defined_verb same obj vname allow_numbers d =
     (case dbpriv_dereference d obj of
        None \<Rightarrow> None
      | Some ob \<Rightarrow>
          let num = verb_number vname allow_numbers in
          Some (map_option (\<lambda>i. (obj, i))
            (first_index (\<lambda>(i, v). int i = num \<or> verbcasecmp (same v) (vd_name v) vname)
               (enumerate 0 (o_verbdefs ob)))))"

definition db_find_indexed_verb :: "oref \<Rightarrow> nat \<Rightarrow> db \<Rightarrow> vhandle option option" where
  "db_find_indexed_verb obj index d =
     (case dbpriv_dereference d obj of
        None \<Rightarrow> None
      | Some ob \<Rightarrow>
          Some (if 1 \<le> index \<and> index \<le> length (o_verbdefs ob) then Some (obj, index - 1) else None))"

text \<open>\<^verbatim>\<open>db_verb_cache_stats\<close>: the counters and a histogram of the lengths of the buckets.\<close>

abbreviation "VC_CACHE_STATS_MAX \<equiv> 16 :: nat"

definition vc_histogram :: "db \<Rightarrow> nat list" where
  "vc_histogram d =
     (let depths = (case vc_table d of None \<Rightarrow> [] | Some t \<Rightarrow> map (\<lambda>i. min VC_CACHE_STATS_MAX (length (t (of_nat i)))) [0..<unat DEFAULT_VC_SIZE])
      in map (count_list depths) [0..<VC_CACHE_STATS_MAX + 1])"

definition db_verb_cache_stats :: "db \<Rightarrow> var" where
  "db_verb_cache_stats d =
     VLIST [VINT (of_int (verbcache_hit d)), VINT (of_int (verbcache_neg_hit d)), VINT (of_int (verbcache_miss d)),
            VINT (of_int (db_verb_generation d)), VLIST (map (\<lambda>n. VINT (of_nat n)) (vc_histogram d))]"

end
