(* ===== verification/VerbLookup.thy ===== *)
theory VerbLookup
  imports DbVerbs
begin

text \<open>
  Looking up a callable verb: the search that marks nothing ends and finds the first match
  in the order of the ancestors, and the verb cache, when coherent, changes neither the
  answer nor its own coherence.
\<close>

section \<open>The search along the ancestors\<close>

text \<open>The first match along a list of object numbers.\<close>

fun first_match :: "object option list \<Rightarrow> (verbdef \<Rightarrow> bool) \<Rightarrow> objid list \<Rightarrow> vhandle option" where
  "first_match objs P [] = None"
| "first_match objs P (oid # oids) =
     (case Option.bind (find_in objs oid) (\<lambda>ob. first_index P (o_verbdefs ob)) of
        Some i \<Rightarrow> Some (Perm oid, i)
      | None \<Rightarrow> first_match objs P oids)"

abbreviation no_match :: "object option list \<Rightarrow> (verbdef \<Rightarrow> bool) \<Rightarrow> objid \<Rightarrow> bool" where
  "no_match objs P oid \<equiv> first_match objs P [oid] = None"

lemma first_match_append:
  "first_match objs P (xs @ ys) =
     (case first_match objs P xs of Some h \<Rightarrow> Some h | None \<Rightarrow> first_match objs P ys)"
  by (induction xs) (auto split: option.splits)

lemma first_match_None: "first_match objs P xs = None \<longleftrightarrow> (\<forall>x \<in> set xs. no_match objs P x)"
  by (induction xs) (auto split: option.splits)

lemma callable_loop_Nil [simp]: "callable_loop objs P [] = Some None"
  by (subst callable_loop.simps) simp

lemma callable_loop_Cons:
  "callable_loop objs P (oid # rest) =
     (case find_in objs oid of
        None \<Rightarrow> callable_loop objs P rest
      | Some ob \<Rightarrow> (case first_match objs P [oid] of
                      Some h \<Rightarrow> Some (Some h)
                    | None \<Rightarrow> callable_loop objs P (o_parent_list ob @ rest)))"
  by (subst callable_loop.simps) (auto split: option.split)

text \<open>Induction along a stack of objects and what may be pushed in their place.\<close>

lemma stack_induct [consumes 1, case_names Nil Cons]:
  assumes "family.ordered objs"
    and "Q []"
    and "\<And>oid rest. Q rest \<Longrightarrow> (\<And>ob. find_in objs oid = Some ob \<Longrightarrow> Q (o_parent_list ob)) \<Longrightarrow>
      (\<And>ob. find_in objs oid = Some ob \<Longrightarrow> Q (o_parent_list ob @ rest)) \<Longrightarrow> Q (oid # rest)"
  shows "Q stack"
proof (induction "mset stack" arbitrary: stack rule: wf_induct_rule [OF wf_mult [OF wf_below [OF assms(1)]]])
  case 1
  show ?case
  proof (cases stack)
    case (Cons oid rest)
    have sub: "(mset (o_parent_list ob), mset (oid # rest)) \<in> mult (below objs)" if "find_in objs oid = Some ob" for ob
      using one_step_implies_mult [of "mset (oid # rest)" "mset (o_parent_list ob)" "below objs" "{#}"]
        parent_in_below [OF that] by auto
    show ?thesis unfolding Cons
      by (rule assms(3))
        (use 1 Cons below_shorter [of rest oid objs] below_expand [of objs oid _ rest] sub in \<open>auto simp: add.commute\<close>)
  qed (use assms(2) in simp)
qed

lemma callable_loop_append:
  assumes "family.ordered objs"
  shows "callable_loop objs P (xs @ ys) =
    (case callable_loop objs P xs of None \<Rightarrow> None | Some (Some h) \<Rightarrow> Some (Some h) | Some None \<Rightarrow> callable_loop objs P ys)"
  using assms
proof (induction xs rule: stack_induct)
  case (Cons oid rest)
  then show ?case
    by (cases "find_in objs oid"; cases "first_match objs P [oid]") (simp_all add: callable_loop_Cons del: first_match.simps)
qed simp

text \<open>The objects above, and including, those on a stack.\<close>

definition above_of :: "object option list \<Rightarrow> objid list \<Rightarrow> objid set" where
  "above_of objs xs = {y. \<exists>x \<in> set xs. (x, y) \<in> (family.up objs)\<^sup>*}"

lemma above_of_parents:
  assumes "family.linked objs" "find_in objs oid = Some ob"
  shows "y \<in> above_of objs (o_parent_list ob) \<Longrightarrow> y = NOTHING \<or> y \<in> above_of objs [oid]"
proof -
  assume "y \<in> above_of objs (o_parent_list ob)"
  then obtain p where p: "p \<in> set (o_parent_list ob)" "(p, y) \<in> (family.up objs)\<^sup>*" by (auto simp: above_of_def)
  show ?thesis
  proof (cases "p = NOTHING")
    case True
    then show ?thesis using p(2) family_rtrancl_valid(1) [OF assms(1), of NOTHING y] by auto
  next
    case False
    then have "(oid, p) \<in> family.up objs" using p(1) parent_list_up(2) [OF assms] by blast
    then show ?thesis using p(2) by (auto simp: above_of_def intro: converse_rtrancl_into_rtrancl)
  qed
qed

lemma callable_loop_nothing:
  assumes ord: "family.ordered objs"
  shows "\<forall>y \<in> above_of objs xs. no_match objs P y \<Longrightarrow> callable_loop objs P xs = Some None"
  using assms
proof (induction xs rule: stack_induct)
  case (Cons oid rest)
  have L: "family.linked objs" using ord by (simp add: family.ordered_def)
  show ?case
  proof (cases "find_in objs oid")
    case None
    have "callable_loop objs P rest = Some None" by (rule Cons(1)) (use Cons(4) in \<open>auto simp: above_of_def\<close>)
    then show ?thesis using None by (simp add: callable_loop_Cons)
  next
    case (Some ob)
    have nm: "no_match objs P oid" using Cons(4) by (auto simp: above_of_def simp del: first_match.simps)
    have "no_match objs P NOTHING" by simp
    moreover have "no_match objs P y" if "y \<in> above_of objs [oid]" for y
      using that Cons(4) by (auto simp: above_of_def simp del: first_match.simps)
    ultimately have "callable_loop objs P (o_parent_list ob) = Some None"
      using Cons(2) [OF Some] above_of_parents [OF L Some] by (metis (no_types))
    moreover have "callable_loop objs P rest = Some None"
      by (rule Cons(1)) (use Cons(4) in \<open>auto simp: above_of_def simp del: first_match.simps\<close>)
    ultimately show ?thesis
      using Some nm by (simp add: callable_loop_Cons callable_loop_append [OF ord] del: first_match.simps)
  qed
qed simp

lemma closed_above:
  assumes "family.linked objs" "closed_but objs o_parent_list B {}" "b \<in> B" "(b, y) \<in> (family.up objs)\<^sup>*"
  shows "y \<in> B"
  using assms(4,3)
proof (induction rule: rtrancl_induct)
  case (step y z)
  then have "edge objs o_parent_list y z" using edge_parents [OF assms(1)] by blast
  then show ?case using step assms(2) by (auto simp: closed_but_def)
qed

lemma walk_extra_bit:
  "oid \<notin> set (walk objs fld stack bits) \<Longrightarrow> walk objs fld stack (oid # bits) = walk objs fld stack bits"
proof (induction objs fld stack bits rule: walk.induct)
  case (2 objs fld x stack bits)
  show ?case
  proof (cases "find_in objs x = None \<or> x \<in> set bits")
    case True
    then show ?thesis using 2 by (auto split: option.splits)
  next
    case False
    then obtain ob where ob: "find_in objs x = Some ob" "x \<notin> set bits" by auto
    have "walk objs fld (fld ob @ stack) (x # oid # bits) = walk objs fld (fld ob @ stack) (oid # x # bits)"
      by (rule walk_bits_cong) auto
    with 2 ob show ?thesis by auto
  qed
qed simp

lemma callable_loop_walk:
  assumes ord: "family.ordered objs"
  shows "closed_but objs o_parent_list (set bits) {} \<Longrightarrow> \<forall>b \<in> set bits. no_match objs P b \<Longrightarrow>
    callable_loop objs P stack = Some (first_match objs P (walk objs o_parent_list stack bits))"
  using assms
proof (induction stack arbitrary: bits rule: stack_induct)
  case (Cons oid rest)
  have L: "family.linked objs" using ord by (simp add: family.ordered_def)
  let ?walk = "walk objs o_parent_list"
  show ?case
  proof (cases "find_in objs oid")
    case None
    then show ?thesis using Cons(1) [OF Cons(4,5)] by (simp add: callable_loop_Cons)
  next
    case (Some ob)
    show ?thesis
    proof (cases "oid \<in> set bits")
      case True
      have "no_match objs P y" if "y \<in> above_of objs (o_parent_list ob)" for y
        using above_of_parents [OF L Some that] closed_above [OF L Cons(4) True, of y] Cons(5)
        by (auto simp: above_of_def simp del: first_match.simps(2)) simp
      then have "callable_loop objs P (o_parent_list ob) = Some None" by (blast intro: callable_loop_nothing [OF ord])
      then show ?thesis
        using Some True Cons(1) [OF Cons(4,5)] Cons(5)
        by (simp add: callable_loop_Cons callable_loop_append [OF ord] del: first_match.simps(2))
    next
      case False
      let ?w = "?walk (o_parent_list ob) bits"
      have "oid \<notin> set ?w"
      proof
        assume "oid \<in> set ?w"
        then obtain a where "a \<in> set (o_parent_list ob)" "find_in objs a \<noteq> None" "(edge objs o_parent_list)\<^sup>*\<^sup>* a oid"
          using walk_sound by blast
        moreover from this have "edge objs o_parent_list oid a" using Some by (auto simp: edge_def)
        ultimately have "(edge objs o_parent_list)\<^sup>+\<^sup>+ oid oid" by (blast intro: rtranclp_into_tranclp2)
        then have "(oid, oid) \<in> (family.up objs)\<^sup>+" using tranclp_edge_up edge_parents [OF L] by metis
        then show False using ord by (simp add: family.ordered_def acyclic_def)
      qed
      then have w: "?walk (o_parent_list ob) (oid # bits) = ?w" by (rule walk_extra_bit)
      let ?bits = "rev ?w @ oid # bits"
      have walk: "?walk (oid # rest) bits = oid # ?w @ ?walk rest ?bits"
        using Some False by (simp add: walk_append w)
      have IH: "callable_loop objs P (o_parent_list ob) = Some (first_match objs P ?w)"
        by (rule Cons(2) [OF Some Cons(4,5)])
      have "closed_but objs o_parent_list (set bits) (set (o_parent_list ob))"
        using Cons(4) by (auto simp: closed_but_def)
      from walk_closed [OF this] Some have closed: "closed_but objs o_parent_list (set ?bits) {}"
        by (auto simp: closed_but_def edge_def)
      show ?thesis
      proof (cases "first_match objs P (oid # ?w)")
        case None
        then have none: "no_match objs P oid" "first_match objs P ?w = None"
          using first_match_append [of objs P "[oid]" ?w] by (auto split: option.splits)
        then have "\<forall>b \<in> set ?bits. no_match objs P b" using Cons(5) first_match_None [of objs P ?w] by auto
        from Cons(1) [OF closed this] none show ?thesis
          using Some IH walk first_match_append [of objs P "[oid]" "?w @ ?walk rest ?bits"]
          by (simp add: callable_loop_Cons callable_loop_append [OF ord] first_match_append del: first_match.simps(2))
      next
        case (Some h)
        then show ?thesis
          using \<open>find_in objs oid = Some ob\<close> IH walk first_match_append [of objs P "oid # ?w" "?walk rest ?bits"]
            first_match_append [of objs P "[oid]" ?w]
          by (auto simp: callable_loop_Cons callable_loop_append [OF ord] simp del: first_match.simps(2) split: option.splits)
      qed
    qed
  qed
qed simp

section \<open>The verb cache\<close>

definition no_alias :: "verbdef \<Rightarrow> bool" where
  "no_alias v = False"

text \<open>
  Every entry, positive or negative, is filed under an object with verbs and holds what the
  search would find.
\<close>

definition vc_ok :: "db \<Rightarrow> bool" where
  "vc_ok d \<longleftrightarrow> (\<forall>b e. e \<in> set (vc_buckets d b) \<longrightarrow> c_string (vc_verbname e) \<and>
     (\<exists>ob. dbpriv_dereference d (vc_object e) = Some ob \<and> o_verbdefs ob \<noteq> []) \<and>
     find_callable_verbdef d no_alias (vc_object e) (vc_verbname e) = Some (vc_handle e))"

text \<open>The same database, up to the verb cache and its counters.\<close>

definition erase_vc :: "db \<Rightarrow> db" where
  "erase_vc d = d\<lparr>vc_table := None, verbcache_hit := 0, verbcache_neg_hit := 0, verbcache_miss := 0\<rparr>"

definition same_but_vc :: "db \<Rightarrow> db \<Rightarrow> bool" where
  "same_but_vc d d' \<longleftrightarrow> erase_vc d' = erase_vc d"

lemma same_but_vc_refl: "same_but_vc d d"
  by (simp add: same_but_vc_def)

lemma same_but_vc_trans: "same_but_vc d1 d2 \<Longrightarrow> same_but_vc d2 d3 \<Longrightarrow> same_but_vc d1 d3"
  by (simp add: same_but_vc_def)

lemma erase_vc_fields: "objects (erase_vc d) = objects d" "anon_store (erase_vc d) = anon_store d"
  by (simp_all add: erase_vc_def)

lemma same_but_vc_fields: "same_but_vc d d' \<Longrightarrow> objects d' = objects d \<and> anon_store d' = anon_store d"
  unfolding same_but_vc_def by (metis erase_vc_fields)

lemma same_but_vc_add: "same_but_vc d (vc_add addr verb r h d)" "same_but_vc d (vc_count h d)"
  by (simp_all add: same_but_vc_def erase_vc_def vc_add_def vc_count_def Let_def)

lemma find_callable_verbdef_cong:
  "objects d' = objects d \<Longrightarrow> anon_store d' = anon_store d \<Longrightarrow>
   find_callable_verbdef d' same r verb = find_callable_verbdef d same r verb"
proof -
  assume eq: "objects d' = objects d" "anon_store d' = anon_store d"
  then have "dbpriv_dereference d' r = dbpriv_dereference d r" by (cases r) (simp_all add: dbpriv_find_object_def)
  then show ?thesis unfolding find_callable_verbdef_def eq by simp
qed

lemma vc_buckets_add: "vc_buckets (vc_add addr verb r h d) b =
    (if b = vc_bucket (vc_key addr verb r)
     then \<lparr>vc_hash = vc_key addr verb r, vc_object = r, vc_verbname = verb, vc_handle = h\<rparr> # vc_buckets d b
     else vc_buckets d b)" "vc_buckets (vc_count h d) b = vc_buckets d b"
  by (simp_all add: vc_add_def vc_count_def vc_buckets_def Let_def)

lemma find_callable_vc:
  "find_callable_verbdef (vc_add addr verb r h d) same r' verb' = find_callable_verbdef d same r' verb'"
  "find_callable_verbdef (vc_count h d) same r' verb' = find_callable_verbdef d same r' verb'"
  "dbpriv_dereference (vc_add addr verb r h d) r' = dbpriv_dereference d r'"
  "dbpriv_dereference (vc_count h d) r' = dbpriv_dereference d r'"
  by (rule find_callable_verbdef_cong; simp add: vc_add_def vc_count_def Let_def)+
    (cases r'; simp add: vc_add_def vc_count_def Let_def dbpriv_find_object_def)+

lemma vc_ok_add:
  assumes "vc_ok d"
  shows "vc_ok (vc_count h d)"
    and "c_string verb \<Longrightarrow> find_callable_verbdef d no_alias r verb = Some h \<Longrightarrow>
      dbpriv_dereference d r = Some ob \<Longrightarrow> o_verbdefs ob \<noteq> [] \<Longrightarrow> vc_ok (vc_add addr verb r h d)"
  using assms by (auto simp: vc_ok_def vc_buckets_add find_callable_vc split: if_splits)

text \<open>Names that differ only in case match the same definitions.\<close>

lemma verb_matches_case:
  assumes "c_string verb" "c_string verb'" "strcasecmp verb verb' = 0"
  shows "verb_matches no_alias verb x = verb_matches no_alias verb' x"
proof -
  have "map cmap verb = map cmap verb'" using assms by (simp add: strcasecmp_zero_iff)
  moreover from this have "length verb = length verb'" using map_eq_imp_length_eq by blast
  ultimately have "vc_names v verb = vc_names v verb'" for v
    unfolding vc_names_correct alt_matches_def by simp
  then show ?thesis by (intro ext) (simp add: verb_matches_def verbcasecmp_def no_alias_def)
qed

lemma find_callable_verbdef_case:
  assumes "c_string verb" "c_string verb'" "strcasecmp verb verb' = 0"
  shows "find_callable_verbdef d no_alias r verb = find_callable_verbdef d no_alias r verb'"
  unfolding find_callable_verbdef_def find_verbdef_by_name_def verb_matches_case [OF assms] ..

lemma vc_find_ok:
  assumes "vc_ok d" "c_string verb" "vc_find addr verb r d = Some e"
  shows "find_callable_verbdef d no_alias r verb = Some (vc_handle e)"
proof -
  have e: "e \<in> set (vc_buckets d (vc_bucket (vc_key addr verb r)))" "vc_object e = r" "strcasecmp verb (vc_verbname e) = 0"
    using assms(3) by (auto simp: vc_find_def Let_def find_Some_iff set_conv_nth)
  with assms(1) have "c_string (vc_verbname e)" "find_callable_verbdef d no_alias r (vc_verbname e) = Some (vc_handle e)"
    by (auto simp: vc_ok_def)
  then show ?thesis using find_callable_verbdef_case [OF assms(2) _ e(3)] by simp
qed

text \<open>
  The comparison of pointers in \<^verbatim>\<open>verbcasecmp\<close> does no harm when a name that is the
  string looked up also matches it.
\<close>

definition harmless :: "(verbdef \<Rightarrow> bool) \<Rightarrow> string \<Rightarrow> bool" where
  "harmless same verb \<longleftrightarrow> (\<forall>v. same v \<longrightarrow> vc_names (vd_name v) verb)"

lemma harmless_matches: "harmless same verb \<Longrightarrow> verb_matches same verb x = verb_matches no_alias verb x"
  by (intro ext) (auto simp: verb_matches_def verbcasecmp_def harmless_def no_alias_def)

lemma find_callable_harmless:
  "harmless same verb \<Longrightarrow> find_callable_verbdef d same r verb = find_callable_verbdef d no_alias r verb"
  unfolding find_callable_verbdef_def find_verbdef_by_name_def by (simp add: harmless_matches cong: option.case_cong)

section \<open>The cached search\<close>

lemma callable_search_Nil [simp]: "callable_search k [] d = Some (None, d)"
  by (subst callable_search.simps) simp

lemma callable_search_valid:
  assumes "is_valid r d = (True, d)" "dbpriv_dereference d r = Some ob"
  shows "callable_search k (r # rest) d =
    (if o_verbdefs ob = [] then callable_search k (map Perm (o_parent_list ob) @ rest) d
     else case vc_find (lk_addr k) (lk_verb k) r d of
       Some e \<Rightarrow>
         (case vc_handle e of
            Some h \<Rightarrow> Some (Some h, vc_count (Some h) d)
          | None \<Rightarrow> callable_search k rest (vc_count None d))
     | None \<Rightarrow>
         (case find_callable_verbdef d (lk_same k) r (lk_verb k) of
            None \<Rightarrow> None
          | Some handle \<Rightarrow>
              (case handle of
                 None \<Rightarrow> callable_search k rest (vc_add (lk_addr k) (lk_verb k) r None d)
               | Some h \<Rightarrow> Some (Some h, vc_add (lk_addr k) (lk_verb k) r (Some h) d))))"
  using assms by (subst callable_search.simps) (simp cong: option.case_cong)

lemma callable_search_invalid:
  assumes "is_valid r d = (False, d)"
  shows "callable_search k (r # rest) d = callable_search k rest d"
  using assms by (subst callable_search.simps) simp

text \<open>
  One turn at an object with verbs: the cache or the search from there gives \<open>h\<close>, and a
  miss goes on in a state with the same database and a coherent cache.
\<close>

lemma search_turn:
  assumes ok: "vc_ok d" "c_string (lk_verb k)" "harmless (lk_same k) (lk_verb k)"
    and r: "is_valid r d = (True, d)" "dbpriv_dereference d r = Some ob" "o_verbdefs ob \<noteq> []"
    and h: "find_callable_verbdef d no_alias r (lk_verb k) = Some h"
  shows "\<exists>d1. same_but_vc d d1 \<and> vc_ok d1 \<and>
    callable_search k (r # rest) d = (case h of Some v \<Rightarrow> Some (Some v, d1) | None \<Rightarrow> callable_search k rest d1)"
proof (cases "vc_find (lk_addr k) (lk_verb k) r d")
  case (Some e)
  have "vc_handle e = h" using vc_find_ok [OF ok(1,2) Some] h by simp
  then show ?thesis
    using r Some ok(1) vc_ok_add(1) same_but_vc_add(2)
    by (intro exI [of _ "vc_count h d"]) (auto simp: callable_search_valid [OF r(1,2)] split: option.split)
next
  case None
  have "find_callable_verbdef d (lk_same k) r (lk_verb k) = Some h"
    using h find_callable_harmless [OF ok(3)] by simp
  then show ?thesis
    using r None vc_ok_add(2) [OF ok(1,2) h r(2,3)] same_but_vc_add(1)
    by (intro exI [of _ "vc_add (lk_addr k) (lk_verb k) r h d"])
      (auto simp: callable_search_valid [OF r(1,2)] split: option.split)
qed

lemma callable_search_ok:
  assumes ord: "family.ordered objs" and k: "c_string (lk_verb k)" "harmless (lk_same k) (lk_verb k)"
  shows "objects d = objs \<Longrightarrow> vc_ok d \<Longrightarrow>
    \<exists>h d'. callable_search k (map Perm stack) d = Some (h, d') \<and>
      callable_loop objs (verb_matches no_alias (lk_verb k) True) stack = Some h \<and> same_but_vc d d' \<and> vc_ok d'"
  using ord
proof (induction stack arbitrary: d rule: stack_induct)
  case (Cons oid rest)
  let ?P = "verb_matches no_alias (lk_verb k) True"
  show ?case
  proof (cases "find_in objs oid")
    case None
    then have "is_valid (Perm oid) d = (False, d)" using Cons(4) by (simp add: valid_find)
    then show ?thesis
      using Cons(1) [OF Cons(4,5)] None by (simp add: callable_search_invalid callable_loop_Cons)
  next
    case (Some ob)
    then have v: "is_valid (Perm oid) d = (True, d)" "dbpriv_dereference d (Perm oid) = Some ob"
      using Cons(4) by (simp_all add: valid_find dbpriv_find_object_def)
    show ?thesis
    proof (cases "o_verbdefs ob = []")
      case True
      have "callable_loop objs ?P (oid # rest) = callable_loop objs ?P (o_parent_list ob @ rest)"
        using Some True by (simp add: callable_loop_Cons)
      then show ?thesis using Cons(3) [OF Some Cons(4,5)] True by (simp add: callable_search_valid [OF v])
    next
      case False
      obtain h where h: "callable_loop objs ?P [oid] = Some h"
        using callable_loop_walk [OF ord, of "[]"] by (auto simp: closed_but_def)
      then have fc: "find_callable_verbdef d no_alias (Perm oid) (lk_verb k) = Some h"
        using Some Cons(4)
        by (auto simp: callable_loop_Cons find_callable_verbdef_def find_verbdef_by_name_def dbpriv_find_object_def
            split: option.splits)
      from search_turn [OF Cons(5) k v False fc] obtain d1 where
        d1: "same_but_vc d d1" "vc_ok d1" "callable_search k (Perm oid # map Perm rest) d =
          (case h of Some w \<Rightarrow> Some (Some w, d1) | None \<Rightarrow> callable_search k (map Perm rest) d1)" by blast
      have loop: "callable_loop objs ?P (oid # rest) = (case h of Some w \<Rightarrow> Some (Some w) | None \<Rightarrow> callable_loop objs ?P rest)"
        using callable_loop_append [OF ord, of ?P "[oid]" rest] h by (auto split: option.split)
      have "objects d1 = objs" using same_but_vc_fields [OF d1(1)] Cons(4) by simp
      from Cons(1) [OF this d1(2)] d1 loop show ?thesis
        by (cases h) (auto intro: same_but_vc_trans)
    qed
  qed
qed (auto simp: same_but_vc_refl)

text \<open>A match along valid objects, and along an object and its ancestors.\<close>

lemma match_along_first:
  "\<forall>x \<in> set xs. find_in (objects d) x \<noteq> None \<Longrightarrow>
   match_along d P (map Perm xs) = Some (first_match (objects d) P xs)"
  by (induction xs) (auto simp: dbpriv_find_object_def split: option.splits)

lemma match_ancestors:
  assumes ord: "family.ordered (objects d)" and r: "dbpriv_dereference d r = Some ob"
  shows "\<exists>l. db_find_ancestors d r True = Some l \<and>
    match_along d (verb_matches no_alias verb True) l = find_callable_verbdef d no_alias r verb"
proof -
  let ?P = "verb_matches no_alias verb True" and ?w = "walk (objects d) o_parent_list (o_parent_list ob) []"
  have "?w = []" if "no_parents (o_parents ob)"
    using that by (auto simp: no_parents_def o_parent_list_def parent_list_def split: parents.splits)
  then have "db_find_ancestors d r True = Some (r # map Perm ?w)"
    using r by (simp add: db_find_ancestors_def db_walk_def db2_add_walk)
  moreover have "callable_loop (objects d) ?P (o_parent_list ob) = match_along d ?P (map Perm ?w)"
    using callable_loop_walk [OF ord, of "[]" ?P "o_parent_list ob"] match_along_first [of ?w d ?P] walk_sound
    by (fastforce simp: closed_but_def)
  then have "match_along d ?P (r # map Perm ?w) = find_callable_verbdef d no_alias r verb"
    using r by (simp add: find_callable_verbdef_def find_verbdef_by_name_def split: option.split)
  ultimately show ?thesis by blast
qed

lemma find_callable_returns:
  assumes "family.ordered (objects d)" "dbpriv_dereference d r = Some ob"
  obtains h where "find_callable_verbdef d no_alias r verb = Some h"
proof -
  have "\<exists>h. find_callable_verbdef d no_alias r verb = Some h"
    using callable_loop_walk [OF assms(1), of "[]"] assms(2)
    by (auto simp: find_callable_verbdef_def closed_but_def split: option.split)
  with that show thesis by blast
qed

lemma db_find_callable_verb_ok:
  assumes ord: "family.ordered (objects d)" and ok: "vc_ok d"
    and verb: "c_string verb" "harmless same verb"
    and recv: "is_valid recv d = (True, d)" "dbpriv_dereference d recv = Some ob"
  shows "\<exists>h d'. db_find_callable_verb addr same recv verb d = Some (h, d') \<and>
    find_callable_verbdef d no_alias recv verb = Some h \<and> same_but_vc d d' \<and> vc_ok d'"
proof -
  let ?k = "\<lparr>lk_addr = addr, lk_same = same, lk_verb = verb\<rparr>" and ?P = "verb_matches no_alias verb True"
  obtain h where h: "find_callable_verbdef d no_alias recv verb = Some h"
    by (rule find_callable_returns [OF ord recv(2)])
  show ?thesis
  proof (cases "o_verbdefs ob = []")
    case True
    then have "callable_loop (objects d) ?P (o_parent_list ob) = Some h"
      using h recv(2) by (simp add: find_callable_verbdef_def find_verbdef_by_name_def)
    with callable_search_ok [OF ord, of ?k d "o_parent_list ob"] verb ok True h show ?thesis
      by (auto simp: db_find_callable_verb_def callable_search_valid [OF recv])
  next
    case False
    from search_turn [of d ?k recv ob h "[]"] ok verb recv False h obtain d1 where
      "same_but_vc d d1" "vc_ok d1" "callable_search ?k [recv] d =
        (case h of Some v \<Rightarrow> Some (Some v, d1) | None \<Rightarrow> callable_search ?k [] d1)" by auto
    with h show ?thesis by (cases h) (auto simp: db_find_callable_verb_def)
  qed
qed

section \<open>An empty cache\<close>

definition vc_empty :: "db \<Rightarrow> bool" where
  "vc_empty d \<longleftrightarrow> (\<forall>b. vc_buckets d b = [])"

lemma vc_empty_ok: "vc_empty d \<Longrightarrow> vc_ok d"
  by (simp add: vc_empty_def vc_ok_def)

lemma vc_empty_flush: "vc_empty (db_priv_affected_callable_verb_lookup d)"
  by (simp add: vc_empty_def vc_buckets_def db_priv_affected_callable_verb_lookup_def split: option.split)

lemma vc_empty_cong: "vc_table d' = vc_table d \<Longrightarrow> vc_empty d' = vc_empty d"
  by (simp add: vc_empty_def vc_buckets_def)

lemma vc_table_upd_ref [simp]: "vc_table (upd_ref r f d) = vc_table d"
  by (cases r) (simp_all add: upd_obj_def split: option.split)

lemma vc_empty_upd_ref: "vc_empty d \<Longrightarrow> vc_empty (upd_ref r f d)"
  by (simp add: vc_empty_cong [OF vc_table_upd_ref])

lemma vc_empty_upd_verbdef: "vc_empty d \<Longrightarrow> upd_verbdef h f d = Some d' \<Longrightarrow> vc_empty d'"
  by (auto simp: upd_verbdef_def simp del: upd_ref.simps intro: vc_empty_upd_ref split: option.splits)

section \<open>A database with verbs\<close>

text \<open>
  \<^verbatim>\<open>#1\<close> defines \<^verbatim>\<open>foo\<close>; its child \<^verbatim>\<open>#2\<close> has no verb and no child, but
  for an anonymous one that defines \<^verbatim>\<open>bar\<close>.
\<close>

definition plain_verb :: "string \<Rightarrow> verbdef" where
  "plain_verb name = \<lparr>vd_name = name, vd_program = None, vd_owner = 0, vd_perms = VF_EXEC, vd_prep = PREP_NONE\<rparr>"

definition verb_db :: db where
  "verb_db = small_db
     \<lparr>objects := [Some (plain_object 0 (POne NOTHING) [] NOTHING []),
                  Some ((plain_object 1 (POne NOTHING) [2] NOTHING [])\<lparr>o_verbdefs := [plain_verb ''foo'']\<rparr>),
                  Some (plain_object 2 (POne 1) [] NOTHING [])],
      ancestor_cache := (\<lambda>_. None),
      anon_store := (\<lambda>_. None)(0 := Some ((plain_object NOTHING (POne 2) [] NOTHING [])\<lparr>o_verbdefs := [plain_verb ''bar'']\<rparr>)),
      anonymous_objects := [(2, [0])]\<rparr>"

definition flat_addr :: "oref \<Rightarrow> 64 word" where
  "flat_addr r = (case r of Perm x \<Rightarrow> of_int x * 64 | Anon a \<Rightarrow> 65536 + of_nat a * 64)"

lemma find_verb_db:
  "find_in (objects verb_db) q =
     (if q = 0 then Some (plain_object 0 (POne NOTHING) [] NOTHING [])
      else if q = 1 then Some ((plain_object 1 (POne NOTHING) [2] NOTHING [])\<lparr>o_verbdefs := [plain_verb ''foo'']\<rparr>)
      else if q = 2 then Some (plain_object 2 (POne 1) [] NOTHING []) else None)"
proof (cases "0 \<le> q \<and> q < 3")
  case True
  then consider "q = 0" | "q = 1" | "q = 2" by linarith
  then show ?thesis by cases (simp_all add: find_in_def verb_db_def)
qed (auto simp: find_in_def verb_db_def)

lemma verb_db_ok: "db_ok verb_db" "vc_ok verb_db"
proof -
  have fup: "family.up (objects verb_db) = {(2, 1)}"
    by (auto simp: family_up_iff find_verb_db plain_object_def linked_parents_simps split: if_splits)
  have pup: "places.up (objects verb_db) = {}"
    by (auto simp: places_up_iff find_verb_db plain_object_def split: if_splits)
  have "family.ordered (objects verb_db)"
    by (rule family.orderedI)
      (auto simp: family.linked_def fup find_verb_db plain_object_def split: if_splits)
  moreover have "places.ordered (objects verb_db)"
    by (rule places.orderedI)
      (auto simp: places.linked_def pup find_verb_db plain_object_def split: if_splits)
  moreover have "cache_ok verb_db"
    unfolding cache_ok_def dbpriv_find_object_def
    by (auto simp: find_verb_db plain_object_def split: if_splits) (simp_all add: verb_db_def)
  ultimately show "db_ok verb_db" by (simp add: db_ok_def)
  show "vc_ok verb_db" by (rule vc_empty_ok) (simp add: vc_empty_def vc_buckets_def verb_db_def small_db_def)
qed

section \<open>Properties\<close>

text \<open>
  C22: on a hierarchy without cycles and with a coherent verb cache, looking up a callable
  verb ends and returns the first executable match along the receiver and its ancestors, in
  the order of \<^verbatim>\<open>ancestors()\<close>; a name and its entry may differ in case. Only the verb
  cache and its counters change, and the cache stays coherent.
\<close>

theorem db_find_callable_verb_correct:
  assumes "family.ordered (objects d)" and "vc_ok d" and "c_string verb" and "harmless same verb"
    and "is_valid recv d = (True, d)"
  shows "\<exists>l h d'. db_find_ancestors d recv True = Some l \<and>
    match_along d (verb_matches no_alias verb True) l = Some h \<and>
    db_find_callable_verb addr same recv verb d = Some (h, d') \<and> same_but_vc d d' \<and> vc_ok d'"
proof -
  obtain ob where ob: "dbpriv_dereference d recv = Some ob"
    using assms(5) by (cases recv) (auto simp: valid_def anon_valid_def split: option.splits)
  from db_find_callable_verb_ok [OF assms ob] match_ancestors [OF assms(1) ob] show ?thesis by metis
qed

theorem db_find_callable_verb_correct_witness:
  "\<exists>l h d'. db_find_ancestors verb_db (Perm 2) True = Some l \<and>
    match_along verb_db (verb_matches no_alias ''FOO'' True) l = Some h \<and>
    db_find_callable_verb flat_addr no_alias (Perm 2) ''FOO'' verb_db = Some (h, d') \<and>
    same_but_vc verb_db d' \<and> vc_ok d'"
proof (rule db_find_callable_verb_correct [OF _ verb_db_ok(2)])
  show "family.ordered (objects verb_db)" using verb_db_ok(1) by (simp add: db_ok_def)
  show "c_string ''FOO''" by (simp add: c_string_def byte_of_def)
  show "harmless no_alias ''FOO''" by (simp add: harmless_def no_alias_def)
  show "is_valid (Perm 2) verb_db = (True, verb_db)" by (simp add: valid_find find_verb_db)
qed

end
