(* ===== verification/VerbCache.thy ===== *)
theory VerbCache
  imports VerbLookup
begin

text \<open>
  What keeps the verb cache coherent: the operations on verbs empty it, or change nothing a
  search looks at, and a change of parents empties it unless the object has neither verbs
  nor children. That exception relies on anonymous objects having no verbs of their own, as
  the comment beside it says and \<^verbatim>\<open>bf_add_verb\<close> sees to.
\<close>

section \<open>Changes a search does not see\<close>

lemma callable_loop_agree:
  assumes ord: "family.ordered objs"
    and none: "\<And>v. v \<in> A \<Longrightarrow> find_in objs v = None \<longleftrightarrow> find_in objs' v = None"
    and same: "\<And>v ob ob'. v \<in> A \<Longrightarrow> find_in objs v = Some ob \<Longrightarrow> find_in objs' v = Some ob' \<Longrightarrow>
      first_index P (o_verbdefs ob) = first_index P (o_verbdefs ob') \<and>
      o_parent_list ob = o_parent_list ob' \<and> set (o_parent_list ob) \<subseteq> A"
  shows "set stack \<subseteq> A \<Longrightarrow> callable_loop objs' P stack = callable_loop objs P stack"
  using ord
proof (induction stack rule: stack_induct)
  case (Cons oid rest)
  have A: "oid \<in> A" "set rest \<subseteq> A" using Cons(4) by auto
  show ?case
  proof (cases "find_in objs oid")
    case None
    then show ?thesis using none [OF A(1)] Cons(1) [OF A(2)] by (simp add: callable_loop_Cons)
  next
    case (Some ob)
    then obtain ob' where ob': "find_in objs' oid = Some ob'" using none [OF A(1)] by fastforce
    note eq = same [OF A(1) Some ob']
    have "set (o_parent_list ob @ rest) \<subseteq> A" using eq A(2) by auto
    from Cons(3) [OF Some this] show ?thesis using Some ob' eq by (simp add: callable_loop_Cons split: option.split)
  qed
qed simp

lemma find_callable_agree:
  assumes ord: "family.ordered (objects d)"
    and none: "\<And>v. v \<in> A \<Longrightarrow> find_in (objects d) v = None \<longleftrightarrow> find_in (objects d') v = None"
    and same: "\<And>v ob ob'. v \<in> A \<Longrightarrow> find_in (objects d) v = Some ob \<Longrightarrow> find_in (objects d') v = Some ob' \<Longrightarrow>
      first_index (verb_matches no_alias verb True) (o_verbdefs ob) =
        first_index (verb_matches no_alias verb True) (o_verbdefs ob') \<and>
      o_parent_list ob = o_parent_list ob' \<and> set (o_parent_list ob) \<subseteq> A"
    and r: "dbpriv_dereference d r = Some ob" "dbpriv_dereference d' r = Some ob'"
      "first_index (verb_matches no_alias verb True) (o_verbdefs ob) =
        first_index (verb_matches no_alias verb True) (o_verbdefs ob')"
      "o_parent_list ob = o_parent_list ob'" "set (o_parent_list ob) \<subseteq> A"
  shows "find_callable_verbdef d' no_alias r verb = find_callable_verbdef d no_alias r verb"
  using callable_loop_agree [where stack = "o_parent_list ob", OF ord none same] r
  by (simp add: find_callable_verbdef_def find_verbdef_by_name_def split: option.split)

text \<open>
  A change of parents without emptying: the object has no verbs and no children, and no
  anonymous object with verbs has it as a parent.
\<close>

lemma vc_ok_leaf:
  assumes ok: "vc_ok d" and ord: "family.ordered (objects d)"
    and x: "find_in (objects d) x = Some ob" "o_verbdefs ob = []" "o_children ob = []"
    and anon: "\<And>a oa. anon_store d a = Some oa \<Longrightarrow> o_verbdefs oa \<noteq> [] \<Longrightarrow> x \<notin> set (o_parent_list oa)"
    and t: "vc_table d' = vc_table d"
    and obs: "\<And>q. map_option o_verbdefs (find_in (objects d') q) = map_option o_verbdefs (find_in (objects d) q)"
      "\<And>q. q \<noteq> x \<Longrightarrow> map_option o_parents (find_in (objects d') q) = map_option o_parents (find_in (objects d) q)"
    and anons: "\<And>a. map_option skeleton (anon_store d' a) = map_option skeleton (anon_store d a)"
  shows "vc_ok d'"
proof -
  have L: "family.linked (objects d)" using ord by (simp add: family.ordered_def)
  have kid: "x \<notin> set (o_parent_list oq)" if "find_in (objects d) q = Some oq" for q oq
  proof
    assume "x \<in> set (o_parent_list oq)"
    moreover have "x \<noteq> NOTHING" using x(1) by auto
    ultimately have "(q, x) \<in> family.up (objects d)" using parent_list_up(2) [OF L that, of x] by blast
    then show False using L x by (auto simp: family.linked_def)
  qed
  have obj: "\<exists>oq'. find_in (objects d') q = Some oq' \<and> o_verbdefs oq' = o_verbdefs oq \<and>
      (q \<noteq> x \<longrightarrow> o_parent_list oq' = o_parent_list oq)" if "find_in (objects d) q = Some oq" for q oq
    using obs [of q] that by (cases "find_in (objects d') q") (auto simp: o_parent_list_def)
  have none: "find_in (objects d) q = None \<longleftrightarrow> find_in (objects d') q = None" for q
    using obs(1) [of q] by (cases "find_in (objects d) q"; cases "find_in (objects d') q") auto
  have new: "\<exists>ob'. dbpriv_dereference d' (vc_object e) = Some ob' \<and> o_verbdefs ob' \<noteq> [] \<and>
      find_callable_verbdef d' no_alias (vc_object e) (vc_verbname e) =
      find_callable_verbdef d no_alias (vc_object e) (vc_verbname e)"
    if e: "e \<in> set (vc_buckets d b)" for b e
  proof -
    obtain oe where oe: "dbpriv_dereference d (vc_object e) = Some oe" "o_verbdefs oe \<noteq> []"
      using ok e by (auto simp: vc_ok_def)
    have "\<exists>oe'. dbpriv_dereference d' (vc_object e) = Some oe' \<and> o_verbdefs oe' = o_verbdefs oe \<and>
        o_parent_list oe' = o_parent_list oe \<and> x \<notin> set (o_parent_list oe)"
    proof (cases "vc_object e")
      case (Perm q)
      then have q: "find_in (objects d) q = Some oe" using oe(1) by (simp add: dbpriv_find_object_def)
      then have "q \<noteq> x" using x oe(2) by auto
      then show ?thesis using obj [OF q] kid [OF q] Perm by (auto simp: dbpriv_find_object_def)
    next
      case (Anon a)
      then show ?thesis using oe anon [of a oe] anons [of a]
        by (cases "anon_store d' a") (auto simp: skeleton_def o_parent_list_def)
    qed
    then obtain oe' where oe': "dbpriv_dereference d' (vc_object e) = Some oe'" "o_verbdefs oe' = o_verbdefs oe"
      "o_parent_list oe' = o_parent_list oe" "x \<notin> set (o_parent_list oe)" by blast
    have "find_callable_verbdef d' no_alias (vc_object e) (vc_verbname e) =
      find_callable_verbdef d no_alias (vc_object e) (vc_verbname e)"
    proof (rule find_callable_agree [OF ord, where A = "- {x}", OF none _ oe(1) oe'(1)])
      fix v ov ov' assume v: "v \<in> - {x}" "find_in (objects d) v = Some ov" "find_in (objects d') v = Some ov'"
      with obj [OF v(2)] kid [OF v(2)]
      show "first_index (verb_matches no_alias (vc_verbname e) True) (o_verbdefs ov) =
          first_index (verb_matches no_alias (vc_verbname e) True) (o_verbdefs ov') \<and>
        o_parent_list ov = o_parent_list ov' \<and> set (o_parent_list ov) \<subseteq> - {x}" by auto
    qed (use oe' in auto)
    with oe oe' show ?thesis by auto
  qed
  have eq: "vc_buckets d' = vc_buckets d" by (simp add: vc_buckets_def t)
  show ?thesis unfolding vc_ok_def eq
  proof (intro allI impI)
    fix b e assume e: "e \<in> set (vc_buckets d b)"
    then have "c_string (vc_verbname e)" "find_callable_verbdef d no_alias (vc_object e) (vc_verbname e) = Some (vc_handle e)"
      using ok unfolding vc_ok_def by blast+
    with new [OF e] show "c_string (vc_verbname e) \<and>
        (\<exists>ob. dbpriv_dereference d' (vc_object e) = Some ob \<and> o_verbdefs ob \<noteq> []) \<and>
        find_callable_verbdef d' no_alias (vc_object e) (vc_verbname e) = Some (vc_handle e)" by auto
  qed
qed

lemma db_change_parents_vc:
  assumes ok: "db_ok d" and vc: "vc_ok d"
    and new: "\<forall>p \<in> set (linked_parents new_parents). valid d p \<and> (p, x) \<notin> (family.up (objects d))\<^sup>*"
    and anon: "\<forall>a oa. anon_store d a = Some oa \<and> o_verbdefs oa \<noteq> [] \<longrightarrow> x \<notin> set (o_parent_list oa)"
    and run: "db_change_parents (Perm x) new_parents anon_kids d = Some (done, d')"
  shows "vc_ok d'"
proof -
  have ord: "family.ordered (objects d)" using ok by (simp add: db_ok_def)
  consider "d' = d" | ob kids where "dbpriv_find_object d x = Some ob"
      "apply_change (Perm x) ob new_parents kids d = Some (done, d')"
    using run by (auto simp: db_change_parents_def Let_def split: if_splits option.splits bool.splits)
  then show ?thesis
  proof cases
    case 1
    then show ?thesis using vc by simp
  next
    case (2 ob kids)
    note eff = apply_change_ok [OF ok 2(1) new 2(2)]
    show ?thesis
    proof (cases "o_verbdefs ob = [] \<and> o_children ob = []")
      case True
      with eff have t: "vc_table d' = vc_table d" by simp
      show ?thesis
        by (rule vc_ok_leaf [OF vc ord _ _ _ _ t, of x ob])
          (use 2(1) True eff anon in \<open>auto simp: dbpriv_find_object_def\<close>)
    next
      case False
      with eff have "vc_table d' = vc_table (db_priv_affected_callable_verb_lookup d)" by auto
      then have "vc_empty d'" using vc_empty_flush vc_empty_cong by blast
      then show ?thesis by (rule vc_empty_ok)
    qed
  qed
qed

section \<open>Properties\<close>





text \<open>
  The exception needs the anonymous objects to have no verbs. With one that had, a verb
  inherited through \<^verbatim>\<open>#2\<close> and cached would still be found after \<^verbatim>\<open>#2\<close> lost its
  parent, though no ancestor of the receiver defines it any more.
\<close>

lemma anonymous_verbs_would_be_stale:
  "\<exists>d1 d2 d3. db_find_callable_verb flat_addr no_alias (Anon 0) ''foo'' verb_db = Some (Some (Perm 1, 0), d1) \<and>
     db_change_parents (Perm 2) (POne NOTHING) None d1 = Some (True, d2) \<and>
     db_find_callable_verb flat_addr no_alias (Anon 0) ''foo'' d2 = Some (Some (Perm 1, 0), d3) \<and>
     find_callable_verbdef d2 no_alias (Anon 0) ''foo'' = Some None"
proof -
  let ?look = "db_find_callable_verb flat_addr no_alias (Anon 0) ''foo''"
  have "(case ?look verb_db of
       Some (h1, d1) \<Rightarrow> h1 = Some (Perm 1, 0) \<and>
         (case db_change_parents (Perm 2) (POne NOTHING) None d1 of
            Some (b, d2) \<Rightarrow> b \<and> find_callable_verbdef d2 no_alias (Anon 0) ''foo'' = Some None \<and>
              (case ?look d2 of Some (h3, d3) \<Rightarrow> h3 = Some (Perm 1, 0) | None \<Rightarrow> False)
          | None \<Rightarrow> False)
     | None \<Rightarrow> False)" (is "case _ of Some (h1, d1) \<Rightarrow> ?A h1 d1 | None \<Rightarrow> False") by code_simp
  then obtain h1 d1 where 1: "?look verb_db = Some (h1, d1)" "?A h1 d1" by (cases "?look verb_db") auto
  then obtain b d2 where 2: "db_change_parents (Perm 2) (POne NOTHING) None d1 = Some (b, d2)"
    by (cases "db_change_parents (Perm 2) (POne NOTHING) None d1") auto
  with 1(2) obtain h3 d3 where 3: "?look d2 = Some (h3, d3)" by (cases "?look d2") auto
  show ?thesis using 1 2 3 by auto
qed

end
