(* ===== verification/Objects.thy ===== *)
theory Objects
  imports VerbCache
begin

text \<open>
  The object built-ins of \<^verbatim>\<open>objects.cc\<close>: creation, recycling, movement, change of
  parents and the queries over the hierarchies. A built-in that calls a verb returns to the
  interpreter and is resumed with the number of the case to go on with; each call of the
  definitions here is one such stretch. Arguments come as the interpreter passes them, with
  their number and types checked against the registration; other argument lists are \<open>None\<close>.
\<close>

section \<open>Packages and calls\<close>

text \<open>The activation that \<^verbatim>\<open>call_verb2\<close> pushes, but for the copies of the caller's variables.\<close>

record activation =
  a_prog :: "nat option"
  a_this :: var
  a_progr :: objid
  a_recv :: objid
  a_vloc :: oref
  a_verb :: string
  a_verbname :: string
  a_debug :: bool
  a_args :: "var list"

datatype 'd package =
    BI_RETURN var
  | BI_RAISE error
  | BI_CALL nat 'd activation

abbreviation no_var_pack :: "'d package" where
  "no_var_pack \<equiv> BI_RETURN (VINT 0)"

text \<open>
  What a built-in takes from outside the database: the addresses of objects, whether the
  activation stack has room for one more, the server option \<^verbatim>\<open>clear_last_move\<close>, the
  clock and the sharing of \<^verbatim>\<open>last_move\<close> when an object is moved, fresh memory and a fresh
  reference for a new object.
\<close>

record env =
  e_addr :: "oref \<Rightarrow> 64 word"
  e_room :: bool
  e_clear_last_move :: bool
  e_now :: "objid \<Rightarrow> num"
  e_shared :: "objid \<Rightarrow> bool"
  e_mem :: object
  e_anon :: nat

text \<open>
  \<^verbatim>\<open>is_valid\<close> of a value: a null anonymous reference is not valid, and the pointer of a
  waif, read as an object number, is none.
\<close>

definition is_valid_var :: "var \<Rightarrow> db \<Rightarrow> (bool \<times> db) option" where
  "is_valid_var v d =
     (case v of
        VOBJ x \<Rightarrow> Some (valid d x, d)
      | VANON (Some a) \<Rightarrow> Some (anon_valid a d)
      | _ \<Rightarrow> Some (False, d))"

definition oref_of :: "var \<Rightarrow> oref option" where
  "oref_of v = (case v of VOBJ x \<Rightarrow> Some (Perm x) | VANON (Some a) \<Rightarrow> Some (Anon a) | _ \<Rightarrow> None)"

fun var_of :: "oref \<Rightarrow> var" where
  "var_of (Perm x) = VOBJ x"
| "var_of (Anon a) = VANON (Some a)"

text \<open>\<^verbatim>\<open>is_list_of_objs\<close> and \<^verbatim>\<open>is_obj_or_list_of_objs\<close>, with the object numbers read off.\<close>

fun is_list_of_objs :: "var list \<Rightarrow> objid list option" where
  "is_list_of_objs [] = Some []"
| "is_list_of_objs (VOBJ x # vs) = map_option (Cons x) (is_list_of_objs vs)"
| "is_list_of_objs (_ # vs) = None"

definition is_obj_or_list_of_objs :: "var \<Rightarrow> parents option" where
  "is_obj_or_list_of_objs v =
     (case v of
        VOBJ x \<Rightarrow> Some (POne x)
      | VLIST vs \<Rightarrow> map_option PMany (is_list_of_objs vs)
      | _ \<Rightarrow> None)"

text \<open>
  \<^verbatim>\<open>call_verb\<close>: the name is copied, so that it is nobody's string. \<open>Inr\<close> is
  \<^verbatim>\<open>E_NONE\<close> with the activation that has been pushed.
\<close>

definition call_verb ::
  "env \<Rightarrow> objid \<Rightarrow> string \<Rightarrow> var \<Rightarrow> var list \<Rightarrow> db \<Rightarrow> ((error + activation) \<times> db) option" where
  "call_verb env recv vname this args =
     sbind (\<lambda>d. case this of VANON _ \<Rightarrow> is_valid_var this d | _ \<Rightarrow> Some (False, d)) (\<lambda>anon.
     sbind (sget (\<lambda>d. Some (valid d recv))) (\<lambda>ok.
       if \<not> anon \<and> \<not> ok then sreturn (Inl E_INVIND)
       else
         sbind (sget (\<lambda>_. if anon then oref_of this else Some (Perm recv))) (\<lambda>start.
         sbind (db_find_callable_verb (e_addr env) no_alias start vname) (\<lambda>handle.
           case handle of
             None \<Rightarrow> sreturn (Inl E_VERBNF)
           | Some h \<Rightarrow>
               if \<not> e_room env then sreturn (Inl E_MAXREC)
               else sget (\<lambda>d. map_option (\<lambda>v. Inr
                      \<lparr>a_prog = vd_program v, a_this = this, a_progr = vd_owner v, a_recv = recv,
                       a_vloc = db_verb_definer h, a_verb = vname, a_verbname = vd_name v,
                       a_debug = vd_perms v AND PERMMASK AND VF_DEBUG \<noteq> 0, a_args = args\<rparr>)
                    (handle_verbdef d h))))))"

section \<open>Permissions\<close>

definition controls2 :: "db \<Rightarrow> objid \<Rightarrow> oref \<Rightarrow> bool option" where
  "controls2 d who what =
     (if is_wizard d who then Some True else map_option (\<lambda>owner. who = owner) (db_object_owner2 d what))"

definition controls :: "db \<Rightarrow> objid \<Rightarrow> objid \<Rightarrow> bool option" where
  "controls d who what = controls2 d who (Perm what)"

definition all_valid :: "db \<Rightarrow> objid list \<Rightarrow> bool" where
  "all_valid d xs = list_all (valid d) xs"

definition all_allowed :: "db \<Rightarrow> objid list \<Rightarrow> objid \<Rightarrow> nat \<Rightarrow> bool option" where
  "all_allowed d xs progr f = all_opt (\<lambda>x. db_object_allows d (Perm x) progr f) xs"

definition is_a_descendant :: "db \<Rightarrow> objid \<Rightarrow> oref \<Rightarrow> bool option" where
  "is_a_descendant d this obj = map_option (\<lambda>ds. Perm this \<in> set ds) (db_descendants d obj True)"

definition any_are_descendants :: "db \<Rightarrow> objid list \<Rightarrow> oref \<Rightarrow> bool option" where
  "any_are_descendants d these obj =
     map_option Not (all_opt (\<lambda>this. map_option Not (is_a_descendant d this obj)) these)"

text \<open>The two spellings of the parents in the conditions of \<^verbatim>\<open>create\<close> and \<^verbatim>\<open>chparent\<close>.\<close>

definition parents_exist :: "db \<Rightarrow> parents \<Rightarrow> bool" where
  "parents_exist d p = (case p of POne x \<Rightarrow> valid d x \<or> x = NOTHING | PMany xs \<Rightarrow> all_valid d xs)"

definition parents_allow :: "db \<Rightarrow> parents \<Rightarrow> objid \<Rightarrow> nat \<Rightarrow> bool option" where
  "parents_allow d p progr f =
     (case p of
        POne x \<Rightarrow> if valid d x then db_object_allows d (Perm x) progr f else Some True
      | PMany xs \<Rightarrow> all_allowed d xs progr f)"

definition parents_descend :: "db \<Rightarrow> parents \<Rightarrow> oref \<Rightarrow> bool option" where
  "parents_descend d p obj =
     (case p of POne x \<Rightarrow> is_a_descendant d x obj | PMany xs \<Rightarrow> any_are_descendants d xs obj)"

section \<open>Moving\<close>

record bf_move_data =
  m_what :: objid
  m_where :: objid
  m_position :: int

definition move_object :: "env \<Rightarrow> objid \<Rightarrow> objid \<Rightarrow> int \<Rightarrow> db \<Rightarrow> db option" where
  "move_object env oid new_location position =
     db_change_location (e_clear_last_move env) (e_shared env oid) (e_now env oid) oid new_location position"

text \<open>The loop that climbs from the destination; \<open>None\<close> is one that does not end.\<close>

partial_function (option) inside :: "db \<Rightarrow> objid \<Rightarrow> objid \<Rightarrow> bool option"
  where [code]: "inside d what oid =
     (if oid = NOTHING then Some False
      else if oid = what then Some True
      else (case db_object_location d oid of None \<Rightarrow> None | Some l \<Rightarrow> inside d what l))"

text \<open>Case 3, the return from \<^verbatim>\<open>exitfunc\<close>; resumed there, \<^verbatim>\<open>oldloc\<close> is \<^verbatim>\<open>FAILED_MATCH\<close>.\<close>

definition move_enter :: "env \<Rightarrow> bf_move_data \<Rightarrow> objid \<Rightarrow> db \<Rightarrow> (bf_move_data package \<times> db) option" where
  "move_enter env data oldloc =
     (let what = m_what data; dest = m_where data in
      sbind (sget (\<lambda>d. Some (valid d dest \<and> valid d what \<and> dest \<noteq> oldloc \<and> db_object_location d what = Some dest)))
        (\<lambda>there.
          if there then
            sbind (call_verb env dest ''enterfunc'' (VOBJ dest) [VOBJ what]) (\<lambda>r.
              sreturn (case r of
                         Inr a \<Rightarrow> BI_CALL 4 data a
                       | Inl e \<Rightarrow> if e = E_MAXREC then BI_RAISE e else no_var_pack))
          else sreturn no_var_pack))"

text \<open>From the label \<^verbatim>\<open>accepts_decided\<close> on.\<close>

definition move_accepted ::
  "env \<Rightarrow> bf_move_data \<Rightarrow> objid \<Rightarrow> bool \<Rightarrow> db \<Rightarrow> (bf_move_data package \<times> db) option" where
  "move_accepted env data progr accepts =
     (let what = m_what data; dest = m_where data in
      sbind (sget Some) (\<lambda>d.
        if \<not> is_wizard d progr \<and> \<not> accepts then sreturn (BI_RAISE E_NACC)
        else if \<not> valid d what \<or> dest \<noteq> NOTHING \<and> \<not> valid d dest
          \<or> db_object_location d what = Some dest \<and> m_position data = 0 then sreturn no_var_pack
        else
          sbind (sget (\<lambda>d. inside d what dest)) (\<lambda>recursive.
            if recursive then sreturn (BI_RAISE E_RECMOVE)
            else
              sbind (sget (\<lambda>d. db_object_location d what)) (\<lambda>oldloc.
              sbind (smodify (move_object env what dest (m_position data))) (\<lambda>_.
                if dest \<noteq> oldloc then
                  sbind (call_verb env oldloc ''exitfunc'' (VOBJ oldloc) [VOBJ what]) (\<lambda>r.
                    case r of
                      Inr a \<Rightarrow> sreturn (BI_CALL 3 data a)
                    | Inl e \<Rightarrow> if e = E_MAXREC then sreturn (BI_RAISE e) else move_enter env data oldloc)
                else move_enter env data oldloc)))))"

definition move_start :: "env \<Rightarrow> bf_move_data \<Rightarrow> objid \<Rightarrow> db \<Rightarrow> (bf_move_data package \<times> db) option" where
  "move_start env data progr =
     (let what = m_what data; dest = m_where data in
      sbind (sget Some) (\<lambda>d.
        if \<not> valid d what \<or> \<not> valid d dest \<and> dest \<noteq> NOTHING \<or> m_position data < 0
        then sreturn (BI_RAISE E_INVARG)
        else
          sbind (sget (\<lambda>d. controls d progr what)) (\<lambda>mine.
            if \<not> mine then sreturn (BI_RAISE E_PERM)
            else if dest = NOTHING \<or> db_object_location d what = Some dest
            then move_accepted env data progr True
            else
              sbind (sget (\<lambda>d. if m_position data > 0 then controls d progr dest else Some True)) (\<lambda>may.
                if \<not> may then sreturn (BI_RAISE E_PERM)
                else
                  sbind (call_verb env dest ''accept'' (VOBJ dest) [VOBJ what]) (\<lambda>r.
                    case r of
                      Inr a \<Rightarrow> sreturn (BI_CALL 2 data a)
                    | Inl e \<Rightarrow> if e = E_VERBNF then move_accepted env data progr False
                               else sreturn (BI_RAISE e))))))"

definition do_move ::
  "env \<Rightarrow> var \<Rightarrow> nat \<Rightarrow> bf_move_data \<Rightarrow> objid \<Rightarrow> db \<Rightarrow> (bf_move_data package \<times> db) option" where
  "do_move env arglist next data progr =
     (if next = 1 then move_start env data progr
      else if next = 2 then move_accepted env data progr (is_true arglist)
      else if next = 3 then move_enter env data FAILED_MATCH
      else if next = 4 then sreturn no_var_pack
      else (\<lambda>_. None))"

text \<open>The first call unpacks the arguments; the position is cut to an \<^verbatim>\<open>int\<close>.\<close>

fun move_args :: "var list \<Rightarrow> bf_move_data option" where
  "move_args [VOBJ what, VOBJ dest] = Some \<lparr>m_what = what, m_where = dest, m_position = 0\<rparr>"
| "move_args [VOBJ what, VOBJ dest, VINT n] =
     Some \<lparr>m_what = what, m_where = dest, m_position = to_int32 (sint n)\<rparr>"
| "move_args _ = None"

definition bf_move ::
  "env \<Rightarrow> var \<Rightarrow> nat \<Rightarrow> bf_move_data option \<Rightarrow> objid \<Rightarrow> db \<Rightarrow> (bf_move_data package \<times> db) option" where
  "bf_move env arglist next vdata progr =
     (let data = (if next = 1 then (case arglist of VLIST vs \<Rightarrow> move_args vs | _ \<Rightarrow> None) else vdata)
      in case data of None \<Rightarrow> (\<lambda>_. None) | Some dt \<Rightarrow> do_move env arglist next dt progr)"

section \<open>Creating\<close>

text \<open>
  The optional arguments of \<^verbatim>\<open>create\<close>: an owner, a flag and a list, in this order and
  each once, the owner only in front. \<open>Inl\<close> is the error raised.
\<close>

record create_args =
  c_owner :: objid
  c_anon :: "num option"
  c_init :: "var list option"

fun create_rest :: "var list \<Rightarrow> create_args \<Rightarrow> create_args option" where
  "create_rest [] c = Some c"
| "create_rest (VINT n # vs) c = (if c_anon c = None then create_rest vs (c\<lparr>c_anon := Some n\<rparr>) else None)"
| "create_rest (VLIST l # vs) c = (if c_init c = None then create_rest vs (c\<lparr>c_init := Some l\<rparr>) else None)"
| "create_rest (_ # vs) c = None"

definition create_options :: "objid \<Rightarrow> var list \<Rightarrow> create_args option" where
  "create_options progr vs =
     (case vs of
        VOBJ x # rest \<Rightarrow> create_rest rest \<lparr>c_owner = x, c_anon = None, c_init = None\<rparr>
      | _ \<Rightarrow> create_rest vs \<lparr>c_owner = progr, c_anon = None, c_init = None\<rparr>)"

definition create_invarg :: "db \<Rightarrow> bool \<Rightarrow> objid \<Rightarrow> parents \<Rightarrow> bool" where
  "create_invarg d anonymous owner ps =
     (anonymous \<and> owner = NOTHING \<or> \<not> valid d owner \<and> owner \<noteq> NOTHING \<or> \<not> parents_exist d ps)"

definition dbpriv_cleanup_failed_anonymous_create :: "nat \<Rightarrow> objid \<Rightarrow> db \<Rightarrow> db option" where
  "dbpriv_cleanup_failed_anonymous_create a oid d =
     (case dbpriv_find_object d oid of
        None \<Rightarrow> None
      | Some ob \<Rightarrow>
          map_option (\<lambda>d1. d1\<lparr>anon_store := (anon_store d1)(a := None)\<rparr>)
            (db_destroy_anonymous_object a
              (d\<lparr>objects := (objects d)[nat oid := None], anon_store := (anon_store d)(a := Some ob)\<rparr>)))"

text \<open>
  The parents of the new object. An anonymous object is not yet out of the table when its
  parents are set: the reference \<open>a\<close> and the slot are the same object, here the store and
  the slot are written alike.
\<close>

definition create_parents :: "env \<Rightarrow> objid \<Rightarrow> bool \<Rightarrow> parents \<Rightarrow> db \<Rightarrow> (bool \<times> db) option" where
  "create_parents env oid anonymous ps d =
     (if \<not> anonymous then db_change_parents (Perm oid) ps None d
      else
        let a = e_anon env in
        case dbpriv_find_object d oid of
          None \<Rightarrow> None
        | Some ob \<Rightarrow>
            map_option (\<lambda>(b, d1). (b, upd_obj oid (\<lambda>o0. case anon_store d1 a of None \<Rightarrow> o0 | Some o1 \<Rightarrow> o1) d1))
              (db_change_parents (Anon a) ps None (d\<lparr>anon_store := (anon_store d)(a := Some ob)\<rparr>)))"

text \<open>The call of \<^verbatim>\<open>initialize\<close> that ends \<^verbatim>\<open>create\<close> and \<^verbatim>\<open>recreate\<close>.\<close>

definition initialize :: "env \<Rightarrow> objid \<Rightarrow> var \<Rightarrow> var list \<Rightarrow> db \<Rightarrow> (var package \<times> db) option" where
  "initialize env oid r args =
     sbind (call_verb env oid ''initialize'' r args) (\<lambda>e.
       sreturn (case e of
                  Inr a \<Rightarrow> BI_CALL 2 r a
                | Inl e \<Rightarrow> if e = E_MAXREC then BI_RAISE e else BI_RETURN r))"

definition create_object ::
  "env \<Rightarrow> parents \<Rightarrow> objid \<Rightarrow> bool \<Rightarrow> var list \<Rightarrow> db \<Rightarrow> (var package \<times> db) option" where
  "create_object env ps owner anonymous args =
     sbind (sget (\<lambda>d. Some (db_last_used_objid d))) (\<lambda>last.
     sbind (\<lambda>d. Some (db_create_object (e_clear_last_move env) (e_mem env) (- 1) anonymous d)) (\<lambda>oid.
     sbind (smodify (\<lambda>d. Some (db_set_object_owner oid (if valid d owner then owner else oid) d))) (\<lambda>_.
     sbind (create_parents env oid anonymous ps) (\<lambda>changed.
       if \<not> changed then
         sbind (smodify (if anonymous then dbpriv_cleanup_failed_anonymous_create (e_anon env) oid
                         else db_destroy_object oid)) (\<lambda>_.
         sbind (smodify (db_set_last_used_objid last)) (\<lambda>_. sreturn (BI_RAISE E_INVARG)))
       else
         sbind (smodify (if anonymous then db_make_anonymous (e_anon env) oid last else Some)) (\<lambda>_.
           initialize env oid (if anonymous then VANON (Some (e_anon env)) else VOBJ oid) args)))))"

text \<open>
  Without \<^verbatim>\<open>OWNERSHIP_QUOTA\<close>, the default, \<^verbatim>\<open>decr_quota\<close> always grants.
\<close>

definition bf_create_start :: "env \<Rightarrow> var list \<Rightarrow> objid \<Rightarrow> db \<Rightarrow> (var package \<times> db) option" where
  "bf_create_start env args progr =
     (case args of
        [] \<Rightarrow> (\<lambda>_. None)
      | p # vs \<Rightarrow>
          (case is_obj_or_list_of_objs p of
             None \<Rightarrow> sreturn (BI_RAISE E_TYPE)
           | Some ps \<Rightarrow>
               (case create_options progr vs of
                  None \<Rightarrow> sreturn (BI_RAISE E_TYPE)
                | Some c \<Rightarrow>
                    let anonymous = (case c_anon c of None \<Rightarrow> False | Some n \<Rightarrow> n \<noteq> 0); owner = c_owner c in
                    sbind (sget Some) (\<lambda>d.
                      if create_invarg d anonymous owner ps then sreturn (BI_RAISE E_INVARG)
                      else if progr \<noteq> owner \<and> \<not> is_wizard d progr then sreturn (BI_RAISE E_PERM)
                      else
                        sbind (sget (\<lambda>d. parents_allow d ps progr (if anonymous then FLAG_ANONYMOUS else FLAG_FERTILE)))
                          (\<lambda>allowed.
                            if \<not> allowed then sreturn (BI_RAISE E_PERM)
                            else create_object env ps owner anonymous (case c_init c of None \<Rightarrow> [] | Some l \<Rightarrow> l))))))"

definition bf_create :: "env \<Rightarrow> var list \<Rightarrow> nat \<Rightarrow> var \<Rightarrow> objid \<Rightarrow> db \<Rightarrow> (var package \<times> db) option" where
  "bf_create env args next vdata progr =
     (if next = 1 then bf_create_start env args progr else sreturn (BI_RETURN vdata))"

fun recreate_args :: "var list \<Rightarrow> (objid \<times> objid \<times> objid option) option" where
  "recreate_args [VOBJ old, VOBJ parent] = Some (old, parent, None)"
| "recreate_args [VOBJ old, VOBJ parent, VOBJ owner] = Some (old, parent, Some owner)"
| "recreate_args _ = None"

definition recreate_object :: "env \<Rightarrow> objid \<Rightarrow> objid \<Rightarrow> objid \<Rightarrow> db \<Rightarrow> (var package \<times> db) option" where
  "recreate_object env old parent owner =
     sbind (\<lambda>d. Some (db_create_object (e_clear_last_move env) (e_mem env) old False d)) (\<lambda>oid.
     sbind (smodify (\<lambda>d. Some (db_set_object_owner oid (if valid d owner then owner else oid) d))) (\<lambda>_.
     sbind (db_change_parents (Perm oid) (POne parent) None) (\<lambda>changed.
       if \<not> changed then sbind (smodify (db_destroy_object oid)) (\<lambda>_. sreturn (BI_RAISE E_INVARG))
       else initialize env oid (VOBJ oid) [])))"

definition bf_recreate_start :: "env \<Rightarrow> var list \<Rightarrow> objid \<Rightarrow> db \<Rightarrow> (var package \<times> db) option" where
  "bf_recreate_start env args progr =
     (case recreate_args args of
        None \<Rightarrow> (\<lambda>_. None)
      | Some (old, parent, owner_arg) \<Rightarrow>
          sbind (sget Some) (\<lambda>d.
            if old \<le> 0 \<or> old > db_last_used_objid d \<or> valid d old then sreturn (BI_RAISE E_INVARG)
            else
              let owner = (case owner_arg of Some w \<Rightarrow> if valid d w then w else progr | None \<Rightarrow> progr) in
              if progr \<noteq> owner \<and> \<not> is_wizard d progr then sreturn (BI_RAISE E_PERM)
              else
                sbind (sget (\<lambda>d. parents_allow d (POne parent) progr FLAG_FERTILE)) (\<lambda>allowed.
                  if \<not> allowed then sreturn (BI_RAISE E_PERM)
                  else recreate_object env old parent owner)))"

definition bf_recreate :: "env \<Rightarrow> var list \<Rightarrow> nat \<Rightarrow> var \<Rightarrow> objid \<Rightarrow> db \<Rightarrow> (var package \<times> db) option" where
  "bf_recreate env args next vdata progr =
     (if next = 1 then bf_recreate_start env args progr else sreturn (BI_RETURN vdata))"

section \<open>Changing and reading parents\<close>

text \<open>
  \<^verbatim>\<open>chparent\<close> and \<^verbatim>\<open>chparents\<close>. Both are registered with two arguments, so the test for a
  third one never applies.
\<close>

definition bf_chparent_chparents :: "var list \<Rightarrow> objid \<Rightarrow> db \<Rightarrow> (unit package \<times> db) option" where
  "bf_chparent_chparents args progr =
     (case args of
        [obj, what] \<Rightarrow>
          if \<not> is_object obj then sreturn (BI_RAISE E_TYPE)
          else (case is_obj_or_list_of_objs what of
            None \<Rightarrow> sreturn (BI_RAISE E_TYPE)
          | Some ps \<Rightarrow>
              sbind (is_valid_var obj) (\<lambda>ok.
              sbind (sget Some) (\<lambda>d.
                if \<not> ok \<or> \<not> parents_exist d ps then sreturn (BI_RAISE E_INVARG)
                else
                  (case oref_of obj of
                     None \<Rightarrow> (\<lambda>_. None)
                   | Some r \<Rightarrow>
                       sbind (sget (\<lambda>d. controls2 d progr r)) (\<lambda>mine.
                       if \<not> mine then sreturn (BI_RAISE E_PERM)
                       else
                         sbind (sget (\<lambda>d. parents_allow d ps progr FLAG_FERTILE)) (\<lambda>allowed.
                         if \<not> allowed then sreturn (BI_RAISE E_PERM)
                         else
                           sbind (sget (\<lambda>d. parents_descend d ps r)) (\<lambda>descends.
                           if descends then sreturn (BI_RAISE E_RECMOVE)
                           else
                             sbind (db_change_parents r ps None) (\<lambda>changed.
                               sreturn (if changed then no_var_pack else BI_RAISE E_INVARG)))))))))
      | _ \<Rightarrow> (\<lambda>_. None))"

text \<open>The test shared by the queries: an object, and a valid one.\<close>

definition of_valid :: "var \<Rightarrow> (oref \<Rightarrow> db \<Rightarrow> (var \<times> db) option) \<Rightarrow> db \<Rightarrow> (unit package \<times> db) option" where
  "of_valid v f =
     (if \<not> is_object v then sreturn (BI_RAISE E_TYPE)
      else
        sbind (is_valid_var v) (\<lambda>ok.
          if \<not> ok then sreturn (BI_RAISE E_INVARG)
          else (case oref_of v of
                  None \<Rightarrow> (\<lambda>_. None)
                | Some r \<Rightarrow> sbind (f r) (\<lambda>x. sreturn (BI_RETURN x)))))"

definition bf_parent :: "var list \<Rightarrow> db \<Rightarrow> (unit package \<times> db) option" where
  "bf_parent args =
     (case args of
        [v] \<Rightarrow> of_valid v (\<lambda>r. sget (\<lambda>d. map_option
                 (\<lambda>p. case p of POne x \<Rightarrow> VOBJ x | PMany [] \<Rightarrow> VOBJ NOTHING | PMany (x # _) \<Rightarrow> VOBJ x)
                 (db_object_parents2 d r)))
      | _ \<Rightarrow> (\<lambda>_. None))"

definition bf_parents :: "var list \<Rightarrow> db \<Rightarrow> (unit package \<times> db) option" where
  "bf_parents args =
     (case args of
        [v] \<Rightarrow> of_valid v (\<lambda>r. sget (\<lambda>d. map_option
                 (\<lambda>p. case p of PMany xs \<Rightarrow> VLIST (map VOBJ xs)
                              | POne x \<Rightarrow> VLIST (if x = NOTHING then [] else [VOBJ x]))
                 (db_object_parents2 d r)))
      | _ \<Rightarrow> (\<lambda>_. None))"

definition bf_children :: "var list \<Rightarrow> db \<Rightarrow> (unit package \<times> db) option" where
  "bf_children args =
     (case args of
        [v] \<Rightarrow> of_valid v (\<lambda>r. sget (\<lambda>d. map_option (\<lambda>xs. VLIST (map VOBJ xs)) (db_object_children2 d r)))
      | _ \<Rightarrow> (\<lambda>_. None))"

definition full_flag :: "var list \<Rightarrow> bool" where
  "full_flag args = (length args > 1 \<and> is_true (args ! 1))"

definition bf_ancestors :: "var list \<Rightarrow> db \<Rightarrow> (unit package \<times> db) option" where
  "bf_ancestors args =
     (case args of
        v # _ \<Rightarrow> of_valid v (\<lambda>r. sbind (db_ancestors r (full_flag args)) (\<lambda>l. sreturn (VLIST (map var_of l))))
      | _ \<Rightarrow> (\<lambda>_. None))"

definition bf_descendants :: "var list \<Rightarrow> db \<Rightarrow> (unit package \<times> db) option" where
  "bf_descendants args =
     (case args of
        v # _ \<Rightarrow> of_valid v (\<lambda>r. sget (\<lambda>d. map_option (\<lambda>l. VLIST (map var_of l)) (db_descendants d r (full_flag args))))
      | _ \<Rightarrow> (\<lambda>_. None))"

section \<open>Recycling\<close>

text \<open>\<^verbatim>\<open>move_to_nothing\<close>: the activation pushed, if there is one.\<close>

definition move_to_nothing :: "env \<Rightarrow> objid \<Rightarrow> db \<Rightarrow> (activation option \<times> db) option" where
  "move_to_nothing env oid =
     sbind (sget (\<lambda>d. db_object_location d oid)) (\<lambda>oldloc.
     sbind (smodify (move_object env oid NOTHING 0)) (\<lambda>_.
     sbind (call_verb env oldloc ''exitfunc'' (VOBJ oldloc) [VOBJ oid]) (\<lambda>r.
       sreturn (case r of Inr a \<Rightarrow> Some a | Inl _ \<Rightarrow> None))))"

text \<open>\<^verbatim>\<open>get_first\<close> over \<^verbatim>\<open>db_for_all_contents\<close>.\<close>

definition first_content :: "db \<Rightarrow> objid \<Rightarrow> objid option" where
  "first_content d oid =
     map_option (\<lambda>ob. case o_contents ob of [] \<Rightarrow> NOTHING | c # _ \<Rightarrow> c) (dbpriv_find_object d oid)"

text \<open>The loops over the contents and over the children; \<open>None\<close> is one that does not end.\<close>

partial_function (option) empty_contents :: "env \<Rightarrow> objid \<Rightarrow> db \<Rightarrow> (activation option \<times> db) option"
  where [code]: "empty_contents env oid d =
     (case first_content d oid of
        None \<Rightarrow> None
      | Some c \<Rightarrow>
          if c = NOTHING then Some (None, d)
          else (case move_to_nothing env c d of
                  None \<Rightarrow> None
                | Some (Some a, d1) \<Rightarrow> Some (Some a, d1)
                | Some (None, d1) \<Rightarrow> empty_contents env oid d1))"

text \<open>The parents a child gets: in the place of the recycled one, its parents.\<close>

definition spliced :: "objid list \<Rightarrow> objid \<Rightarrow> objid list \<Rightarrow> objid list" where
  "spliced cp oid ops =
     foldl oset_add (foldl oset_add (foldl oset_add [] (takeWhile (\<lambda>x. x \<noteq> oid) cp)) ops)
       (tl (dropWhile (\<lambda>x. x \<noteq> oid) cp))"

definition adopted :: "db \<Rightarrow> objid \<Rightarrow> parents \<Rightarrow> parents \<Rightarrow> parents" where
  "adopted d oid cp op =
     (case cp of
        POne _ \<Rightarrow> op
      | PMany xs \<Rightarrow>
          PMany (spliced xs oid (case op of POne x \<Rightarrow> if valid d x then [x] else [] | PMany ys \<Rightarrow> ys)))"

partial_function (option) release_children :: "objid \<Rightarrow> db \<Rightarrow> (bool \<times> db) option"
  where [code]: "release_children oid d =
     (case db_next_child d oid of
        None \<Rightarrow> None
      | Some None \<Rightarrow> Some (True, d)
      | Some (Some child) \<Rightarrow>
          (case (db_object_parents2 d child, db_object_parents2 d (Perm oid)) of
             (Some cp, Some op) \<Rightarrow>
               (case db_change_parents child (adopted d oid cp op) None d of
                  None \<Rightarrow> None
                | Some (changed, d1) \<Rightarrow> if changed then release_children oid d1 else Some (False, d1))
           | _ \<Rightarrow> None))"

text \<open>
  From the label \<^verbatim>\<open>moving_contents\<close> on. The result of the last \<^verbatim>\<open>db_change_parents\<close> is not
  looked at; \<^verbatim>\<open>SAFE_RECYCLE\<close> is defined.
\<close>

definition recycle_perm :: "env \<Rightarrow> objid \<Rightarrow> db \<Rightarrow> (var package \<times> db) option" where
  "recycle_perm env oid =
     sbind (empty_contents env oid) (\<lambda>called.
       case called of
         Some a \<Rightarrow> sreturn (BI_CALL 2 (VOBJ oid) a)
       | None \<Rightarrow>
           sbind (sget (\<lambda>d. db_object_location d oid)) (\<lambda>loc.
           sbind (if loc \<noteq> NOTHING then move_to_nothing env oid else sreturn None) (\<lambda>called.
             case called of
               Some a \<Rightarrow> sreturn (BI_CALL 2 (VOBJ oid) a)
             | None \<Rightarrow>
                 sbind (release_children oid) (\<lambda>released.
                   if \<not> released then sreturn (BI_RAISE E_INVARG)
                   else
                     sbind (db_change_parents (Perm oid) (POne NOTHING) None) (\<lambda>_.
                     sbind (smodify (\<lambda>d. Some (db_fixup_owners oid d))) (\<lambda>_.
                     sbind (smodify (db_destroy_object oid)) (\<lambda>_. sreturn no_var_pack)))))))"

definition recycle_rest :: "env \<Rightarrow> var \<Rightarrow> db \<Rightarrow> (var package \<times> db) option" where
  "recycle_rest env obj =
     sbind (is_valid_var obj) (\<lambda>ok.
       if \<not> ok then sreturn (BI_RAISE E_INVARG)
       else (case oref_of obj of
               Some (Perm oid) \<Rightarrow> recycle_perm env oid
             | Some (Anon a) \<Rightarrow> sbind (smodify (db_destroy_anonymous_object a)) (\<lambda>_. sreturn no_var_pack)
             | None \<Rightarrow> (\<lambda>_. None)))"

definition bf_recycle_start :: "env \<Rightarrow> var \<Rightarrow> objid \<Rightarrow> db \<Rightarrow> (var package \<times> db) option" where
  "bf_recycle_start env obj progr =
     (if \<not> is_object obj then sreturn (BI_RAISE E_TYPE)
      else
        sbind (is_valid_var obj) (\<lambda>ok.
          if \<not> ok then sreturn (BI_RAISE E_INVARG)
          else (case oref_of obj of
            None \<Rightarrow> (\<lambda>_. None)
          | Some r \<Rightarrow>
              sbind (sget (\<lambda>d. case r of Anon _ \<Rightarrow> db_object_has_flag2 d r FLAG_RECYCLED | Perm _ \<Rightarrow> Some False))
                (\<lambda>recycled.
                  if recycled then sreturn (BI_RAISE E_INVARG)
                  else
                    sbind (sget (\<lambda>d. controls2 d progr r)) (\<lambda>mine.
                      if \<not> mine then sreturn (BI_RAISE E_PERM)
                      else
                        sbind (smodify (\<lambda>d. Some (case r of Anon _ \<Rightarrow> upd_ref r (set_flag FLAG_RECYCLED) d | Perm _ \<Rightarrow> d)))
                          (\<lambda>_.
                        sbind (call_verb env (case r of Perm x \<Rightarrow> x | Anon _ \<Rightarrow> NOTHING) ''recycle'' obj []) (\<lambda>e.
                          case e of
                            Inr a \<Rightarrow> sreturn (BI_CALL 2 obj a)
                          | Inl _ \<Rightarrow> recycle_rest env obj)))))))"

definition bf_recycle :: "env \<Rightarrow> var list \<Rightarrow> nat \<Rightarrow> var \<Rightarrow> objid \<Rightarrow> db \<Rightarrow> (var package \<times> db) option" where
  "bf_recycle env args func_pc vdata progr =
     (if func_pc = 1 then (case args of [obj] \<Rightarrow> bf_recycle_start env obj progr | _ \<Rightarrow> (\<lambda>_. None))
      else if func_pc = 2 then recycle_rest env vdata
      else (\<lambda>_. None))"

section \<open>Queries\<close>

definition bf_typeof :: "var list \<Rightarrow> unit package option" where
  "bf_typeof args = (case args of [v] \<Rightarrow> Some (BI_RETURN (VINT (word_of_int (type_of v AND 127)))) | _ \<Rightarrow> None)"

definition bf_valid :: "var list \<Rightarrow> db \<Rightarrow> (unit package \<times> db) option" where
  "bf_valid args =
     (case args of
        [v] \<Rightarrow> if is_object v then sbind (is_valid_var v) (\<lambda>ok. sreturn (BI_RETURN (VINT (if ok then 1 else 0))))
               else sreturn (BI_RAISE E_TYPE)
      | _ \<Rightarrow> (\<lambda>_. None))"

definition bf_max_object :: "db \<Rightarrow> unit package" where
  "bf_max_object d = BI_RETURN (VOBJ (db_last_used_objid d))"

definition bf_players :: "db \<Rightarrow> unit package" where
  "bf_players d = BI_RETURN (VLIST (map VOBJ (all_users d)))"

definition bf_is_player :: "var list \<Rightarrow> db \<Rightarrow> unit package option" where
  "bf_is_player args d =
     (case args of
        [VOBJ oid] \<Rightarrow> Some (if \<not> valid d oid then BI_RAISE E_INVARG else BI_RETURN (VINT (if is_user d oid then 1 else 0)))
      | _ \<Rightarrow> None)"

text \<open>
  \<^verbatim>\<open>set_player_flag\<close>; disconnecting the player, \<^verbatim>\<open>boot_player\<close>, does not touch the database.
\<close>

definition bf_set_player_flag :: "var list \<Rightarrow> objid \<Rightarrow> db \<Rightarrow> (unit package \<times> db) option" where
  "bf_set_player_flag args progr d =
     (case args of
        [VOBJ oid, flag] \<Rightarrow>
          Some (if \<not> valid d oid then (BI_RAISE E_INVARG, d)
                else if \<not> is_wizard d progr then (BI_RAISE E_PERM, d)
                else if is_true flag then (no_var_pack, db_set_object_flag oid FLAG_USER d)
                else (no_var_pack, db_clear_object_flag oid FLAG_USER d))
      | _ \<Rightarrow> None)"

fun first_isa :: "db \<Rightarrow> oref \<Rightarrow> objid list \<Rightarrow> objid option option" where
  "first_isa d obj [] = Some None"
| "first_isa d obj (p # ps) =
     (case db_object_isa d obj (Perm p) of
        None \<Rightarrow> None
      | Some b \<Rightarrow> if b then Some (Some p) else first_isa d obj ps)"

text \<open>
  \<^verbatim>\<open>isa\<close>; \<open>waif_class\<close> gives the class of a waif. The number of a parent that is an
  anonymous object is its pointer, \<open>ptr\<close>.
\<close>

definition isa_result :: "bool \<Rightarrow> objid option \<Rightarrow> unit package" where
  "isa_result return_obj found =
     BI_RETURN (case found of
                  None \<Rightarrow> if return_obj then VOBJ NOTHING else VINT 0
                | Some p \<Rightarrow> if return_obj then VOBJ p else VINT 1)"

definition bf_isa ::
  "(nat \<Rightarrow> objid) \<Rightarrow> (nat \<Rightarrow> objid) \<Rightarrow> var list \<Rightarrow> db \<Rightarrow> (unit package \<times> db) option" where
  "bf_isa waif_class ptr args =
     (case args of
        object # parent # rest \<Rightarrow>
          let return_obj = (rest \<noteq> [] \<and> is_true (hd rest));
              obj = (case object of VWAIF w \<Rightarrow> VOBJ (waif_class w) | _ \<Rightarrow> object) in
          if \<not> is_object object \<or> is_obj_or_list_of_objs parent = None \<and> \<not> (case parent of VANON _ \<Rightarrow> True | _ \<Rightarrow> False)
          then sreturn (BI_RAISE E_TYPE)
          else
            sbind (is_valid_var obj) (\<lambda>ok.
              if \<not> ok then sreturn (isa_result return_obj None)
              else
                sget (\<lambda>d. Option.bind (oref_of obj) (\<lambda>r.
                  map_option (isa_result return_obj)
                    (case (is_obj_or_list_of_objs parent, parent) of
                       (Some (PMany ps), _) \<Rightarrow> first_isa d r ps
                     | (Some (POne p), _) \<Rightarrow> first_isa d r [p]
                     | (None, VANON (Some a)) \<Rightarrow>
                         map_option (\<lambda>b. if b then Some (ptr a) else None) (db_object_isa d r (Anon a))
                     | _ \<Rightarrow> Some None))))
      | _ \<Rightarrow> (\<lambda>_. None))"

text \<open>The object numbers up to the last used one, in order.\<close>

definition all_numbers :: "db \<Rightarrow> objid list" where
  "all_numbers d = map int [0..<nat (db_last_used_objid d + 1)]"

definition oid_list :: "objid list \<Rightarrow> unit package" where
  "oid_list xs = BI_RETURN (VLIST (map VOBJ xs))"

text \<open>
  \<^verbatim>\<open>locate_by_name\<close>: the built-in property \<^verbatim>\<open>name\<close> of an object is the name in its record.
\<close>

definition bf_locate_by_name :: "var list \<Rightarrow> objid \<Rightarrow> db \<Rightarrow> unit package option" where
  "bf_locate_by_name args progr d =
     (case args of
        VSTR what # rest \<Rightarrow>
          if \<not> is_wizard d progr then Some (BI_RAISE E_PERM)
          else
            let case_matters = (rest \<noteq> [] \<and> is_true (hd rest)) in
            Some (oid_list (filter (\<lambda>x. case dbpriv_find_object d x of
                None \<Rightarrow> False
              | Some ob \<Rightarrow> strindex (o_name ob) what case_matters \<noteq> 0) (all_numbers d)))
      | _ \<Rightarrow> None)"

definition multi_parent_isa :: "db \<Rightarrow> oref \<Rightarrow> parents \<Rightarrow> bool option" where
  "multi_parent_isa d obj ps =
     map_option (\<lambda>f. f \<noteq> None) (first_isa d obj (case ps of POne p \<Rightarrow> [p] | PMany xs \<Rightarrow> xs))"

fun occupants_loop :: "db \<Rightarrow> parents option \<Rightarrow> bool \<Rightarrow> bool \<Rightarrow> objid list \<Rightarrow> objid list option" where
  "occupants_loop d parent check_player inverted [] = Some []"
| "occupants_loop d parent check_player inverted (oid # oids) =
     (case (case parent of
              None \<Rightarrow> Some True
            | Some ps \<Rightarrow> map_option (\<lambda>b. b \<noteq> inverted) (multi_parent_isa d (Perm oid) ps)) of
        None \<Rightarrow> None
      | Some parent_matches \<Rightarrow>
          map_option (\<lambda>rest. if parent_matches \<and> (\<not> check_player \<or> is_user d oid) then oid # rest else rest)
            (occupants_loop d parent check_player inverted oids))"

definition occupants_callback :: "var list \<Rightarrow> db \<Rightarrow> (error + objid list) option" where
  "occupants_callback args d =
     (case args of
        VLIST contents # rest \<Rightarrow>
          (let check_player = (rest = [] \<or> length rest > 1 \<and> is_true (rest ! 1));
               inverted = (length rest > 2 \<and> is_true (rest ! 2)) in
           if rest \<noteq> [] \<and> is_obj_or_list_of_objs (hd rest) = None then Some (Inl E_TYPE)
           else case is_list_of_objs contents of
             None \<Rightarrow> Some (Inl E_INVARG)
           | Some oids \<Rightarrow>
               if \<not> all_valid d oids then Some (Inl E_INVARG)
               else map_option Inr
                 (occupants_loop d (if rest = [] then None else is_obj_or_list_of_objs (hd rest))
                    check_player inverted oids))
      | _ \<Rightarrow> None)"

definition bf_occupants :: "var list \<Rightarrow> db \<Rightarrow> unit package option" where
  "bf_occupants args d = map_option (case_sum BI_RAISE oid_list) (occupants_callback args d)"

text \<open>
  The climb of \<^verbatim>\<open>locations\<close>, which stops at the base object unless that is \<^verbatim>\<open>#0\<close>, the value
  that stands for its absence; \<open>None\<close> is a climb that does not end.
\<close>

record climb =
  cl_db :: db
  cl_base :: objid
  cl_check_parent :: bool

partial_function (option) locations_loop :: "climb \<Rightarrow> objid \<Rightarrow> objid list \<Rightarrow> objid list option"
  where [code]: "locations_loop c loc locs =
     (if \<not> valid (cl_db c) loc then Some locs
      else
        case (if cl_base c = 0 then Some False
              else if cl_check_parent c then db_object_isa (cl_db c) (Perm loc) (Perm (cl_base c))
              else Some (loc = cl_base c)) of
          None \<Rightarrow> None
        | Some stop \<Rightarrow>
            if stop then Some locs
            else (case db_object_location (cl_db c) loc of
                    None \<Rightarrow> None
                  | Some l \<Rightarrow> locations_loop c l (oset_add locs loc)))"

definition bf_locations :: "var list \<Rightarrow> db \<Rightarrow> unit package option" where
  "bf_locations args d =
     (case args of
        VOBJ what # rest \<Rightarrow>
          if \<not> valid d what then Some (BI_RAISE E_INVIND)
          else
            Option.bind (case rest of [] \<Rightarrow> Some 0 | VOBJ b # _ \<Rightarrow> Some b | _ \<Rightarrow> None) (\<lambda>base.
            Option.bind (db_object_location d what) (\<lambda>loc.
              map_option oid_list
                (locations_loop \<lparr>cl_db = d, cl_base = base, cl_check_parent = length rest > 1 \<and> is_true (rest ! 1)\<rparr> loc [])))
      | _ \<Rightarrow> None)"

definition bf_recycled_objects :: "db \<Rightarrow> unit package" where
  "bf_recycled_objects d = oid_list (filter (\<lambda>x. \<not> valid d x) (all_numbers d))"

definition bf_next_recycled_object :: "var list \<Rightarrow> db \<Rightarrow> unit package option" where
  "bf_next_recycled_object args d =
     Option.bind (case args of [] \<Rightarrow> Some 0 | [VOBJ i] \<Rightarrow> Some i | _ \<Rightarrow> None) (\<lambda>i.
       let max_obj = db_last_used_objid d in
       Some (if i > max_obj \<or> i < 0 then BI_RAISE E_INVARG
             else BI_RETURN (case List.find (\<lambda>x. \<not> valid d x) [i..max_obj - 1] of
                               None \<Rightarrow> VINT 0
                             | Some x \<Rightarrow> VOBJ x)))"

definition bf_owned_objects :: "var list \<Rightarrow> db \<Rightarrow> unit package option" where
  "bf_owned_objects args d =
     (case args of
        [VOBJ who] \<Rightarrow>
          Some (if \<not> valid d who then BI_RAISE E_INVIND
                else oid_list (filter (\<lambda>x. case dbpriv_find_object d x of None \<Rightarrow> False | Some ob \<Rightarrow> who = o_owner ob)
                       (all_numbers d)))
      | _ \<Rightarrow> None)"

end
