(* ===== verification/ObjectSteps.thy ===== *)
theory ObjectSteps
  imports Objects
begin

text \<open>
  The object built-ins keep the invariants of the database: both hierarchies linked and
  without cycles, the ancestor cache and the verb cache coherent, the object table within
  its sizes.
\<close>

section \<open>The invariant\<close>

definition anon_plain :: "db \<Rightarrow> bool" where
  "anon_plain d \<longleftrightarrow> (\<forall>a oa. anon_store d a = Some oa \<longrightarrow> o_verbdefs oa = [])"

definition good :: "db \<Rightarrow> bool" where
  "good d \<longleftrightarrow> db_ok d \<and> sized d \<and> vc_ok d \<and> anon_plain d"

definition vname_perms :: "verbdef \<Rightarrow> string \<times> int" where
  "vname_perms v = (vd_name v, vd_perms v)"

lemma first_index_names:
  "map vname_perms vs = map vname_perms vs' \<Longrightarrow>
   first_index (verb_matches no_alias verb x) vs = first_index (verb_matches no_alias verb x) vs'"
proof (induction vs arbitrary: vs')
  case (Cons v vs)
  then obtain w ws where w: "vs' = w # ws" "vname_perms v = vname_perms w" "map vname_perms vs = map vname_perms ws"
    by (cases vs') auto
  then have "verb_matches no_alias verb x v = verb_matches no_alias verb x w"
    by (simp add: verb_matches_def vname_perms_def no_alias_def)
  with Cons.IH [OF w(3)] w(1) show ?case by simp
qed simp

text \<open>
  The verb cache stays coherent when one object without verbs and children comes, goes or
  changes, and the others keep their parents and the names and flags of their verbs.
\<close>

lemma vc_ok_apart_names:
  assumes ok: "vc_ok d" and ord: "family.ordered (objects d)" and plain: "anon_plain d"
    and x: "\<And>ob. find_in (objects d) x = Some ob \<Longrightarrow> o_verbdefs ob = [] \<and> o_children ob = []"
    and t: "vc_table d' = vc_table d"
    and obs: "\<And>q. q \<noteq> x \<Longrightarrow> map_option (\<lambda>ob. (o_parents ob, map vname_perms (o_verbdefs ob))) (find_in (objects d') q) =
      map_option (\<lambda>ob. (o_parents ob, map vname_perms (o_verbdefs ob))) (find_in (objects d) q)"
  shows "vc_ok d'"
proof -
  let ?A = "{v. v = NOTHING \<or> v \<noteq> x}"
  have L: "family.linked (objects d)" using ord by (simp add: family.ordered_def)
  have kid: "set (o_parent_list oq) \<subseteq> ?A" if q: "find_in (objects d) q = Some oq" for q oq
  proof
    fix p assume p: "p \<in> set (o_parent_list oq)"
    show "p \<in> ?A"
    proof (cases "p = NOTHING")
      case False
      then have "(q, p) \<in> family.up (objects d)" using parent_list_up(2) [OF L q, of p] p by blast
      then obtain op where "find_in (objects d) p = Some op" "q \<in> set (o_children op)"
        using L unfolding family.linked_def by blast
      then show ?thesis using x by auto
    qed simp
  qed
  have obj: "\<exists>oq'. find_in (objects d') q = Some oq' \<and> map vname_perms (o_verbdefs oq') = map vname_perms (o_verbdefs oq) \<and> o_parent_list oq' = o_parent_list oq"
    if "find_in (objects d) q = Some oq" "q \<noteq> x" for q oq
    using obs [OF that(2)] that(1) by (cases "find_in (objects d') q") (auto simp: o_parent_list_def)
  have none: "find_in (objects d) q = None \<longleftrightarrow> find_in (objects d') q = None" if "q \<in> ?A" for q
    using obs [of q] that by (cases "q = x"; cases "find_in (objects d) q"; cases "find_in (objects d') q") auto
  have eq: "vc_buckets d' = vc_buckets d" by (simp add: vc_buckets_def t)
  show ?thesis unfolding vc_ok_def eq
  proof (intro allI impI)
    fix b e assume e: "e \<in> set (vc_buckets d b)"
    let ?r = "vc_object e" and ?P = "first_index (verb_matches no_alias (vc_verbname e) True)"
    obtain oe where oe: "dbpriv_dereference d ?r = Some oe" "o_verbdefs oe \<noteq> []" "c_string (vc_verbname e)"
      "find_callable_verbdef d no_alias ?r (vc_verbname e) = Some (vc_handle e)"
      using ok e by (auto simp: vc_ok_def)
    obtain q where q: "?r = Perm q" "find_in (objects d) q = Some oe"
      using oe(1,2) plain by (cases ?r) (auto simp: dbpriv_find_object_def anon_plain_def)
    have "q \<noteq> x" using x q oe(2) by auto
    from obj [OF q(2) this] obtain oe' where oe': "dbpriv_dereference d' ?r = Some oe'" "map vname_perms (o_verbdefs oe') = map vname_perms (o_verbdefs oe)"
      "o_parent_list oe' = o_parent_list oe" using q(1) by (auto simp: dbpriv_find_object_def)
    have "find_callable_verbdef d' no_alias ?r (vc_verbname e) = find_callable_verbdef d no_alias ?r (vc_verbname e)"
    proof (rule find_callable_agree [OF ord, where A = ?A, OF none _ oe(1) oe'(1)])
      fix v ov ov' assume v: "v \<in> ?A" "find_in (objects d) v = Some ov" "find_in (objects d') v = Some ov'"
      then have "v \<noteq> x" by auto
      with obj [OF v(2) this] kid [OF v(2)] v(3)
      show "?P (o_verbdefs ov) = ?P (o_verbdefs ov') \<and> o_parent_list ov = o_parent_list ov' \<and> set (o_parent_list ov) \<subseteq> ?A"
        by (auto intro: first_index_names)
    qed (use oe' kid [OF q(2)] in \<open>auto intro: first_index_names\<close>)
    moreover have "o_verbdefs oe' \<noteq> []" using oe(2) oe'(2) by auto
    ultimately show "c_string (vc_verbname e) \<and>
        (\<exists>ob. dbpriv_dereference d' ?r = Some ob \<and> o_verbdefs ob \<noteq> []) \<and>
        find_callable_verbdef d' no_alias ?r (vc_verbname e) = Some (vc_handle e)" using oe oe' by auto
  qed
qed

lemma vc_ok_apart:
  assumes "vc_ok d" and "family.ordered (objects d)" and "anon_plain d"
    and "\<And>ob. find_in (objects d) x = Some ob \<Longrightarrow> o_verbdefs ob = [] \<and> o_children ob = []"
    and "vc_table d' = vc_table d"
    and obs: "\<And>q. q \<noteq> x \<Longrightarrow> map_option (\<lambda>ob. (o_parents ob, o_verbdefs ob)) (find_in (objects d') q) =
      map_option (\<lambda>ob. (o_parents ob, o_verbdefs ob)) (find_in (objects d) q)"
  shows "vc_ok d'"
proof (rule vc_ok_apart_names [OF assms(1-5)])
  fix q assume "q \<noteq> x"
  from arg_cong [OF obs [OF this], of "map_option (map_prod id (map vname_perms))"]
  show "map_option (\<lambda>ob. (o_parents ob, map vname_perms (o_verbdefs ob))) (find_in (objects d') q) =
      map_option (\<lambda>ob. (o_parents ob, map vname_perms (o_verbdefs ob))) (find_in (objects d) q)"
    by (simp add: option.map_comp comp_def)
qed

lemmas vc_ok_agree = vc_ok_apart [where x = NOTHING, simplified]

section \<open>Calling a verb\<close>

lemma erase_vc_more:
  "num_objects (erase_vc d) = num_objects d" "array_size (erase_vc d) = array_size d"
  "ancestor_cache (erase_vc d) = ancestor_cache d" "anonymous_objects (erase_vc d) = anonymous_objects d"
  by (simp_all add: erase_vc_def)

lemma same_but_vc_all:
  assumes "same_but_vc d d'"
  shows "objects d' = objects d" "anon_store d' = anon_store d" "num_objects d' = num_objects d"
    "array_size d' = array_size d" "ancestor_cache d' = ancestor_cache d" "anonymous_objects d' = anonymous_objects d"
proof -
  note e = assms [unfolded same_but_vc_def]
  show "objects d' = objects d" "anon_store d' = anon_store d" using same_but_vc_fields [OF assms] by simp_all
  show "num_objects d' = num_objects d" using arg_cong [OF e, of num_objects] unfolding erase_vc_more .
  show "array_size d' = array_size d" using arg_cong [OF e, of array_size] unfolding erase_vc_more .
  show "ancestor_cache d' = ancestor_cache d" using arg_cong [OF e, of ancestor_cache] unfolding erase_vc_more .
  show "anonymous_objects d' = anonymous_objects d" using arg_cong [OF e, of anonymous_objects] unfolding erase_vc_more .
qed

lemma db_ok_same_objects: "objects d' = objects d \<Longrightarrow> ancestor_cache d' = ancestor_cache d \<Longrightarrow> db_ok d' = db_ok d"
  by (simp add: db_ok_def cache_ok_def dbpriv_find_object_def)

lemma sized_same: "objects d' = objects d \<Longrightarrow> num_objects d' = num_objects d \<Longrightarrow> array_size d' = array_size d \<Longrightarrow> sized d' = sized d"
  by (simp add: sized_def)

lemma good_same_but_vc: "good d \<Longrightarrow> same_but_vc d d' \<Longrightarrow> vc_ok d' \<Longrightarrow> good d'"
  using db_ok_same_objects [of d' d] sized_same [of d' d] same_but_vc_all [of d d']
  unfolding good_def anon_plain_def by simp

lemma first_index_bound: "first_index P xs = Some i \<Longrightarrow> i < length xs"
  by (induction xs arbitrary: i) (auto split: if_splits)

lemma match_along_handle: "match_along d P l = Some (Some h) \<Longrightarrow> handle_verbdef d h \<noteq> None"
  by (induction d P l rule: match_along.induct)
    (auto simp: handle_verbdef_def dest: first_index_bound split: option.splits)

lemma find_callable_handle:
  assumes "family.ordered (objects d)" "dbpriv_dereference d r = Some ob"
    "find_callable_verbdef d no_alias r verb = Some (Some h)"
  shows "\<exists>v. handle_verbdef d h = Some v"
  using match_ancestors [OF assms(1,2), of verb] assms(3) match_along_handle by fastforce

lemma handle_same_but_vc: "same_but_vc d d' \<Longrightarrow> handle_verbdef d' h = handle_verbdef d h"
  using same_but_vc_all [of d d'] by (cases "fst h") (simp_all add: handle_verbdef_def dbpriv_find_object_def)

lemma flag_same_shape: "same_shape d (upd_ref r (set_flag f) d)"
  by (rule same_shape_upd_ref) simp

lemma good_same_shape:
  assumes "same_shape d d'" "good d"
  shows "good d'"
proof -
  have sh: "shape d' = shape d" using assms(1) by (simp add: same_shape_def)
  have "vc_ok d'"
  proof (rule vc_ok_agree)
    show "map_option (\<lambda>ob. (o_parents ob, o_verbdefs ob)) (find_in (objects d') q) =
        map_option (\<lambda>ob. (o_parents ob, o_verbdefs ob)) (find_in (objects d) q)" for q
      using shape_read [OF sh, of "\<lambda>(i, ps, cs, l, ct, vs). (ps, vs)" q] by (simp add: skeleton_def)
  qed (use assms in \<open>auto simp: good_def db_ok_def same_shape_def\<close>)
  moreover have "sized d'"
  proof -
    have "find_in (objects d') i = None \<longleftrightarrow> find_in (objects d) i = None" for i
      using same_shape_find [OF sh, of i] by (cases "find_in (objects d') i"; cases "find_in (objects d) i")
        (auto simp: dbpriv_find_object_def)
    moreover have "length (objects d') = length (objects d)"
      using arg_cong [OF sh, of length] by (simp add: shape_def)
    ultimately show ?thesis using assms by (simp add: good_def sized_def same_shape_def)
  qed
  moreover have "anon_plain d'" unfolding anon_plain_def
  proof (intro allI impI)
    fix a oa assume a: "anon_store d' a = Some oa"
    moreover have "map_option skeleton (anon_store d' a) = map_option skeleton (anon_store d a)"
      using assms(1) by (simp add: same_shape_def)
    ultimately obtain oa0 where "anon_store d a = Some oa0" "skeleton oa0 = skeleton oa"
      by (cases "anon_store d a") auto
    then show "o_verbdefs oa = []" using assms(2) by (auto simp: good_def anon_plain_def skeleton_def)
  qed
  ultimately show ?thesis using assms db_ok_same_shape by (simp add: good_def)
qed

lemma anon_valid_shape: "same_shape d (snd (anon_valid a d))"
  using flag_same_shape [of d "Anon a" FLAG_INVALID] fr.refl
  by (auto simp: anon_valid_def parents_ok_def simp del: upd_ref.simps split: option.split)

lemma is_valid_var_shape: "\<exists>ok d'. is_valid_var v d = Some (ok, d') \<and> same_shape d d' \<and> objects d' = objects d"
proof -
  have o: "objects (snd (anon_valid a d)) = objects d" for a
    by (simp add: anon_valid_def parents_ok_def split: option.split)
  have "same_shape d (snd (anon_valid a d)) \<and> objects (snd (anon_valid a d)) = objects d" for a
    using anon_valid_shape o by blast
  then show ?thesis
    by (auto simp: is_valid_var_def fr.refl split: var.split option.split) (metis prod.collapse)+
qed

lemma anon_valid_True: "anon_valid a d = (True, d') \<Longrightarrow> d' = d \<and> (\<exists>oa. anon_store d a = Some oa)"
  by (auto simp: anon_valid_def parents_ok_def split: option.splits if_splits)

lemma db_find_callable_good:
  assumes g: "good d" and v: "c_string verb" and r: "is_valid r d = (True, d)"
  shows "\<exists>h d'. db_find_callable_verb addr no_alias r verb d = Some (h, d') \<and> good d' \<and> same_but_vc d d' \<and>
    (\<forall>h0. h = Some h0 \<longrightarrow> (\<exists>v. handle_verbdef d' h0 = Some v))"
proof -
  obtain ob where ob: "dbpriv_dereference d r = Some ob"
    using r by (cases r) (auto simp: valid_def dest: anon_valid_True)
  have ord: "family.ordered (objects d)" and vc: "vc_ok d" using g by (auto simp: good_def db_ok_def)
  have h: "harmless no_alias verb" by (simp add: harmless_def no_alias_def)
  from db_find_callable_verb_ok [OF ord vc v h r ob, of addr] obtain h d' where
    d': "db_find_callable_verb addr no_alias r verb d = Some (h, d')"
      "find_callable_verbdef d no_alias r verb = Some h" "same_but_vc d d'" "vc_ok d'" by blast
  then show ?thesis
    using find_callable_handle [OF ord ob] good_same_but_vc [OF g] handle_same_but_vc by fastforce
qed

lemma call_verb_good:
  assumes g: "good d" and v: "c_string vname"
  shows "\<exists>r d'. call_verb env recv vname this args d = Some (r, d') \<and> good d' \<and> objects d' = objects d"
proof -
  define m where "m = (\<lambda>d. case this of VANON _ \<Rightarrow> is_valid_var this d | _ \<Rightarrow> Some (False, d))"
  obtain anon d1 where d1: "m d = Some (anon, d1)" "same_shape d d1" "objects d1 = objects d"
    and a: "anon \<Longrightarrow> \<exists>a. this = VANON (Some a) \<and> anon_valid a d = (True, d1)"
    using is_valid_var_shape [of this d] fr.refl
    by (auto simp: m_def is_valid_var_def split: var.splits option.splits)
  have g1: "good d1" by (rule good_same_shape [OF d1(2) g])
  show ?thesis
  proof (cases "\<not> anon \<and> \<not> valid d1 recv")
    case True
    then have "call_verb env recv vname this args d = Some (Inl E_INVIND, d1)"
      using d1(1) by (simp add: call_verb_def sbind_def m_def [symmetric] sget_def sreturn_def)
    with g1 d1 show ?thesis by blast
  next
    case False
    define r where "r = (if anon then the (oref_of this) else Perm recv)"
    have "is_valid r d1 = (True, d1) \<and> (if anon then oref_of this else Some (Perm recv)) = Some r"
    proof (cases anon)
      case True
      from a [OF True] obtain a0 where a0: "this = VANON (Some a0)" "anon_valid a0 d = (True, d1)" by blast
      with anon_valid_True [OF a0(2)] show ?thesis using True by (simp add: r_def oref_of_def)
    qed (use False in \<open>simp add: r_def\<close>)
    then have r: "is_valid r d1 = (True, d1)" "(if anon then oref_of this else Some (Perm recv)) = Some r" by auto
    from db_find_callable_good [OF g1 v r(1), of "e_addr env"] obtain h d2 where
      d2: "db_find_callable_verb (e_addr env) no_alias r vname d1 = Some (h, d2)" "good d2" "same_but_vc d1 d2"
        "\<forall>h0. h = Some h0 \<longrightarrow> (\<exists>v. handle_verbdef d2 h0 = Some v)" by blast
    have "\<exists>res. call_verb env recv vname this args d = Some (res, d2)"
      using d1(1) False r(2) d2(1,4)
      by (cases h) (auto simp: call_verb_def sbind_def m_def [symmetric] sget_def sreturn_def)
    then show ?thesis using d2 d1(3) same_but_vc_all(1) [OF d2(3)] by auto
  qed
qed

section \<open>Moving\<close>

lemma finite_places_up: "finite (places.up objs)"
proof (rule finite_subset)
  show "places.up objs \<subseteq> (\<Union>c \<in> {0..<int (length objs)}. \<Union>ob \<in> set_option (find_in objs c). {c} \<times> set (up_location ob))"
    unfolding places.up_def by (auto dest: find_in_range)
qed auto

lemma wf_places_up: "places.ordered objs \<Longrightarrow> wf ((places.up objs)\<inverse>)"
  using finite_places_up by (simp add: places.ordered_def finite_acyclic_wf_converse)

lemma inside_iff:
  assumes ord: "places.ordered (objects d)"
  shows "oid = NOTHING \<or> valid d oid \<Longrightarrow> inside d what oid = Some (oid \<noteq> NOTHING \<and> (oid, what) \<in> (places.up (objects d))\<^sup>*)"
proof (induction oid rule: wf_induct_rule [OF wf_places_up [OF ord]])
  case (1 oid)
  have L: "places.linked (objects d)" using ord by (simp add: places.ordered_def)
  show ?case
  proof (cases "oid = NOTHING \<or> oid = what")
    case True
    then show ?thesis by (subst inside.simps) auto
  next
    case False
    then obtain ob where ob: "find_in (objects d) oid = Some ob" using 1(2) by (auto simp: valid_find)
    let ?l = "o_location ob"
    have up: "(oid, p) \<in> places.up (objects d) \<longleftrightarrow> p = ?l \<and> ?l \<noteq> NOTHING" for p
      using ob by (auto simp: places_up_iff)
    have "?l = NOTHING \<or> valid d ?l" using places_linkedD(1) [OF L ob] by (auto simp: valid_find)
    moreover have "(?l, oid) \<in> (places.up (objects d))\<inverse>" if "?l \<noteq> NOTHING" using up that by simp
    moreover have "inside d what NOTHING = Some False" by (subst inside.simps) simp
    ultimately have "inside d what ?l = Some (?l \<noteq> NOTHING \<and> (?l, what) \<in> (places.up (objects d))\<^sup>*)"
      using 1(1) [of ?l] by (cases "?l = NOTHING") auto
    moreover have "(oid, what) \<in> (places.up (objects d))\<^sup>* \<longleftrightarrow> ?l \<noteq> NOTHING \<and> (?l, what) \<in> (places.up (objects d))\<^sup>*"
      using rtrancl_first [of oid what "places.up (objects d)"] False up by auto
    ultimately show ?thesis
      using False ob by (subst inside.simps) (simp add: db_object_location_def dbpriv_find_object_def)
  qed
qed

lemma upd_obj_fields:
  "num_objects (upd_obj x f d) = num_objects d" "array_size (upd_obj x f d) = array_size d"
  "vc_table (upd_obj x f d) = vc_table d" "anon_store (upd_obj x f d) = anon_store d"
  "anonymous_objects (upd_obj x f d) = anonymous_objects d" "ancestor_cache (upd_obj x f d) = ancestor_cache d"
  "length (objects (upd_obj x f d)) = length (objects d)"
  by (simp_all add: upd_obj_def split: option.split)

lemma move_writes_reads:
  "map_option (\<lambda>ob. (o_parents ob, o_verbdefs ob)) (find_in (objects (move_writes x old new position d)) q) =
   map_option (\<lambda>ob. (o_parents ob, o_verbdefs ob)) (find_in (objects d) q)"
  by (simp add: move_writes_def upd_obj_read)

lemma find_None_read: "map_option f (find_in objs q) = map_option f (find_in objs' q) \<Longrightarrow> find_in objs q = None \<longleftrightarrow> find_in objs' q = None"
  by (cases "find_in objs q"; cases "find_in objs' q") auto

lemma good_move_writes:
  assumes g: "good d" and x: "dbpriv_find_object d x = Some ob"
    and new: "new = NOTHING \<or> valid d new \<and> (new, x) \<notin> (places.up (objects d))\<^sup>*"
  shows "good (move_writes x (o_location ob) new position d)"
proof -
  let ?d = "move_writes x (o_location ob) new position d"
  have f: "num_objects ?d = num_objects d" "array_size ?d = array_size d" "vc_table ?d = vc_table d"
    "anon_store ?d = anon_store d" "length (objects ?d) = length (objects d)"
    by (simp_all add: move_writes_def upd_obj_fields)
  have "vc_ok ?d"
    by (rule vc_ok_agree [OF _ _ _ f(3) move_writes_reads]) (use g in \<open>auto simp: good_def db_ok_def\<close>)
  moreover have "sized ?d"
    using g f find_None_read [OF move_writes_reads, of x "o_location ob" new position d] by (simp add: good_def sized_def)
  moreover have "db_ok ?d" using move_ok(1) [OF _ x new] g by (simp add: good_def)
  ultimately show ?thesis using g f by (simp add: good_def anon_plain_def)
qed

lemma last_move_same_shape: "same_shape d (upd_obj x (\<lambda>ob. ob\<lparr>o_last_move := lm\<rparr>) d)"
  using same_shape_upd_ref [of "\<lambda>ob. ob\<lparr>o_last_move := lm\<rparr>" d "Perm x"] by simp

lemma places_up_same_shape: "shape d' = shape d \<Longrightarrow> places.up (objects d') = places.up (objects d)"
  by (rule places.ordered_cong(1))
    (use shape_read [of d' d "\<lambda>(i, ps, cs, l, ct, vs). (if l = NOTHING then [] else [l], ct)"]
     in \<open>simp add: skeleton_def\<close>)

lemma valid_same_shape: "shape d' = shape d \<Longrightarrow> valid d' q = valid d q"
  using same_shape_find [of d' d q] by (cases "dbpriv_find_object d' q"; cases "dbpriv_find_object d q") (auto simp: valid_def)

lemma move_object_good:
  assumes g: "good d" and x: "valid d x"
    and new: "new = NOTHING \<or> valid d new \<and> (new, x) \<notin> (places.up (objects d))\<^sup>*"
    and run: "move_object env x new position d = Some d'"
  shows "good d'" "valid d' q = valid d q"
    "places.up (objects d') = {(c, p) \<in> places.up (objects d). c \<noteq> x} \<union> {x} \<times> set (if new = NOTHING then [] else [new])"
    "family.up (objects d') = family.up (objects d)"
proof -
  obtain ob where ob: "dbpriv_find_object d x = Some ob" using x by (auto simp: valid_def)
  let ?d3 = "move_writes x (o_location ob) new position d"
  have sh: "same_shape ?d3 d'"
    using run last_move_same_shape fr.refl
    by (auto simp: move_object_def db_change_location_eq [OF ob] Let_def split: if_splits)
  then have s: "shape d' = shape ?d3" by (simp add: same_shape_def)
  show "good d'" by (rule good_same_shape [OF sh good_move_writes [OF g ob new]])
  have "valid ?d3 q = valid d q"
    using find_None_read [OF move_writes_reads, of x "o_location ob" new position d q] by (simp add: valid_find)
  then show "valid d' q = valid d q" using valid_same_shape [OF s] by simp
  show "places.up (objects d') = {(c, p) \<in> places.up (objects d). c \<noteq> x} \<union> {x} \<times> set (if new = NOTHING then [] else [new])"
    using places_up_same_shape [OF s] move_ok(2) [OF _ ob new, of position] g by (simp add: good_def)
  have "family.up (objects ?d3) = family.up (objects d)"
  proof (rule family.ordered_cong(1))
    show "map_option (\<lambda>ob. (up_parents ob, o_children ob)) (find_in (objects ?d3) q) =
        map_option (\<lambda>ob. (up_parents ob, o_children ob)) (find_in (objects d) q)" for q
      by (simp add: move_writes_def upd_obj_read)
  qed
  then show "family.up (objects d') = family.up (objects d)" using family_same_shape(2) [OF s] by simp
qed

lemma move_object_returns:
  assumes "good d" and x: "dbpriv_find_object d x = Some ob" and lm: "\<forall>t. o_last_move ob = VMAP t \<longrightarrow> wf_map t"
  shows "\<exists>d'. move_object env x new position d = Some d'"
  using note_move_returns [of "o_last_move ob" "e_shared env x" "e_now env x" "o_location ob"] lm
  by (auto simp: move_object_def db_change_location_eq [OF x] Let_def)

lemma c_string_names:
  "c_string ''accept''" "c_string ''exitfunc''" "c_string ''enterfunc''" "c_string ''initialize''" "c_string ''recycle''"
  by (simp_all add: c_string_def byte_of_def)

lemma move_enter_good:
  assumes "good d"
  shows "\<exists>p d'. move_enter env data oldloc d = Some (p, d') \<and> good d' \<and> objects d' = objects d \<and>
    (\<forall>e. p = BI_RAISE e \<longrightarrow> e = E_MAXREC)"
proof -
  obtain r d' where r: "call_verb env (m_where data) ''enterfunc'' (VOBJ (m_where data)) [VOBJ (m_what data)] d = Some (r, d')"
    "good d'" "objects d' = objects d"
    using call_verb_good [OF assms c_string_names(3)] by blast
  then show ?thesis using assms by (cases r) (auto simp: move_enter_def run_simps Let_def)
qed

text \<open>What a move may do to the state: nothing, or the one change asked for.\<close>

definition moved :: "objid \<Rightarrow> objid \<Rightarrow> db \<Rightarrow> db \<Rightarrow> bool" where
  "moved what dest d d' \<longleftrightarrow>
     (dest = NOTHING \<or> valid d dest \<and> (dest, what) \<notin> (places.up (objects d))\<^sup>*) \<and>
     places.up (objects d') = {(c, p) \<in> places.up (objects d). c \<noteq> what} \<union> {what} \<times> set (if dest = NOTHING then [] else [dest]) \<and>
     family.up (objects d') = family.up (objects d) \<and> (\<forall>q. valid d' q = valid d q)"

lemma moved_cong: "objects d1 = objects d2 \<Longrightarrow> moved what dest d d1 = moved what dest d d2"
  by (simp add: moved_def valid_find)

definition last_move_ok :: "db \<Rightarrow> objid \<Rightarrow> bool" where
  "last_move_ok d what \<longleftrightarrow>
     (\<forall>ob t. dbpriv_find_object d what = Some ob \<and> o_last_move ob = VMAP t \<longrightarrow> wf_map t)"

lemma last_move_ok_cong: "objects d' = objects d \<Longrightarrow> last_move_ok d' what = last_move_ok d what"
  by (simp add: last_move_ok_def dbpriv_find_object_def)

lemma move_carried_out:
  assumes g: "good d" and lm: "last_move_ok d what" and x: "valid d what"
    and dest: "dest = NOTHING \<or> valid d dest" and out: "inside d what dest = Some False"
  shows "\<exists>d'. move_object env what dest position d = Some d' \<and> good d' \<and> moved what dest d d'"
proof -
  obtain ob where ob: "dbpriv_find_object d what = Some ob" using x by (auto simp: valid_def)
  obtain d' where d': "move_object env what dest position d = Some d'"
    using move_object_returns [OF g ob] lm ob by (fastforce simp: last_move_ok_def)
  have "places.ordered (objects d)" using g by (simp add: good_def db_ok_def)
  from inside_iff [OF this dest] out have new: "dest = NOTHING \<or> valid d dest \<and> (dest, what) \<notin> (places.up (objects d))\<^sup>*"
    using dest by auto
  from move_object_good [OF g x new d'] d' new show ?thesis by (auto simp: moved_def)
qed

lemma move_accepted_good:
  assumes g: "good d" and lm: "last_move_ok d (m_what data)"
  shows "\<exists>p d'. move_accepted env data progr accepts d = Some (p, d') \<and> good d' \<and>
    (objects d' = objects d \<or> moved (m_what data) (m_where data) d d' \<and> (\<forall>e. p = BI_RAISE e \<longrightarrow> e = E_MAXREC))"
proof -
  let ?what = "m_what data" and ?dest = "m_where data"
  consider (refused) "\<not> is_wizard d progr \<and> \<not> accepts"
    | (stale) "is_wizard d progr \<or> accepts" "\<not> valid d ?what \<or> ?dest \<noteq> NOTHING \<and> \<not> valid d ?dest
          \<or> db_object_location d ?what = Some ?dest \<and> m_position data = 0"
    | (go) "is_wizard d progr \<or> accepts" "valid d ?what" "?dest = NOTHING \<or> valid d ?dest"
          "\<not> (db_object_location d ?what = Some ?dest \<and> m_position data = 0)" by blast
  then show ?thesis
  proof cases
    case refused
    then show ?thesis using g by (auto simp: move_accepted_def run_simps Let_def)
  next
    case stale
    then have "move_accepted env data progr accepts d = Some (no_var_pack, d)"
      by (auto simp: move_accepted_def run_simps Let_def)
    then show ?thesis using g by blast
  next
    case go
    obtain rec where rec: "inside d ?what ?dest = Some rec"
      using inside_iff [of d ?dest ?what] g go(3) by (auto simp: good_def db_ok_def)
    obtain oldloc where old: "db_object_location d ?what = Some oldloc"
      using go(2) by (auto simp: db_object_location_def valid_def)
    show ?thesis
    proof (cases rec)
      case True
      then have "move_accepted env data progr accepts d = Some (BI_RAISE E_RECMOVE, d)"
        using go rec by (auto simp: move_accepted_def run_simps Let_def)
      then show ?thesis using g by blast
    next
      case False
      from move_carried_out [OF g lm go(2,3), of env "m_position data"] rec False obtain d1 where
        d1: "move_object env ?what ?dest (m_position data) d = Some d1" "good d1" "moved ?what ?dest d d1" by auto
      obtain r d2 where r: "call_verb env oldloc ''exitfunc'' (VOBJ oldloc) [VOBJ ?what] d1 = Some (r, d2)"
        "good d2" "objects d2 = objects d1"
        using call_verb_good [OF d1(2) c_string_names(2)] by blast
      obtain p1 e1 where e1: "move_enter env data oldloc d1 = Some (p1, e1)" "good e1" "objects e1 = objects d1"
        "\<forall>e. p1 = BI_RAISE e \<longrightarrow> e = E_MAXREC"
        using move_enter_good [OF d1(2)] by blast
      obtain p2 e2 where e2: "move_enter env data oldloc d2 = Some (p2, e2)" "good e2" "objects e2 = objects d2"
        "\<forall>e. p2 = BI_RAISE e \<longrightarrow> e = E_MAXREC"
        using move_enter_good [OF r(2)] by blast
      have m: "moved ?what ?dest d d'" if "objects d' = objects d1" for d'
        using d1(3) moved_cong [OF that] by simp
      have "move_accepted env data progr accepts d =
          (if ?dest \<noteq> oldloc then
             (case r of Inr a \<Rightarrow> Some (BI_CALL 3 data a, d2)
              | Inl e \<Rightarrow> if e = E_MAXREC then Some (BI_RAISE e, d2) else Some (p2, e2))
           else Some (p1, e1))"
        using go rec False old d1(1) r(1) e1(1) e2(1)
        by (auto simp: move_accepted_def run_simps Let_def split: sum.split)
      then show ?thesis using m e1 e2 r by (cases r) auto
    qed
  qed
qed

lemma move_start_good:
  assumes g: "good d" and lm: "last_move_ok d (m_what data)"
  shows "\<exists>p d'. move_start env data progr d = Some (p, d') \<and> good d' \<and>
    (objects d' = objects d \<or> moved (m_what data) (m_where data) d d' \<and> (\<forall>e. p = BI_RAISE e \<longrightarrow> e = E_MAXREC))"
proof (cases "\<not> valid d (m_what data) \<or> \<not> valid d (m_where data) \<and> m_where data \<noteq> NOTHING \<or> m_position data < 0")
  case True
  then have "move_start env data progr d = Some (BI_RAISE E_INVARG, d)" by (auto simp: move_start_def run_simps Let_def)
  then show ?thesis using g by blast
next
  case False
  let ?what = "m_what data" and ?dest = "m_where data"
  have own: "\<exists>b. controls d progr x = Some b" if "valid d x" for x
    using that by (auto simp: controls_def controls2_def db_object_owner2_def valid_def)
  obtain mine where mine: "controls d progr ?what = Some mine" using own False by blast
  show ?thesis
  proof (cases "mine \<and> \<not> (?dest = NOTHING \<or> db_object_location d ?what = Some ?dest)")
    case False2: False
    then have "move_start env data progr d =
        (if mine then move_accepted env data progr True d else Some (BI_RAISE E_PERM, d))"
      using False mine by (auto simp: move_start_def run_simps Let_def)
    then show ?thesis using move_accepted_good [OF g lm] g by (cases mine) auto
  next
    case True
    obtain may where may: "(if m_position data > 0 then controls d progr ?dest else Some True) = Some may"
      using own [of ?dest] False True by (cases "m_position data > 0") auto
    obtain r d1 where r: "call_verb env ?dest ''accept'' (VOBJ ?dest) [VOBJ ?what] d = Some (r, d1)"
      "good d1" "objects d1 = objects d"
      using call_verb_good [OF g c_string_names(1)] by blast
    have lm1: "last_move_ok d1 ?what" using lm last_move_ok_cong [OF r(3)] by simp
    have m: "moved ?what ?dest d1 d' = moved ?what ?dest d d'" for d' by (simp add: moved_def valid_find r(3))
    have "move_start env data progr d =
        (if \<not> may then Some (BI_RAISE E_PERM, d)
         else (case r of Inr a \<Rightarrow> Some (BI_CALL 2 data a, d1)
               | Inl e \<Rightarrow> if e = E_VERBNF then move_accepted env data progr False d1 else Some (BI_RAISE e, d1)))"
      using False True mine may r(1) by (auto simp: move_start_def run_simps Let_def split: sum.split)
    then show ?thesis using move_accepted_good [OF r(2) lm1, of env progr False] r g m by (cases r) auto
  qed
qed

lemma do_move_good:
  assumes "good d" and "last_move_ok d (m_what data)" and "next \<in> {1, 2, 3, 4}"
  shows "\<exists>p d'. do_move env arglist next data progr d = Some (p, d') \<and> good d' \<and>
    (objects d' = objects d \<or>
     next \<le> 2 \<and> moved (m_what data) (m_where data) d d' \<and> (\<forall>e. p = BI_RAISE e \<longrightarrow> e = E_MAXREC))"
proof -
  consider "next = 1" | "next = 2" | "next = 3" | "next = 4" using assms(3) by blast
  then show ?thesis
  proof cases
    case 1
    then show ?thesis using move_start_good [OF assms(1,2), of env progr] by (simp add: do_move_def)
  next
    case 2
    then show ?thesis using move_accepted_good [OF assms(1,2), of env progr "is_true arglist"] by (simp add: do_move_def)
  next
    case 3
    then show ?thesis using move_enter_good [OF assms(1), of env data FAILED_MATCH] by (auto simp: do_move_def)
  next
    case 4
    then show ?thesis using assms(1) by (simp add: do_move_def sreturn_def)
  qed
qed

section \<open>Frames\<close>

text \<open>The sizes of the table, which objects there are, and the verbs of anonymous objects.\<close>

definition same_size :: "db \<Rightarrow> db \<Rightarrow> bool" where
  "same_size d d' \<longleftrightarrow> length (objects d') = length (objects d) \<and> num_objects d' = num_objects d \<and>
     array_size d' = array_size d \<and> (\<forall>q. find_in (objects d') q = None \<longleftrightarrow> find_in (objects d) q = None) \<and>
     (\<forall>a. map_option o_verbdefs (anon_store d' a) = map_option o_verbdefs (anon_store d a))"

interpretation sz: state_frame same_size
  by unfold_locales (auto simp: same_size_def)

text \<open>Permanent objects keep their shape; the verb cache is kept or emptied.\<close>

definition calm :: "db \<Rightarrow> db \<Rightarrow> bool" where
  "calm d d' \<longleftrightarrow> shape d' = shape d \<and> same_size d d' \<and> (cache_ok d \<longrightarrow> cache_ok d') \<and>
     (vc_table d' = vc_table d \<or> vc_empty d')"

interpretation calm: state_frame calm
proof
  show "calm d d" for d by (simp add: calm_def sz.refl)
  show "calm d1 d3" if "calm d1 d2" "calm d2 d3" for d1 d2 d3
    using that sz.trans [of d1 d2 d3] vc_empty_cong [of d3 d2] by (auto simp: calm_def)
qed

lemma same_shape_verbdefs:
  assumes "map_option skeleton (anon_store d' a) = map_option skeleton (anon_store d a)"
  shows "map_option o_verbdefs (anon_store d' a) = map_option o_verbdefs (anon_store d a)"
  using arg_cong [OF assms, of "map_option (\<lambda>(i, ps, cs, l, ct, vs). vs)"]
  by (simp add: option.map_comp comp_def skeleton_def)

lemma same_shape_size:
  assumes "same_shape d d'"
  shows "same_size d d'"
proof -
  have sh: "shape d' = shape d" using assms by (simp add: same_shape_def)
  have "find_in (objects d') q = None \<longleftrightarrow> find_in (objects d) q = None" for q
    using valid_same_shape [OF sh, of q] unfolding valid_find by blast
  moreover have "length (objects d') = length (objects d)" using arg_cong [OF sh, of length] by (simp add: shape_def)
  ultimately show ?thesis using assms same_shape_verbdefs [of d' _ d] by (simp add: same_size_def same_shape_def)
qed

lemma same_shape_calm: "same_shape d d' \<Longrightarrow> calm d d'"
  using same_shape_size by (auto simp: calm_def same_shape_def)

lemma keeps_frames:
  "fr.keeps m \<Longrightarrow> sz.keeps m" "fr.keeps m \<Longrightarrow> calm.keeps m"
  "fr.updates f \<Longrightarrow> sz.updates f" "fr.updates f \<Longrightarrow> calm.updates f"
  unfolding fr.keeps_def sz.keeps_def calm.keeps_def fr.updates_def sz.updates_def calm.updates_def
  using same_shape_size same_shape_calm by blast+

lemma sized_same_size: "same_size d d' \<Longrightarrow> sized d \<Longrightarrow> sized d'"
  by (auto simp: same_size_def sized_def)

lemma anon_plain_same_size:
  assumes "same_size d d'" "anon_plain d"
  shows "anon_plain d'"
  unfolding anon_plain_def
proof (intro allI impI)
  fix a oa assume a: "anon_store d' a = Some oa"
  have "map_option o_verbdefs (anon_store d' a) = map_option o_verbdefs (anon_store d a)"
    using assms(1) by (simp add: same_size_def)
  then show "o_verbdefs oa = []" using a assms(2) by (cases "anon_store d a") (auto simp: anon_plain_def)
qed

lemma good_calm:
  assumes c: "calm d d'" and g: "good d"
  shows "good d'"
proof -
  have sh: "shape d' = shape d" and sz: "same_size d d'" using c by (simp_all add: calm_def)
  have "vc_ok d'"
  proof (cases "vc_empty d'")
    case False
    then have t: "vc_table d' = vc_table d" using c by (simp add: calm_def)
    show ?thesis
    proof (rule vc_ok_agree [OF _ _ _ t])
      show "map_option (\<lambda>ob. (o_parents ob, o_verbdefs ob)) (find_in (objects d') q) =
          map_option (\<lambda>ob. (o_parents ob, o_verbdefs ob)) (find_in (objects d) q)" for q
        using shape_read [OF sh, of "\<lambda>(i, ps, cs, l, ct, vs). (ps, vs)" q] by (simp add: skeleton_def)
    qed (use g in \<open>auto simp: good_def db_ok_def\<close>)
  qed (rule vc_empty_ok)
  moreover have "db_ok d'"
    using c g family_same_shape(1) [OF sh] places_same_shape [OF sh] by (simp add: good_def db_ok_def calm_def)
  ultimately show ?thesis using g sized_same_size [OF sz] anon_plain_same_size [OF sz] by (simp add: good_def)
qed

section \<open>Changing parents\<close>

lemma flush_frames: "sz.updates (\<lambda>d. Some (if b then d else db_priv_affected_callable_verb_lookup d))"
  "calm.updates (\<lambda>d. Some (if b then d else db_priv_affected_callable_verb_lookup d))"
proof -
  have o: "objects (db_priv_affected_callable_verb_lookup d) = objects d"
    "num_objects (db_priv_affected_callable_verb_lookup d) = num_objects d"
    "array_size (db_priv_affected_callable_verb_lookup d) = array_size d"
    "anon_store (db_priv_affected_callable_verb_lookup d) = anon_store d"
    "ancestor_cache (db_priv_affected_callable_verb_lookup d) = ancestor_cache d" for d
    by (simp_all add: db_priv_affected_callable_verb_lookup_def split: option.split)
  then have s: "same_size d (db_priv_affected_callable_verb_lookup d)" for d by (simp add: same_size_def)
  then show "sz.updates (\<lambda>d. Some (if b then d else db_priv_affected_callable_verb_lookup d))"
    by (auto simp: sz.updates_def sz.refl)
  have "calm d (db_priv_affected_callable_verb_lookup d)" for d
    using s [of d] vc_empty_flush o by (simp add: calm_def shape_def cache_ok_def dbpriv_find_object_def)
  then show "calm.updates (\<lambda>d. Some (if b then d else db_priv_affected_callable_verb_lookup d))"
    by (auto simp: calm.updates_def calm.refl)
qed

lemma same_size_upd_obj: "same_size d (upd_obj x f d)"
  using find_upd_obj [of x f d] by (auto simp: same_size_def upd_obj_fields dbpriv_find_object_def)

lemma same_size_upd_ref: "(\<And>ob. o_verbdefs (f ob) = o_verbdefs ob) \<Longrightarrow> same_size d (upd_ref r f d)"
proof (cases r)
  case (Anon a)
  then show "(\<And>ob. o_verbdefs (f ob) = o_verbdefs ob) \<Longrightarrow> ?thesis"
    by (cases "anon_store d a") (auto simp: same_size_def)
qed (simp add: same_size_upd_obj)

text \<open>Only the map of anonymous children and the anonymous objects change.\<close>

lemma calm_anonI:
  assumes "objects d' = objects d" "num_objects d' = num_objects d" "array_size d' = array_size d"
    "ancestor_cache d' = ancestor_cache d" "vc_table d' = vc_table d"
    "\<And>a. map_option o_verbdefs (anon_store d' a) = map_option o_verbdefs (anon_store d a)"
  shows "calm d d'"
  using assms by (simp add: calm_def same_size_def shape_def cache_ok_def dbpriv_find_object_def)

lemma calm_fold: "(\<And>x d. calm d (f x d)) \<Longrightarrow> calm d (fold f xs d)"
  by (induction xs arbitrary: d) (auto intro: calm.refl calm.trans)

lemma calm_anon_map: "calm d (dbpriv_add_anon p a d)" "calm d (dbpriv_remove_anon p a d)"
  by (rule calm_anonI; simp add: dbpriv_add_anon_def dbpriv_remove_anon_def Let_def split: option.split)+

lemma calm_anon_relink: "calm.updates (relink_parents (Anon a) old new)"
proof -
  have "calm d (fold (\<lambda>p. dbpriv_add_anon p a) xs (fold (\<lambda>p. dbpriv_remove_anon p a) ys d))" for xs ys d
    by (rule calm.trans [OF calm_fold [OF calm_anon_map(2)] calm_fold [OF calm_anon_map(1)]])
  then show ?thesis by (auto simp: calm.updates_def relink_parents_def)
qed

lemma calm_upd_anon: "(\<And>ob. o_verbdefs (f ob) = o_verbdefs ob) \<Longrightarrow> calm d (upd_ref (Anon a) f d)"
  by (rule calm_anonI) (auto split: option.split)

lemma size_relink: "sz.updates (relink_parents obj old new)"
proof (cases obj)
  case (Perm x)
  have "sz.updates (upd_valid f q)" for f q
    by (auto simp: sz.updates_def upd_valid_def same_size_upd_obj split: if_splits)
  then have it: "sz.updates (siter (upd_valid f) qs)" for f qs by (rule sz.updates_siter)
  show ?thesis unfolding sz.updates_def
  proof (intro allI impI)
    fix d d' assume "relink_parents obj old new d = Some d'"
    then obtain d1 where "siter (upd_valid (drop_child x)) (linked_parents old) d = Some d1"
      "siter (upd_valid (take_child x)) (linked_parents new) d1 = Some d'"
      by (auto simp: relink_parents_def Perm bind_eq_Some_conv)
    then show "same_size d d'" using it sz.trans unfolding sz.updates_def by blast
  qed
next
  case (Anon a)
  then show ?thesis using calm_anon_relink [of a old new] by (auto simp: sz.updates_def calm.updates_def calm_def)
qed

lemma size_invalidate: "sz.updates (invalidate_below obj)"
  by (auto simp: sz.updates_def invalidate_below_def same_size_def sz.refl split: oref.splits)

lemma updates_fix_after_chparent: "fr.updates (dbpriv_fix_properties_after_chparent obj olds news kids)"
  using updates_fix_properties unfolding fr.updates_def dbpriv_fix_properties_after_chparent_def by blast

lemma size_apply_change: "sz.keeps (apply_change obj ob new kids)"
proof -
  have "sz.updates (\<lambda>d. Some (upd_ref obj (\<lambda>ob. ob\<lparr>o_parents := new\<rparr>) d))"
    by (auto simp: sz.updates_def intro!: same_size_upd_ref)
  then show ?thesis unfolding apply_change_def
    by (intro sz.keeps_intros flush_frames size_relink size_invalidate
        keeps_frames(1) [OF keeps_db_ancestors] keeps_frames(3) [OF updates_fix_after_chparent])
qed

lemma calm_apply_change: "calm.keeps (apply_change (Anon a) ob new kids)"
proof -
  have "calm.updates (\<lambda>d. Some (upd_ref (Anon a) (\<lambda>ob. ob\<lparr>o_parents := new\<rparr>) d))"
    by (auto simp: calm.updates_def simp del: upd_ref.simps intro!: calm_upd_anon)
  moreover have "calm.updates (invalidate_below (Anon a))"
    by (auto simp: calm.updates_def invalidate_below_def calm.refl)
  ultimately show ?thesis unfolding apply_change_def
    by (intro calm.keeps_intros flush_frames calm_anon_relink
        keeps_frames(2) [OF keeps_db_ancestors] keeps_frames(4) [OF updates_fix_after_chparent])
qed

lemma db_change_parents_cases:
  "db_change_parents r new kids d = Some (b, d') \<Longrightarrow>
   d' = d \<and> \<not> b \<or> (\<exists>ob ks. dbpriv_dereference d r = Some ob \<and> apply_change r ob new ks d = Some (b, d'))"
  by (auto simp: db_change_parents_def Let_def split: if_splits option.splits bool.splits)

lemma apply_change_True: "apply_change r ob new ks d = Some (b, d') \<Longrightarrow> b"
  by (auto simp: apply_change_def sbind_def sreturn_def split: option.splits)

lemma db_change_parents_refused: "db_change_parents r new kids d = Some (False, d') \<Longrightarrow> d' = d"
  using db_change_parents_cases apply_change_True by blast

lemma change_parents_anon_good:
  assumes "good d" "db_change_parents (Anon a) new kids d = Some (b, d')"
  shows "good d'" "calm d d'"
proof -
  show "calm d d'"
    using db_change_parents_cases [OF assms(2)] calm.keepsD [OF calm_apply_change] calm.refl by blast
  then show "good d'" using assms(1) good_calm by blast
qed

lemma change_parents_good:
  assumes g: "good d" and run: "db_change_parents (Perm x) new kids d = Some (b, d')"
    and new: "\<forall>p \<in> set (linked_parents new). valid d p \<and> (p, x) \<notin> (family.up (objects d))\<^sup>*"
  shows "good d'" "same_size d d'"
proof -
  show sz: "same_size d d'"
    using db_change_parents_cases [OF run] sz.keepsD [OF size_apply_change] sz.refl by blast
  have plain: "\<forall>a oa. anon_store d a = Some oa \<and> o_verbdefs oa \<noteq> [] \<longrightarrow> x \<notin> set (o_parent_list oa)"
    using g by (auto simp: good_def anon_plain_def)
  show "good d'"
    using g db_change_parents_ok [OF _ new run] db_change_parents_vc [OF _ _ new plain run]
      sized_same_size [OF sz] anon_plain_same_size [OF sz] by (auto simp: good_def)
qed

lemma all_opt_Some: "(\<And>x. x \<in> set xs \<Longrightarrow> f x = Some (P x)) \<Longrightarrow> all_opt f xs = Some (\<forall>x \<in> set xs. P x)"
  by (induction xs) auto

lemma is_a_descendant_iff:
  assumes "family.ordered (objects d)" "valid d x"
  shows "is_a_descendant d y (Perm x) = Some ((y, x) \<in> (family.up (objects d))\<^sup>*)"
proof -
  obtain ob where ob: "dbpriv_find_object d x = Some ob" "find_in (objects d) x = Some ob"
    using assms(2) by (auto simp: valid_find dbpriv_find_object_def)
  have "family.linked (objects d)" using assms(1) by (simp add: family.ordered_def)
  from walk_descendants [OF this ob(2)] have
    "set (walk (objects d) o_children (o_children ob) []) = {y. (y, x) \<in> (family.up (objects d))\<^sup>+}" .
  then show ?thesis
    using db_descendants_eq [OF ob(1), of True] by (auto simp: is_a_descendant_def rtrancl_eq_or_trancl)
qed

lemma parents_descend_iff:
  assumes "family.ordered (objects d)" "valid d x"
  shows "\<exists>b. parents_descend d ps (Perm x) = Some b \<and>
    (\<not> b \<longrightarrow> (\<forall>p \<in> set (linked_parents ps). (p, x) \<notin> (family.up (objects d))\<^sup>*))"
proof (cases ps)
  case (POne p)
  then show ?thesis using is_a_descendant_iff [OF assms, of p] by (simp add: parents_descend_def linked_parents_simps)
next
  case (PMany qs)
  have "all_opt (\<lambda>this. map_option Not (is_a_descendant d this (Perm x))) qs =
      Some (\<forall>q \<in> set qs. (q, x) \<notin> (family.up (objects d))\<^sup>*)"
    by (rule all_opt_Some) (simp add: is_a_descendant_iff [OF assms])
  then show ?thesis using PMany by (simp add: parents_descend_def any_are_descendants_def linked_parents_simps)
qed

lemma parents_exist_valid: "parents_exist d ps \<Longrightarrow> p \<in> set (linked_parents ps) \<Longrightarrow> valid d p"
  by (cases ps) (auto simp: parents_exist_def all_valid_def list_all_iff linked_parents_simps split: if_splits)

section \<open>Partial correctness of state passing\<close>

text \<open>If the operation returns from a state with the precondition, the postcondition holds.\<close>

definition hoare :: "(db \<Rightarrow> bool) \<Rightarrow> (db \<Rightarrow> ('a \<times> db) option) \<Rightarrow> ('a \<Rightarrow> db \<Rightarrow> bool) \<Rightarrow> bool" where
  "hoare P m Q \<longleftrightarrow> (\<forall>d x d'. P d \<longrightarrow> m d = Some (x, d') \<longrightarrow> Q x d')"

lemma hoareI: "(\<And>d x d'. P d \<Longrightarrow> m d = Some (x, d') \<Longrightarrow> Q x d') \<Longrightarrow> hoare P m Q"
  by (simp add: hoare_def)

lemma hoareD: "hoare P m Q \<Longrightarrow> P d \<Longrightarrow> m d = Some (x, d') \<Longrightarrow> Q x d'"
  by (simp add: hoare_def)

lemma hoare_sbind: "hoare P m R \<Longrightarrow> (\<And>x. hoare (R x) (f x) Q) \<Longrightarrow> hoare P (sbind m f) Q"
  by (auto simp: hoare_def sbind_def split: option.splits)

lemma hoare_get: "(\<And>x. hoare (\<lambda>d. P d \<and> f d = Some x) (g x) Q) \<Longrightarrow> hoare P (sbind (sget f) g) Q"
  by (auto simp: hoare_def sbind_def sget_def split: option.splits)

lemma hoare_modify: "(\<And>d d'. P d \<Longrightarrow> f d = Some d' \<Longrightarrow> R d') \<Longrightarrow> hoare R (g ()) Q \<Longrightarrow> hoare P (sbind (smodify f) g) Q"
  by (fastforce simp: hoare_def sbind_def smodify_def split: option.splits)

lemma hoare_return: "(\<And>d. P d \<Longrightarrow> Q x d) \<Longrightarrow> hoare P (sreturn x) Q"
  by (auto simp: hoare_def sreturn_def)

lemma hoare_sget: "(\<And>d x. P d \<Longrightarrow> f d = Some x \<Longrightarrow> Q x d) \<Longrightarrow> hoare P (sget f) Q"
  by (auto simp: hoare_def sget_def)

lemma hoare_fail: "hoare P (\<lambda>_. None) Q"
  by (simp add: hoare_def)

lemma hoare_if: "(b \<Longrightarrow> hoare P m Q) \<Longrightarrow> (\<not> b \<Longrightarrow> hoare P m' Q) \<Longrightarrow> hoare P (if b then m else m') Q"
  by simp

lemma hoare_option: "hoare P m Q \<Longrightarrow> (\<And>x. v = Some x \<Longrightarrow> hoare P (f x) Q) \<Longrightarrow> hoare P (case v of None \<Rightarrow> m | Some x \<Rightarrow> f x) Q"
  by (simp split: option.split)

lemma hoare_pre: "hoare P' m Q \<Longrightarrow> (\<And>d. P d \<Longrightarrow> P' d) \<Longrightarrow> hoare P m Q"
  by (auto simp: hoare_def)

lemma hoare_args:
  "(\<And>v. args = [v] \<Longrightarrow> hoare P (f v) Q) \<Longrightarrow> hoare P (case args of [v] \<Rightarrow> f v | _ \<Rightarrow> (\<lambda>_. None)) Q"
  "(\<And>v w. args = [v, w] \<Longrightarrow> hoare P (g v w) Q) \<Longrightarrow> hoare P (case args of [v, w] \<Rightarrow> g v w | _ \<Rightarrow> (\<lambda>_. None)) Q"
  "(\<And>v vs. args = v # vs \<Longrightarrow> hoare P (h v vs) Q) \<Longrightarrow> hoare P (case args of [] \<Rightarrow> (\<lambda>_. None) | v # vs \<Rightarrow> h v vs) Q"
  by (simp_all add: hoare_fail split: list.split)

lemmas hoare_rules = hoare_get hoare_if hoare_option hoare_args hoare_fail

lemma hoare_is_valid_var:
  "hoare good (is_valid_var v) (\<lambda>ok d. good d \<and> (\<forall>x. ok \<and> v = VOBJ x \<longrightarrow> valid d x))"
  "hoare (\<lambda>d. good d \<and> objects d = objs) (is_valid_var v)
     (\<lambda>ok d. good d \<and> objects d = objs \<and> (\<forall>x. ok \<and> v = VOBJ x \<longrightarrow> valid d x))"
proof -
  have "good d' \<and> objects d' = objects d \<and> (\<forall>x. ok \<and> v = VOBJ x \<longrightarrow> valid d' x)"
    if "good d" "is_valid_var v d = Some (ok, d')" for d ok d'
    using is_valid_var_shape [of v d] that good_same_shape [OF _ that(1)] by (auto simp: is_valid_var_def valid_find)
  then show "hoare good (is_valid_var v) (\<lambda>ok d. good d \<and> (\<forall>x. ok \<and> v = VOBJ x \<longrightarrow> valid d x))"
    "hoare (\<lambda>d. good d \<and> objects d = objs) (is_valid_var v)
      (\<lambda>ok d. good d \<and> objects d = objs \<and> (\<forall>x. ok \<and> v = VOBJ x \<longrightarrow> valid d x))"
    by (blast intro: hoareI)+
qed

lemma oref_of_Perm: "oref_of v = Some (Perm x) \<longleftrightarrow> v = VOBJ x"
  by (auto simp: oref_of_def split: var.splits option.splits)

lemma chparent_good:
  "hoare (\<lambda>d. good d \<and> objects d = objs) (bf_chparent_chparents args progr)
     (\<lambda>p d. good d \<and> (p \<noteq> no_var_pack \<longrightarrow> objects d = objs))"
proof -
  have change: "hoare (\<lambda>d. good d \<and> objects d = objs \<and> parents_exist d ps \<and> parents_descend d ps r = Some False \<and>
        (\<forall>x. r = Perm x \<longrightarrow> valid d x))
      (db_change_parents r ps None) (\<lambda>b d. good d \<and> (\<not> b \<longrightarrow> objects d = objs))" for r ps
  proof (rule hoareI, elim conjE)
    fix d b d'
    assume g: "good d" and o: "objects d = objs" and ex: "parents_exist d ps" and desc: "parents_descend d ps r = Some False"
      and v: "\<forall>x. r = Perm x \<longrightarrow> valid d x" and run: "db_change_parents r ps None d = Some (b, d')"
    have "good d'"
    proof (cases r)
      case (Perm x)
      have ord: "family.ordered (objects d)" using g by (simp add: good_def db_ok_def)
      show ?thesis
        by (rule change_parents_good(1) [OF g run [unfolded Perm]])
          (use parents_exist_valid [OF ex] parents_descend_iff [OF ord, of x ps] v desc Perm in auto)
    next
      case (Anon a)
      show ?thesis by (rule change_parents_anon_good(1) [OF g run [unfolded Anon]])
    qed
    then show "good d' \<and> (\<not> b \<longrightarrow> objects d' = objs)" using db_change_parents_refused [of r ps None d d'] run o by (cases b) auto
  qed
  show ?thesis unfolding bf_chparent_chparents_def
    by (intro hoare_rules hoare_sbind [OF hoare_is_valid_var(2)]
        hoare_sbind [OF hoare_pre [OF change]] hoare_return) (auto simp: oref_of_Perm)
qed

section \<open>Creating\<close>

lemma db_create_object_frame:
  "db_create_object clm mem want anon d = (oid, d') \<Longrightarrow>
   vc_table d' = vc_table d \<and> anon_store d' = anon_store d \<and> anonymous_objects d' = anonymous_objects d"
  by (auto simp: db_create_object_def dbpriv_new_object_def ensure_new_object_def DbObjects.extend_def Let_def upd_obj_fields split: if_splits)

text \<open>An object without links and verbs, as a new one is.\<close>

definition bare :: "objid \<Rightarrow> db \<Rightarrow> bool" where
  "bare x d \<longleftrightarrow> (\<exists>ob. find_in (objects d) x = Some ob \<and> o_parents ob = POne NOTHING \<and> o_children ob = [] \<and>
     o_location ob = NOTHING \<and> o_contents ob = [] \<and> o_verbdefs ob = [])"

lemma create_good:
  assumes g: "good d" and free: "\<not> valid d (new_slot want d)" and run: "db_create_object clm mem want anon d = (oid, d')"
  shows "good d'" "bare oid d'" "oid = new_slot want d"
    "\<And>q. q \<noteq> oid \<Longrightarrow> find_in (objects d') q = find_in (objects d) q"
proof -
  have sz: "sized d" and ok: "db_ok d" using g by (simp_all add: good_def)
  note C = db_create_object_eq [OF sz run] and F = db_create_object_frame [OF run]
  show "oid = new_slot want d" by (rule C(1))
  show eq: "find_in (objects d') q = find_in (objects d) q" if "q \<noteq> oid" for q using C(2) [of q] that by simp
  show "bare oid d'" by (simp add: bare_def C(2) db_init_object_def fresh_object_def)
  have "vc_ok d'"
    by (rule vc_ok_apart [of d oid]) (use g free eq F C(1) in \<open>auto simp: good_def db_ok_def valid_find\<close>)
  then show "good d'" using create_ok [OF ok sz free run] C(4) F g by (simp add: good_def anon_plain_def)
qed

lemma bare_alone:
  assumes "good d" "bare x d" "p \<noteq> x"
  shows "(p, x) \<notin> (family.up (objects d))\<^sup>*"
proof
  assume "(p, x) \<in> (family.up (objects d))\<^sup>*"
  with assms(3) obtain c where "(c, x) \<in> family.up (objects d)" by (metis rtranclE)
  moreover have "family.linked (objects d)" using assms(1) by (simp add: good_def db_ok_def family.ordered_def)
  ultimately show False using assms(2) unfolding family.linked_def bare_def by fastforce
qed

lemma bare_same_shape:
  assumes "same_shape d d'" "bare x d"
  shows "bare x d'"
  using shape_read [of d' d "\<lambda>(i, ps, cs, l, ct, vs). (ps, cs, l, ct, vs)" x] assms
  by (cases "find_in (objects d') x") (auto simp: bare_def skeleton_def same_shape_def)

lemma set_owner_same_shape: "same_shape d (db_set_object_owner x owner d)"
  using same_shape_upd_ref [of "\<lambda>ob. ob\<lparr>o_owner := owner\<rparr>" d "Perm x"] by (simp add: db_set_object_owner_def)

lemma destroy_good:
  assumes g: "good d" and run: "db_destroy_object x d = Some d'"
  shows "good d'"
proof -
  have "vc_table d' = vc_table (db_priv_affected_callable_verb_lookup d)"
    and a: "anon_store d' = anon_store d"
    using run by (auto simp: db_destroy_object_def Let_def db_priv_affected_callable_verb_lookup_def split: option.splits if_splits)
  then have "vc_ok d'" using vc_empty_flush vc_empty_cong vc_empty_ok by blast
  then show ?thesis using destroy_ok(1) [OF _ run] g a by (simp add: good_def anon_plain_def)
qed

lemma set_last_bound:
  "set_last objs oid n = Some m \<Longrightarrow> m \<le> n \<and> (\<forall>i. m \<le> i \<and> i < n \<longrightarrow> objs ! i = None)"
proof (induction n)
  case (Suc n)
  then show ?case by (auto split: if_splits simp: less_Suc_eq)
qed simp

lemma set_last_good:
  assumes g: "good d" and run: "db_set_last_used_objid oid d = Some d'"
  shows "good d'" "objects d' = objects d"
proof -
  obtain n where n: "set_last (objects d) oid (nat (num_objects d)) = Some n" "d' = d\<lparr>num_objects := int n\<rparr>"
    using run by (auto simp: db_set_last_used_objid_def)
  show o: "objects d' = objects d" by (simp add: n)
  have "find_in (objects d) i = None" if "int n \<le> i" for i
  proof (cases "i < num_objects d")
    case True
    then show ?thesis using set_last_bound [OF n(1)] that by (auto simp: find_in_def)
  qed (use g in \<open>auto simp: good_def sized_def\<close>)
  then have "sized d'" using g set_last_bound [OF n(1)] by (auto simp: good_def sized_def n(2))
  moreover have "db_ok d'" using g db_ok_same_objects [of d' d] by (simp add: n good_def)
  moreover have "vc_ok d'"
    by (rule vc_ok_agree [of d]) (use g in \<open>auto simp: good_def db_ok_def n\<close>)
  ultimately show "good d'" using g by (simp add: good_def n anon_plain_def)
qed

lemma hoare_call_verb:
  "c_string vname \<Longrightarrow> hoare good (call_verb env recv vname this args) (\<lambda>_. good)"
  using call_verb_good by (intro hoareI) (metis option.inject prod.inject)

lemma initialize_good: "hoare good (initialize env oid r args) (\<lambda>_. good)"
  unfolding initialize_def by (intro hoare_sbind [OF hoare_call_verb] hoare_return c_string_names)

lemma new_parents_ok:
  assumes "good d" "bare x d" "\<forall>p \<in> set (linked_parents ps). valid d p \<and> p \<noteq> x"
  shows "\<forall>p \<in> set (linked_parents ps). valid d p \<and> (p, x) \<notin> (family.up (objects d))\<^sup>*"
  using bare_alone [OF assms(1,2)] assms(3) by blast

text \<open>
  What holds after the slot of a new object has been taken: it is bare, and the parents asked
  for exist and are others.
\<close>

definition ready :: "objid \<Rightarrow> parents \<Rightarrow> db \<Rightarrow> bool" where
  "ready x ps d \<longleftrightarrow> good d \<and> bare x d \<and> (\<forall>p \<in> set (linked_parents ps). valid d p \<and> p \<noteq> x)"

lemma ready_create:
  assumes "good d" "\<not> valid d (new_slot want d)" "\<forall>p \<in> set (linked_parents ps). valid d p"
    "db_create_object clm mem want anon d = (oid, d')"
  shows "ready oid ps d'"
proof -
  note C = create_good [OF assms(1,2,4)]
  have "valid d' p \<and> p \<noteq> oid" if "p \<in> set (linked_parents ps)" for p
  proof -
    have p: "valid d p" using assms(3) that by blast
    then have "p \<noteq> oid" using assms(2) C(3) by auto
    with C(4) [of p] p show ?thesis by (simp add: valid_find)
  qed
  with C show ?thesis by (simp add: ready_def)
qed

lemma ready_good: "ready x ps d \<Longrightarrow> good d"
  by (simp add: ready_def)

lemma ready_owner: "ready x ps d \<Longrightarrow> ready x ps (db_set_object_owner y owner d)"
  using good_same_shape [OF set_owner_same_shape] bare_same_shape [OF set_owner_same_shape]
    valid_same_shape [of "db_set_object_owner y owner d" d] set_owner_same_shape [of d y owner]
  by (auto simp: ready_def same_shape_def)

lemma change_parents_new:
  "hoare (ready x ps) (db_change_parents (Perm x) ps None) (\<lambda>b d. good d \<and> (\<not> b \<longrightarrow> ready x ps d))"
proof (rule hoareI)
  fix d b d' assume r: "ready x ps d" and run: "db_change_parents (Perm x) ps None d = Some (b, d')"
  have "good d'"
    using change_parents_good(1) [OF _ run] new_parents_ok [of d x ps] r by (auto simp: ready_def)
  then show "good d' \<and> (\<not> b \<longrightarrow> ready x ps d')"
    using db_change_parents_refused [of "Perm x" ps None d d'] run r by (cases b) auto
qed

lemma change_or_undo:
  assumes "hoare (ready x ps) undo (\<lambda>_. good)" "hoare good go (\<lambda>_. good)"
  shows "hoare (ready x ps) (sbind (db_change_parents (Perm x) ps None) (\<lambda>changed. if \<not> changed then undo else go)) (\<lambda>_. good)"
  by (rule hoare_sbind [OF change_parents_new], rule hoare_if)
    (auto intro: hoare_pre [OF assms(1)] hoare_pre [OF assms(2)])

lemma destroy_new: "hoare (ready x ps) (sbind (smodify (db_destroy_object x)) (\<lambda>_. sreturn r)) (\<lambda>_. good)"
  by (rule hoare_modify [where R = good]) (auto intro: hoare_return dest: destroy_good ready_good)

lemma recreate_object_good:
  "hoare (\<lambda>d. good d \<and> \<not> valid d (new_slot old d) \<and> (\<forall>p \<in> set (linked_parents (POne parent)). valid d p))
     (recreate_object env old parent owner) (\<lambda>_. good)"
proof -
  have create: "hoare (\<lambda>d. good d \<and> \<not> valid d (new_slot old d) \<and> (\<forall>p \<in> set (linked_parents (POne parent)). valid d p))
      (\<lambda>d. Some (db_create_object (e_clear_last_move env) (e_mem env) old False d)) (\<lambda>oid. ready oid (POne parent))"
    by (rule hoareI) (auto intro: ready_create)
  show ?thesis unfolding recreate_object_def
  proof (rule hoare_sbind [OF create])
    fix oid
    show "hoare (ready oid (POne parent))
        (sbind (smodify (\<lambda>d. Some (db_set_object_owner oid (if valid d owner then owner else oid) d))) (\<lambda>_.
         sbind (db_change_parents (Perm oid) (POne parent) None) (\<lambda>changed.
           if \<not> changed then sbind (smodify (db_destroy_object oid)) (\<lambda>_. sreturn (BI_RAISE E_INVARG))
           else initialize env oid (VOBJ oid) []))) (\<lambda>_. good)"
      by (rule hoare_modify [OF _ change_or_undo [OF destroy_new initialize_good]]) (auto intro: ready_owner)
  qed
qed

lemma recreate_good:
  "hoare (\<lambda>d. good d \<and> (\<forall>old parent owner. recreate_args args = Some (old, parent, owner) \<longrightarrow> parent = NOTHING \<or> valid d parent))
     (bf_recreate env args next vdata progr) (\<lambda>_. good)"
  unfolding bf_recreate_def bf_recreate_start_def
  by (auto intro!: hoare_rules hoare_return hoare_pre [OF recreate_object_good]
      simp: Let_def linked_parents_simps new_slot_def db_last_used_objid_def split: option.split if_splits)

text \<open>
  An anonymous object is made in a free slot of the table. Its parents are set through its
  reference, and the slot is emptied again.
\<close>

lemma slot_emptied:
  assumes g: "good d" and b: "bare x d" and o: "objects d' = (objects d)[nat x := None]"
    and f: "num_objects d' = num_objects d" "array_size d' = array_size d" "ancestor_cache d' = ancestor_cache d"
      "vc_table d' = vc_table d" and a: "anon_plain d'"
  shows "good d'"
proof -
  obtain ob where ob: "find_in (objects d) x = Some ob" "o_parents ob = POne NOTHING" "o_children ob = []"
    "o_location ob = NOTHING" "o_contents ob = []" "o_verbdefs ob = []" using b by (auto simp: bare_def)
  have find: "find_in (objects d') q = (if q = x then None else find_in (objects d) q)" for q
    using find_in_update [of x "objects d" None q] find_in_range [OF ob(1)] by (simp add: o)
  have "db_ok d'"
    by (rule db_ok_isolated [of d x])
      (use g ob find f in \<open>auto simp: good_def family.isolated_def places.isolated_def linked_parents_simps\<close>)
  moreover have "vc_ok d'"
    by (rule vc_ok_apart [of d x]) (use g ob find f in \<open>auto simp: good_def db_ok_def\<close>)
  moreover have "sized d'" using g find f by (auto simp: good_def sized_def o)
  ultimately show ?thesis using a by (simp add: good_def)
qed

lemma good_anon:
  assumes g: "good d" and o: "objects d' = objects d" "num_objects d' = num_objects d" "array_size d' = array_size d"
    "ancestor_cache d' = ancestor_cache d" "vc_table d' = vc_table d" and a: "anon_plain d'"
  shows "good d'"
proof -
  have "vc_ok d'" by (rule vc_ok_agree [of d]) (use g o in \<open>auto simp: good_def db_ok_def\<close>)
  then show ?thesis using g o a db_ok_same_objects [of d' d] sized_same [of d' d] by (simp add: good_def)
qed

lemma anon_map_fields:
  "objects (dbpriv_remove_anon p a d) = objects d" "num_objects (dbpriv_remove_anon p a d) = num_objects d"
  "array_size (dbpriv_remove_anon p a d) = array_size d" "ancestor_cache (dbpriv_remove_anon p a d) = ancestor_cache d"
  "vc_table (dbpriv_remove_anon p a d) = vc_table d" "anon_store (dbpriv_remove_anon p a d) = anon_store d"
  by (simp_all add: dbpriv_remove_anon_def Let_def split: option.split)

lemma fold_remove_anon:
  "objects (fold (\<lambda>x. dbpriv_remove_anon x a) xs d) = objects d"
  "num_objects (fold (\<lambda>x. dbpriv_remove_anon x a) xs d) = num_objects d"
  "array_size (fold (\<lambda>x. dbpriv_remove_anon x a) xs d) = array_size d"
  "ancestor_cache (fold (\<lambda>x. dbpriv_remove_anon x a) xs d) = ancestor_cache d"
  "vc_table (fold (\<lambda>x. dbpriv_remove_anon x a) xs d) = vc_table d"
  "anon_store (fold (\<lambda>x. dbpriv_remove_anon x a) xs d) = anon_store d"
  by (induction xs arbitrary: d) (simp_all add: anon_map_fields)

lemma destroy_anonymous_fields:
  assumes run: "db_destroy_anonymous_object a d = Some d'"
  shows "objects d' = objects d" "num_objects d' = num_objects d" "array_size d' = array_size d"
    "ancestor_cache d' = ancestor_cache d" "vc_table d' = vc_table d"
    "\<exists>oa. anon_store d' = (anon_store d)(a := Some oa) \<and> o_verbdefs oa = []"
  using run
  by (auto simp: db_destroy_anonymous_object_def Let_def anon_map_fields fold_remove_anon set_flag_def
      split: option.splits parents.splits if_splits)

lemma anon_plain_upd:
  "anon_plain d \<Longrightarrow> anon_store d' = (anon_store d)(a := v) \<Longrightarrow> (\<And>oa. v = Some oa \<Longrightarrow> o_verbdefs oa = []) \<Longrightarrow> anon_plain d'"
  by (auto simp: anon_plain_def split: if_splits)

lemma destroy_anonymous_good:
  assumes g: "good d" and run: "db_destroy_anonymous_object a d = Some d'"
  shows "good d'"
proof -
  note F = destroy_anonymous_fields [OF run]
  then obtain oa where "anon_store d' = (anon_store d)(a := Some oa)" "o_verbdefs oa = []" by blast
  then have "anon_plain d'" using g anon_plain_upd [of d d' a "Some oa"] by (simp add: good_def)
  then show ?thesis by (rule good_anon [OF g F(1-5)])
qed

text \<open>The slot holds an object that is on its way out of the table.\<close>

definition parked :: "objid \<Rightarrow> db \<Rightarrow> bool" where
  "parked x d \<longleftrightarrow> (\<exists>d1 o1. good d1 \<and> bare x d1 \<and> o_verbdefs o1 = [] \<and> d = upd_obj x (\<lambda>_. o1) d1)"

lemma parked_cleared:
  assumes p: "parked x d" and o: "objects d' = (objects d)[nat x := None]"
    and f: "num_objects d' = num_objects d" "array_size d' = array_size d" "ancestor_cache d' = ancestor_cache d"
      "vc_table d' = vc_table d" and a: "anon_plain d \<Longrightarrow> anon_plain d'"
  shows "good d'"
proof -
  obtain d1 o1 where d1: "good d1" "bare x d1" "d = upd_obj x (\<lambda>_. o1) d1" using p by (auto simp: parked_def)
  have "objects d' = (objects d1)[nat x := None]"
    by (simp add: o d1(3) upd_obj_def split: option.split)
  moreover have "anon_plain d" using d1 by (simp add: good_def anon_plain_def upd_obj_fields)
  ultimately show ?thesis by (intro slot_emptied [OF d1(1,2)]) (use f d1(3) a in \<open>simp_all add: upd_obj_fields\<close>)
qed

lemma parked_slot: "parked x d \<Longrightarrow> \<exists>o1. dbpriv_find_object d x = Some o1 \<and> o_verbdefs o1 = []"
  using find_upd_obj [of x] by (fastforce simp: parked_def bare_def dbpriv_find_object_def)

lemma make_anonymous_good:
  assumes p: "parked x d" and run: "db_make_anonymous a x last0 d = Some d'"
  shows "good d'"
proof -
  obtain o1 where o1: "dbpriv_find_object d x = Some o1" "o_verbdefs o1 = []" using parked_slot [OF p] by blast
  then obtain d1 where d1: "db_set_last_used_objid last0 (d\<lparr>objects := (objects d)[nat x := None]\<rparr>) = Some d1"
    and d': "d' = d1\<lparr>anon_store := (anon_store d1)(a := Some (o1\<lparr>o_id := NOTHING\<rparr>))\<rparr>"
    using run by (auto simp: db_make_anonymous_def)
  have "good (d\<lparr>objects := (objects d)[nat x := None]\<rparr>)"
    by (rule parked_cleared [OF p]) (simp_all add: anon_plain_def)
  from set_last_good(1) [OF this d1] have g1: "good d1" .
  show ?thesis
    by (rule good_anon [OF g1]) (use g1 o1 in \<open>auto simp: d' good_def anon_plain_def\<close>)
qed

lemma cleanup_good:
  assumes p: "parked x d" and run: "dbpriv_cleanup_failed_anonymous_create a x d = Some d'"
  shows "good d'"
proof -
  obtain o1 where o1: "dbpriv_find_object d x = Some o1" "o_verbdefs o1 = []" using parked_slot [OF p] by blast
  let ?d0 = "d\<lparr>objects := (objects d)[nat x := None], anon_store := (anon_store d)(a := Some o1)\<rparr>"
  obtain d1 where d1: "db_destroy_anonymous_object a ?d0 = Some d1" "d' = d1\<lparr>anon_store := (anon_store d1)(a := None)\<rparr>"
    using run o1(1) by (auto simp: dbpriv_cleanup_failed_anonymous_create_def)
  have "good ?d0" by (rule parked_cleared [OF p]) (use o1 in \<open>auto simp: anon_plain_def\<close>)
  then have g1: "good d1" using destroy_anonymous_good d1(1) by blast
  show ?thesis by (rule good_anon [OF g1]) (use g1 in \<open>auto simp: d1(2) good_def anon_plain_def\<close>)
qed

lemma create_parents_anon:
  "hoare (ready x ps) (create_parents env x True ps) (\<lambda>_. parked x)"
proof (rule hoareI)
  fix d b d' assume r: "ready x ps d" and run: "create_parents env x True ps d = Some (b, d')"
  let ?a = "e_anon env"
  obtain ob where ob: "dbpriv_find_object d x = Some ob" "o_verbdefs ob = []"
    using r by (auto simp: ready_def bare_def dbpriv_find_object_def)
  let ?d0 = "d\<lparr>anon_store := (anon_store d)(?a := Some ob)\<rparr>"
  obtain d1 where d1: "db_change_parents (Anon ?a) ps None ?d0 = Some (b, d1)"
    and d': "d' = upd_obj x (\<lambda>o0. case anon_store d1 ?a of None \<Rightarrow> o0 | Some o1 \<Rightarrow> o1) d1"
    using run ob(1) by (auto simp: create_parents_def Let_def)
  have g0: "good ?d0" by (rule good_anon [of d]) (use r ob in \<open>auto simp: ready_def good_def anon_plain_def\<close>)
  note C = change_parents_anon_good [OF g0 d1]
  have "map_option o_verbdefs (anon_store d1 ?a) = Some []"
    using C(2) ob(2) by (simp add: calm_def same_size_def)
  then obtain o1 where o1: "anon_store d1 ?a = Some o1" "o_verbdefs o1 = []" by auto
  have "bare x ?d0" using r by (simp add: ready_def bare_def)
  moreover have "map_option (\<lambda>ob. (o_parents ob, o_children ob, o_location ob, o_contents ob, o_verbdefs ob)) (find_in (objects d1) x) =
      map_option (\<lambda>ob. (o_parents ob, o_children ob, o_location ob, o_contents ob, o_verbdefs ob)) (find_in (objects ?d0) x)"
    using shape_read [of d1 ?d0 "\<lambda>(i, ps, cs, l, ct, vs). (ps, cs, l, ct, vs)" x] C(2) by (simp add: calm_def skeleton_def)
  ultimately have "bare x d1" by (cases "find_in (objects d1) x") (auto simp: bare_def)
  with C(1) o1 show "parked x d'" by (auto simp: parked_def d')
qed

lemma create_object_good:
  "hoare (\<lambda>d. good d \<and> (\<forall>p \<in> set (linked_parents ps). valid d p)) (create_object env ps owner anonymous args) (\<lambda>_. good)"
proof -
  have create: "hoare (\<lambda>d. (good d \<and> (\<forall>p \<in> set (linked_parents ps). valid d p)) \<and> Some (db_last_used_objid d) = Some lst)
      (\<lambda>d. Some (db_create_object (e_clear_last_move env) (e_mem env) (- 1) anonymous d)) (\<lambda>oid. ready oid ps)" for lst
  proof (rule hoareI)
    fix d x d' assume d: "(good d \<and> (\<forall>p \<in> set (linked_parents ps). valid d p)) \<and> Some (db_last_used_objid d) = Some lst"
      and run: "Some (db_create_object (e_clear_last_move env) (e_mem env) (- 1) anonymous d) = Some (x, d')"
    have "\<not> valid d (new_slot (- 1) d)" using d by (auto simp: new_slot_def good_def sized_def valid_find)
    with d run show "ready x ps d'" by (auto intro: ready_create)
  qed
  have undo: "hoare Q (sbind (smodify f) (\<lambda>_. sbind (smodify (db_set_last_used_objid lst)) (\<lambda>_. sreturn r))) (\<lambda>_. good)"
    if "\<And>d d'. Q d \<Longrightarrow> f d = Some d' \<Longrightarrow> good d'" for Q f lst and r :: "var package"
    by (rule hoare_modify [where R = good, OF that], assumption, assumption,
        rule hoare_modify [where R = good]) (auto intro: hoare_return dest: set_last_good)
  have rest: "hoare (ready oid ps)
      (sbind (create_parents env oid anonymous ps) (\<lambda>changed.
       if \<not> changed then
         sbind (smodify (if anonymous then dbpriv_cleanup_failed_anonymous_create (e_anon env) oid
                         else db_destroy_object oid)) (\<lambda>_.
         sbind (smodify (db_set_last_used_objid lst)) (\<lambda>_. sreturn (BI_RAISE E_INVARG)))
       else
         sbind (smodify (if anonymous then db_make_anonymous (e_anon env) oid lst else Some)) (\<lambda>_.
           initialize env oid (if anonymous then VANON (Some (e_anon env)) else VOBJ oid) args))) (\<lambda>_. good)" for oid lst
  proof (cases anonymous)
    case True
    have A: "hoare (ready oid ps) (create_parents env oid anonymous ps) (\<lambda>_. parked oid)"
      using create_parents_anon True by simp
    show ?thesis unfolding if_P [OF True]
      by (intro hoare_sbind [OF A] hoare_if undo hoare_modify [OF _ initialize_good])
        (auto intro: cleanup_good make_anonymous_good)
  next
    case False
    then have *: "create_parents env oid anonymous ps = db_change_parents (Perm oid) ps None"
      by (simp add: create_parents_def fun_eq_iff)
    show ?thesis unfolding if_not_P [OF False] *
      by (intro change_or_undo undo hoare_modify [OF _ initialize_good]) (auto dest: destroy_good ready_good)
  qed
  show ?thesis unfolding create_object_def
    by (rule hoare_get, rule hoare_sbind [OF create], rule hoare_modify [OF _ rest]) (auto intro: ready_owner)
qed

lemma create_good_step: "hoare good (bf_create env args next vdata progr) (\<lambda>_. good)"
  unfolding bf_create_def bf_create_start_def
  by (auto intro!: hoare_rules hoare_return hoare_pre [OF create_object_good]
      simp: Let_def create_invarg_def parents_exist_valid split: option.split list.split)

end
