(* ===== verification/Recycling.thy ===== *)
theory Recycling
  imports ObjectSteps
begin

text \<open>
  Recycling keeps the invariants, and with it every state that the object built-ins can
  reach from a database in good order.
\<close>

section \<open>Owners\<close>

lemma map_owners_fields:
  "o_id (map_owners f ob) = o_id ob" "o_parents (map_owners f ob) = o_parents ob"
  "o_children (map_owners f ob) = o_children ob" "o_location (map_owners f ob) = o_location ob"
  "o_contents (map_owners f ob) = o_contents ob"
  "map vname_perms (o_verbdefs (map_owners f ob)) = map vname_perms (o_verbdefs ob)"
  by (simp_all add: map_owners_def vname_perms_def)

lemma on_table_fields:
  "length (objects (on_table f d)) = length (objects d)" "num_objects (on_table f d) = num_objects d"
  "array_size (on_table f d) = array_size d" "ancestor_cache (on_table f d) = ancestor_cache d"
  "vc_table (on_table f d) = vc_table d" "anon_store (on_table f d) = anon_store d"
  by (simp_all add: on_table_def)

lemma on_table_read:
  assumes "\<And>ob. g (f ob) = g ob"
  shows "map_option g (find_in (objects (on_table f d)) q) = map_option g (find_in (objects d) q)"
proof -
  have "map_option g (map_option f v) = map_option g v" for v using assms by (cases v) auto
  then show ?thesis by (auto simp: on_table_def find_in_def)
qed

lemma fold_upd_anon:
  "objects (fold (\<lambda>a. upd_ref (Anon a) f) as d) = objects d"
  "num_objects (fold (\<lambda>a. upd_ref (Anon a) f) as d) = num_objects d"
  "array_size (fold (\<lambda>a. upd_ref (Anon a) f) as d) = array_size d"
  "ancestor_cache (fold (\<lambda>a. upd_ref (Anon a) f) as d) = ancestor_cache d"
  "vc_table (fold (\<lambda>a. upd_ref (Anon a) f) as d) = vc_table d"
  by (induction as arbitrary: d) (simp_all split: option.split)

lemma anon_plain_fold:
  "(\<And>ob. o_verbdefs ob = [] \<Longrightarrow> o_verbdefs (f ob) = []) \<Longrightarrow> anon_plain d \<Longrightarrow> anon_plain (fold (\<lambda>a. upd_ref (Anon a) f) as d)"
proof (induction as arbitrary: d)
  case (Cons a as)
  have "anon_plain (upd_ref (Anon a) f d)"
    using Cons(2,3) by (simp add: anon_plain_def split: option.split)
  from Cons(1) [OF Cons(2) this] show ?case by simp
qed simp

lemma fixup_good:
  assumes g: "good d"
  shows "good (db_fixup_owners x d)"
proof -
  let ?f = "do_fixup_owners x" and ?d = "on_table (do_fixup_owners x) d"
  have r: "map_option (\<lambda>ob. h (o_id ob) (o_parents ob) (o_children ob) (o_location ob) (o_contents ob) (map vname_perms (o_verbdefs ob)))
      (find_in (objects ?d) q) =
    map_option (\<lambda>ob. h (o_id ob) (o_parents ob) (o_children ob) (o_location ob) (o_contents ob) (map vname_perms (o_verbdefs ob)))
      (find_in (objects d) q)" for h :: "_ \<Rightarrow> _ \<Rightarrow> _ \<Rightarrow> _ \<Rightarrow> _ \<Rightarrow> _ \<Rightarrow> 'a" and q
    by (rule on_table_read) (simp add: do_fixup_owners_def map_owners_fields)
  have pl: "places.ordered (objects ?d) = places.ordered (objects d)"
    by (rule places.ordered_cong(3)) (rule r [of "\<lambda>i ps cs l ct vs. (if l = NOTHING then [] else [l], ct)"])
  have "db_ok ?d"
    by (rule db_ok_places [of d])
      (use g pl r [of "\<lambda>i ps cs l ct vs. (i, ps, cs)"] in \<open>auto simp: good_def db_ok_def on_table_fields\<close>)
  moreover have "vc_ok ?d"
    by (rule vc_ok_apart_names [of d NOTHING])
      (use g r [of "\<lambda>i ps cs l ct vs. (ps, vs)"] in \<open>auto simp: good_def db_ok_def on_table_fields\<close>)
  moreover have "sized ?d"
    using g find_None_read [OF r [of "\<lambda>i ps cs l ct vs. ()"]] by (simp add: good_def sized_def on_table_fields)
  ultimately have gd: "good ?d" using g by (simp add: good_def anon_plain_def on_table_fields)
  have "anon_plain (db_fixup_owners x d)"
    unfolding db_fixup_owners_def
    by (rule anon_plain_fold) (use gd in \<open>auto simp: good_def do_fixup_owners_def map_owners_def\<close>)
  then show ?thesis by (intro good_anon [OF gd]) (simp_all add: db_fixup_owners_def fold_upd_anon)
qed

section \<open>Contents\<close>

lemma move_to_nothing_good: "hoare good (move_to_nothing env x) (\<lambda>_. good)"
proof -
  have "good d'" if "good d \<and> db_object_location d x = Some l" "move_object env x NOTHING 0 d = Some d'" for d d' l
    using that move_object_good(1) [of d x NOTHING env 0 d'] by (auto simp: db_object_location_def valid_def)
  then show ?thesis unfolding move_to_nothing_def
    by (intro hoare_get hoare_modify [where R = good] hoare_sbind [OF hoare_call_verb] hoare_return c_string_names)
qed

lemma empty_contents_good: "hoare good (empty_contents env x) (\<lambda>_. good)"
proof -
  have "good d \<longrightarrow> good (snd p)" if "empty_contents env x d = Some p" for d p
    using that
  proof (rule empty_contents.raw_induct [where P = "\<lambda>env x d p. good d \<longrightarrow> good (snd p)", rotated])
    fix rec env x d p
    assume IH: "\<And>env x d p. rec env x d = Some p \<Longrightarrow> good d \<longrightarrow> good (snd p)"
      and run: "(case first_content d x of
        None \<Rightarrow> None
      | Some c \<Rightarrow>
          if c = NOTHING then Some (None, d)
          else (case move_to_nothing env c d of
                  None \<Rightarrow> None
                | Some (Some a, d1) \<Rightarrow> Some (Some a, d1)
                | Some (None, d1) \<Rightarrow> rec env x d1)) = Some p"
    show "good d \<longrightarrow> good (snd p)"
    proof
      assume g: "good d"
      have "good d1" if "move_to_nothing env c d = Some (r, d1)" for c r d1
        using hoareD [OF move_to_nothing_good g that] .
      then show "good (snd p)" using run IH g by (auto split: option.splits prod.splits if_splits)
    qed
  qed
  then show ?thesis by (fastforce intro: hoareI)
qed

section \<open>Children\<close>

lemma set_foldl_oset_add: "set (foldl oset_add xs ys) = set xs \<union> set ys"
  by (induction ys arbitrary: xs) (auto simp: oset_add_def)

lemma set_spliced: "set (spliced cp x ops) \<subseteq> set cp \<union> set ops"
proof -
  have "set (tl (dropWhile (\<lambda>y. y \<noteq> x) cp)) \<subseteq> set cp"
    using set_dropWhileD list.set_sel(2) by (metis subsetI tl_Nil)
  then show ?thesis by (auto simp: spliced_def set_foldl_oset_add dest: set_takeWhileD)
qed

lemma adopted_ok:
  assumes g: "good d" and x: "find_in (objects d) x = Some ox" "c \<in> set (o_children ox)" and c: "find_in (objects d) c = Some oc"
  shows "\<forall>p \<in> set (linked_parents (adopted d x (o_parents oc) (o_parents ox))). valid d p \<and> (p, c) \<notin> (family.up (objects d))\<^sup>*"
proof
  let ?up = "family.up (objects d)"
  have L: "family.linked (objects d)" and A: "acyclic ?up" using g by (auto simp: good_def db_ok_def family.ordered_def)
  have cx: "(c, x) \<in> ?up" using L x unfolding family.linked_def by blast
  fix p assume "p \<in> set (linked_parents (adopted d x (o_parents oc) (o_parents ox)))"
  then have "p \<in> set (up_parents oc) \<or> p \<in> set (up_parents ox)"
    using set_spliced by (fastforce simp: adopted_def linked_parents_simps valid_find split: parents.splits if_splits)
  then have "(c, p) \<in> ?up \<or> (x, p) \<in> ?up" using c x(1) by (auto simp: family_up_iff)
  then have "(c, p) \<in> ?up\<^sup>+ \<and> valid d p"
    using cx family_up_valid(2) [OF L] by (auto simp: valid_find intro: trancl_into_trancl)
  then show "valid d p \<and> (p, c) \<notin> ?up\<^sup>*"
    using A by (auto simp: acyclic_def dest: trancl_rtrancl_trancl)
qed

lemma release_children_good: "hoare good (release_children x) (\<lambda>_. good)"
proof -
  have step: "good d1"
    if g: "good d" and n: "db_next_child d x = Some (Some child)" and p: "db_object_parents2 d child = Some cp"
      "db_object_parents2 d (Perm x) = Some op" and run: "db_change_parents child (adopted d x cp op) None d = Some (b, d1)"
    for x d child cp op b d1
  proof (cases child)
    case (Perm c)
    obtain ox where ox: "find_in (objects d) x = Some ox" "o_parents ox = op"
      using p(2) by (auto simp: db_object_parents2_def dbpriv_find_object_def)
    then have "c \<in> set (o_children ox)"
      using n Perm by (auto simp: db_next_child_def dbpriv_find_object_def split: option.splits list.splits)
    moreover obtain oc where "find_in (objects d) c = Some oc" "o_parents oc = cp"
      using p(1) Perm by (auto simp: db_object_parents2_def dbpriv_find_object_def)
    ultimately show ?thesis
      using change_parents_good(1) [OF g run [unfolded Perm]] adopted_ok [OF g ox(1)] ox(2) by blast
  next
    case (Anon a)
    show ?thesis by (rule change_parents_anon_good(1) [OF g run [unfolded Anon]])
  qed
  have "good d \<longrightarrow> good (snd p)" if "release_children x d = Some p" for d p
    using that
  proof (rule release_children.raw_induct [where P = "\<lambda>x d p. good d \<longrightarrow> good (snd p)", rotated])
    fix rec x d p
    assume IH: "\<And>x d p. rec x d = Some p \<Longrightarrow> good d \<longrightarrow> good (snd p)"
      and run: "(case db_next_child d x of
        None \<Rightarrow> None
      | Some None \<Rightarrow> Some (True, d)
      | Some (Some child) \<Rightarrow>
          (case (db_object_parents2 d child, db_object_parents2 d (Perm x)) of
             (Some cp, Some op) \<Rightarrow>
               (case db_change_parents child (adopted d x cp op) None d of
                  None \<Rightarrow> None
                | Some (changed, d1) \<Rightarrow> if changed then rec x d1 else Some (False, d1))
           | _ \<Rightarrow> None)) = Some p"
    show "good d \<longrightarrow> good (snd p)"
    proof
      assume g: "good d"
      then show "good (snd p)" using run IH step [OF g] by (auto split: option.splits prod.splits if_splits)
    qed
  qed
  then show ?thesis by (fastforce intro: hoareI)
qed

section \<open>Recycling\<close>

lemma recycle_perm_good: "hoare good (recycle_perm env x) (\<lambda>_. good)"
proof -
  have orphan: "hoare good (db_change_parents (Perm x) (POne NOTHING) None) (\<lambda>_. good)"
    by (rule hoareI) (use change_parents_good(1) in \<open>auto simp: linked_parents_simps\<close>)
  show ?thesis unfolding recycle_perm_def
    by (intro hoare_sbind [OF empty_contents_good] hoare_option hoare_return hoare_get
        hoare_sbind [where R = "\<lambda>_. good"] hoare_if hoare_pre [OF move_to_nothing_good]
        hoare_sbind [OF release_children_good] hoare_sbind [OF orphan] hoare_modify [where R = good])
      (auto intro: fixup_good dest: destroy_good)
qed

lemma recycle_rest_good: "hoare good (recycle_rest env obj) (\<lambda>_. good)"
  unfolding recycle_rest_def
  by (intro hoare_sbind [OF hoare_is_valid_var(1)])
    (auto intro!: hoare_if hoare_return hoare_fail hoare_pre [OF recycle_perm_good]
      hoare_modify [where R = good] dest: destroy_anonymous_good split: option.split oref.split)

lemma recycle_good: "hoare good (bf_recycle env args func_pc vdata progr) (\<lambda>_. good)"
proof -
  have flag: "good (case r of Anon _ \<Rightarrow> upd_ref r (set_flag FLAG_RECYCLED) d | Perm _ \<Rightarrow> d)" if "good d" for r d
    using that good_same_shape [OF flag_same_shape] by (auto simp del: upd_ref.simps split: oref.split)
  have "hoare good (bf_recycle_start env obj progr) (\<lambda>_. good)" for obj
    unfolding bf_recycle_start_def
    by (intro hoare_rules hoare_return hoare_sbind [OF hoare_is_valid_var(1)] hoare_modify [where R = good]
        hoare_sbind [OF hoare_call_verb] c_string_names)
      (auto intro!: flag hoare_return recycle_rest_good split: sum.split)
  then show ?thesis unfolding bf_recycle_def
    by (intro hoare_if hoare_args hoare_fail recycle_rest_good)
qed

section \<open>Moving\<close>

lemma hoare_enter: "hoare good (move_enter env data oldloc) (\<lambda>_. good)"
  unfolding move_enter_def Let_def
  by (intro hoare_rules hoare_return hoare_sbind [where R = "\<lambda>_. good"] hoare_pre [OF hoare_call_verb] c_string_names) auto

lemma hoare_accepted: "hoare good (move_accepted env data progr accepts) (\<lambda>_. good)"
proof -
  let ?what = "m_what data" and ?dest = "m_where data"
  have move: "good d'"
    if "good d" "valid d ?what" "?dest = NOTHING \<or> valid d ?dest" "inside d ?what ?dest = Some False"
      "move_object env ?what ?dest pos d = Some d'" for d d' pos
    using move_object_good(1) [OF that(1,2) _ that(5)] inside_iff [of d ?dest ?what] that by (auto simp: good_def db_ok_def)
  show ?thesis unfolding move_accepted_def Let_def
    by (intro hoare_get hoare_if hoare_return hoare_modify [where R = good] hoare_sbind [OF hoare_call_verb] c_string_names)
      (auto intro!: hoare_return hoare_enter intro: move split: sum.split)
qed

lemma hoare_start: "hoare good (move_start env data progr) (\<lambda>_. good)"
  unfolding move_start_def Let_def
  by (intro hoare_get hoare_if hoare_return hoare_pre [OF hoare_accepted]
      hoare_sbind [where R = "\<lambda>_. good"] hoare_pre [OF hoare_call_verb] c_string_names)
    (auto intro!: hoare_return hoare_accepted split: sum.split)

lemma move_good: "hoare good (bf_move env arglist next vdata progr) (\<lambda>_. good)"
  unfolding bf_move_def do_move_def
  by (auto simp: Let_def intro!: hoare_fail hoare_start hoare_accepted hoare_enter hoare_return split: option.split var.split)

section \<open>Flags, properties and verbs\<close>

lemma good_users: "good d \<Longrightarrow> good (d\<lparr>all_users := us\<rparr>)"
  by (rule good_anon [of d]) (simp_all add: good_def anon_plain_def)

lemma flag_good: "good d \<Longrightarrow> bf_set_player_flag args progr d = Some (p, d') \<Longrightarrow> good d'"
proof -
  assume g: "good d" and run: "bf_set_player_flag args progr d = Some (p, d')"
  have u: "good ((upd_obj x (set_flag FLAG_USER) d)\<lparr>all_users := us\<rparr>)"
    "good ((upd_obj x (clear_flag FLAG_USER) d)\<lparr>all_users := us\<rparr>)" for x us
  proof -
    have "good (upd_obj x (set_flag FLAG_USER) d)" "good (upd_obj x (clear_flag FLAG_USER) d)"
      using good_same_shape [OF same_shape_upd_ref [of "set_flag FLAG_USER" d "Perm x"] g]
        good_same_shape [OF same_shape_upd_ref [of "clear_flag FLAG_USER" d "Perm x"] g] by simp_all
    then show "good ((upd_obj x (set_flag FLAG_USER) d)\<lparr>all_users := us\<rparr>)"
      "good ((upd_obj x (clear_flag FLAG_USER) d)\<lparr>all_users := us\<rparr>)"
      by (auto intro: good_users)
  qed
  show "good d'" using run g u
    by (auto simp: bf_set_player_flag_def db_set_object_flag_def db_clear_object_flag_def Let_def
        split: list.splits var.splits if_splits)
qed

text \<open>A change of the verbs of a permanent object, after which the verb cache is empty or no name or flag has changed.\<close>

lemma verbs_good:
  assumes g: "good d" and d': "d' = upd_obj x (\<lambda>ob. ob\<lparr>o_verbdefs := f (o_verbdefs ob)\<rparr>) d0"
    and d0: "objects d0 = objects d" "num_objects d0 = num_objects d" "array_size d0 = array_size d"
      "ancestor_cache d0 = ancestor_cache d" "anon_store d0 = anon_store d"
    and vc: "vc_empty d' \<or> vc_table d0 = vc_table d \<and>
      (\<forall>ob. find_in (objects d) x = Some ob \<longrightarrow> map vname_perms (f (o_verbdefs ob)) = map vname_perms (o_verbdefs ob))"
  shows "good d'"
proof -
  have find: "find_in (objects d') q = map_option (\<lambda>ob. if q = x then ob\<lparr>o_verbdefs := f (o_verbdefs ob)\<rparr> else ob) (find_in (objects d) q)" for q
    using find_upd_obj [of x "\<lambda>ob. ob\<lparr>o_verbdefs := f (o_verbdefs ob)\<rparr>" d0 q] d0
    by (cases "find_in (objects d) q") (auto simp: d' dbpriv_find_object_def)
  have r: "map_option (\<lambda>ob. h (o_id ob) (o_parents ob) (o_children ob) (o_location ob) (o_contents ob)) (find_in (objects d') q) =
      map_option (\<lambda>ob. h (o_id ob) (o_parents ob) (o_children ob) (o_location ob) (o_contents ob)) (find_in (objects d) q)"
    for h :: "_ \<Rightarrow> _ \<Rightarrow> _ \<Rightarrow> _ \<Rightarrow> _ \<Rightarrow> 'a" and q
    by (cases "find_in (objects d) q") (auto simp: find)
  have fl: "num_objects d' = num_objects d" "array_size d' = array_size d" "ancestor_cache d' = ancestor_cache d"
    "anon_store d' = anon_store d" "length (objects d') = length (objects d)" "vc_table d' = vc_table d0"
    using d0 by (simp_all add: d' upd_obj_fields)
  have pl: "places.ordered (objects d') = places.ordered (objects d)"
    by (rule places.ordered_cong(3)) (rule r [of "\<lambda>i ps cs l ct. (if l = NOTHING then [] else [l], ct)"])
  have "db_ok d'"
    by (rule db_ok_places [of d]) (use g pl r [of "\<lambda>i ps cs l ct. (i, ps, cs)"] fl in \<open>auto simp: good_def db_ok_def\<close>)
  moreover have "vc_ok d'"
  proof (cases "vc_empty d'")
    case False
    then have t: "vc_table d0 = vc_table d"
      and n: "\<forall>ob. find_in (objects d) x = Some ob \<longrightarrow> map vname_perms (f (o_verbdefs ob)) = map vname_perms (o_verbdefs ob)"
      using vc by auto
    have rd: "map_option (\<lambda>ob. (o_parents ob, map vname_perms (o_verbdefs ob))) (find_in (objects d') q) =
        map_option (\<lambda>ob. (o_parents ob, map vname_perms (o_verbdefs ob))) (find_in (objects d) q)" for q
      using n by (cases "find_in (objects d) q") (auto simp: find)
    have "vc_ok d" "family.ordered (objects d)" "anon_plain d" using g by (auto simp: good_def db_ok_def)
    then show ?thesis
      by (rule vc_ok_apart_names [of d NOTHING, OF _ _ _ _ _ rd]) (simp_all add: fl t)
  qed (rule vc_empty_ok)
  moreover have "sized d'" using g fl find_None_read [OF r [of "\<lambda>i ps cs l ct. ()"]] by (simp add: good_def sized_def)
  ultimately show ?thesis using g fl by (simp add: good_def anon_plain_def)
qed

lemma flush_fields:
  "objects (db_priv_affected_callable_verb_lookup d) = objects d"
  "num_objects (db_priv_affected_callable_verb_lookup d) = num_objects d"
  "array_size (db_priv_affected_callable_verb_lookup d) = array_size d"
  "ancestor_cache (db_priv_affected_callable_verb_lookup d) = ancestor_cache d"
  "anon_store (db_priv_affected_callable_verb_lookup d) = anon_store d"
  by (simp_all add: db_priv_affected_callable_verb_lookup_def split: option.split)

lemma vc_empty_upd_flush: "vc_empty (upd_obj x f (db_priv_affected_callable_verb_lookup d))"
  using vc_empty_flush vc_empty_cong [of "upd_obj x f (db_priv_affected_callable_verb_lookup d)" "db_priv_affected_callable_verb_lookup d"]
  by (simp add: upd_obj_fields)

lemma flushed_verbs_good:
  "good d \<Longrightarrow> good (upd_obj x (\<lambda>ob. ob\<lparr>o_verbdefs := f (o_verbdefs ob)\<rparr>) (db_priv_affected_callable_verb_lookup d))"
  by (rule verbs_good [OF _ refl]) (simp_all add: flush_fields vc_empty_upd_flush)

lemma add_verb_good: "good d \<Longrightarrow> db_add_verb (Perm x) vnames owner flags dobj prep iobj d = Some (n, d') \<Longrightarrow> good d'"
  by (auto simp: db_add_verb_def Let_def intro!: flushed_verbs_good split: option.splits)

lemma delete_verb_good: "good d \<Longrightarrow> db_delete_verb (Perm x, i) d = Some d' \<Longrightarrow> good d'"
  by (auto simp: db_delete_verb_def Let_def intro!: flushed_verbs_good split: option.splits)

lemma upd_flushed_verb_good:
  "good d \<Longrightarrow> upd_verbdef (Perm x, i) f (db_priv_affected_callable_verb_lookup d) = Some d' \<Longrightarrow> good d'"
  by (auto simp: upd_verbdef_def intro!: flushed_verbs_good split: option.splits)

lemma upd_verb_good:
  assumes "good d" "upd_verbdef (Perm x, i) f d = Some d'" "\<And>v. vname_perms (f v) = vname_perms v"
  shows "good d'"
proof -
  obtain v where v: "handle_verbdef d (Perm x, i) = Some v"
    "d' = upd_obj x (\<lambda>ob. ob\<lparr>o_verbdefs := (o_verbdefs ob)[i := f v]\<rparr>) d"
    using assms(2) by (auto simp: upd_verbdef_def split: option.splits)
  have "map vname_perms ((o_verbdefs ob)[i := f v]) = map vname_perms (o_verbdefs ob)" if "find_in (objects d) x = Some ob" for ob
    using v(1) that assms(3) [of v]
    by (auto simp: handle_verbdef_def dbpriv_find_object_def map_update list_update_same_conv split: if_splits)
  then show ?thesis by (intro verbs_good [OF assms(1) v(2)]) auto
qed

section \<open>Reachable databases\<close>

text \<open>
  One stretch of a built-in that changes the database, or of the operations on properties and
  verbs behind the other built-ins. A \<^verbatim>\<open>recreate\<close> is a step when its parent exists or is
  \<^verbatim>\<open>#-1\<close>, which the built-in does not check.
\<close>

inductive builtin_step :: "db \<Rightarrow> db \<Rightarrow> bool" where
  move: "bf_move env arglist next mdata progr d = Some (mp, d') \<Longrightarrow> builtin_step d d'"
| create: "bf_create env args next vdata progr d = Some (vp, d') \<Longrightarrow> builtin_step d d'"
| recreate: "bf_recreate env args next vdata progr d = Some (vp, d') \<Longrightarrow>
    \<forall>old parent owner. recreate_args args = Some (old, parent, owner) \<longrightarrow> parent = NOTHING \<or> valid d parent \<Longrightarrow>
    builtin_step d d'"
| recycle: "bf_recycle env args next vdata progr d = Some (vp, d') \<Longrightarrow> builtin_step d d'"
| chparent: "bf_chparent_chparents args progr d = Some (up, d') \<Longrightarrow> builtin_step d d'"
| player: "bf_set_player_flag args progr d = Some (up, d') \<Longrightarrow> builtin_step d d'"
| call: "call_verb env recv vname this args d = Some (r, d') \<Longrightarrow> c_string vname \<Longrightarrow> builtin_step d d'"
| ancestors: "db_ancestors ref full d = Some (l, d') \<Longrightarrow> builtin_step d d'"
| add_propdef: "db_add_propdef ref pname val owner flags d = Some (b, d') \<Longrightarrow> builtin_step d d'"
| delete_propdef: "db_delete_propdef ref pname d = Some (b, d') \<Longrightarrow> builtin_step d d'"
| set_property: "db_set_property_value h val d = Some d' \<Longrightarrow> builtin_step d d'"
| find_property: "db_find_property ref pname d = Some (h, d') \<Longrightarrow> builtin_step d d'"
| add_verb: "db_add_verb (Perm x) vnames owner vflags dobj prep iobj d = Some (n, d') \<Longrightarrow> builtin_step d d'"
| delete_verb: "db_delete_verb (Perm x, i) d = Some d' \<Longrightarrow> builtin_step d d'"
| verb_names: "db_set_verb_names (Perm x, i) names d = Some d' \<Longrightarrow> builtin_step d d'"
| verb_flags: "db_set_verb_flags (Perm x, i) vflags d = Some d' \<Longrightarrow> builtin_step d d'"
| verb_args: "db_set_verb_arg_specs (Perm x, i) dobj prep iobj d = Some d' \<Longrightarrow> builtin_step d d'"
| verb_owner: "db_set_verb_owner (Perm x, i) owner d = Some d' \<Longrightarrow> builtin_step d d'"
| verb_program: "db_set_verb_program (Perm x, i) n d = Some d' \<Longrightarrow> builtin_step d d'"

lemma hoare_goodD: "hoare good m (\<lambda>_. good) \<Longrightarrow> m d = Some (x, d') \<Longrightarrow> good d \<Longrightarrow> good d'"
  by (erule (1) hoareD)

lemma good_keeps: "fr.keeps m \<Longrightarrow> m d = Some (x, d') \<Longrightarrow> good d \<Longrightarrow> good d'"
  by (rule good_same_shape [OF fr.keepsD])

lemma good_updates: "fr.updates f \<Longrightarrow> f d = Some d' \<Longrightarrow> good d \<Longrightarrow> good d'"
  unfolding fr.updates_def by (rule good_same_shape [of d d']) simp_all

lemma chparent_keeps: "hoare good (bf_chparent_chparents args progr) (\<lambda>_. good)"
proof (rule hoareI)
  fix d p d' assume "good d" and run: "bf_chparent_chparents args progr d = Some (p, d')"
  then have "good d \<and> objects d = objects d" by simp
  from hoareD [OF chparent_good this run] show "good d'" by blast
qed

lemma recreate_keeps:
  assumes "bf_recreate env args next vdata progr d = Some (p, d')"
    and "\<forall>old parent owner. recreate_args args = Some (old, parent, owner) \<longrightarrow> parent = NOTHING \<or> valid d parent"
    and "good d"
  shows "good d'"
  by (rule hoareD [OF recreate_good _ assms(1)]) (use assms in blast)

lemma verb_owner_good: "db_set_verb_owner (Perm x, i) owner d = Some d' \<Longrightarrow> good d \<Longrightarrow> good d'"
  unfolding db_set_verb_owner_def by (rule upd_verb_good [where f = "\<lambda>v. v\<lparr>vd_owner := owner\<rparr>"], assumption+) (simp add: vname_perms_def)

lemma verb_program_good: "db_set_verb_program (Perm x, i) n d = Some d' \<Longrightarrow> good d \<Longrightarrow> good d'"
  unfolding db_set_verb_program_def by (rule upd_verb_good [where f = "\<lambda>v. v\<lparr>vd_program := Some n\<rparr>"], assumption+) (simp add: vname_perms_def)

lemma builtin_step_good: "builtin_step d d' \<Longrightarrow> good d \<Longrightarrow> good d'"
proof (induction rule: builtin_step.induct)
  case move then show ?case by (rule hoare_goodD [OF move_good])
next
  case create then show ?case by (rule hoare_goodD [OF create_good_step])
next
  case recreate then show ?case by (rule recreate_keeps)
next
  case recycle then show ?case by (rule hoare_goodD [OF recycle_good])
next
  case chparent then show ?case by (rule hoare_goodD [OF chparent_keeps])
next
  case player then show ?case by (rule flag_good [rotated])
next
  case (call env recv vname this args d r d') show ?case by (rule hoare_goodD [OF hoare_call_verb [OF call(2)] call(1,3)])
next
  case ancestors then show ?case by (rule good_keeps [OF keeps_db_ancestors])
next
  case add_propdef then show ?case by (rule good_keeps [OF keeps_db_add_propdef])
next
  case delete_propdef then show ?case by (rule good_keeps [OF keeps_db_delete_propdef])
next
  case set_property then show ?case by (rule good_updates [OF updates_db_set_property_value])
next
  case find_property then show ?case by (rule good_keeps [OF keeps_db_find_property])
next
  case add_verb then show ?case by (rule add_verb_good [rotated])
next
  case delete_verb then show ?case by (rule delete_verb_good [rotated])
next
  case verb_names then show ?case unfolding db_set_verb_names_def by (rule upd_flushed_verb_good [rotated])
next
  case verb_flags then show ?case unfolding db_set_verb_flags_def by (rule upd_flushed_verb_good [rotated])
next
  case verb_args then show ?case unfolding db_set_verb_arg_specs_def by (rule upd_flushed_verb_good [rotated])
next
  case verb_owner then show ?case by (rule verb_owner_good)
next
  case verb_program then show ?case by (rule verb_program_good)
qed

end
