(* ===== verification/Commands.thy ===== *)
theory Commands
  imports DbVerbs PropLayout
begin

text \<open>
  Commands as players type them: the words of a line (\<^verbatim>\<open>parse_into_words\<close>), the
  prepositions of \<^verbatim>\<open>db_verbs.cc\<close>, the split of a command into direct object,
  preposition and indirect object (\<^verbatim>\<open>parse_cmd.cc\<close>), and the search for the objects
  meant (\<^verbatim>\<open>match.cc\<close>).
\<close>

section \<open>Words\<close>

abbreviation "SPACE \<equiv> CHR '' ''"
abbreviation "QUOTE \<equiv> CHR 0x22"
abbreviation "BACKSLASH \<equiv> CHR 0x5C"

definition skip_spaces :: "string \<Rightarrow> string" where
  "skip_spaces s = dropWhile (\<lambda>c. c = SPACE) s"

text \<open>
  The loop over one word: what is copied, whether a quote is open at its end, and the rest
  of the line. A backslash takes the next byte as it is; one at the end of the line is dropped.
\<close>

fun scan_word :: "bool \<Rightarrow> string \<Rightarrow> string \<times> bool \<times> string" where
  "scan_word q [] = ([], q, [])"
| "scan_word q (c # cs) =
     (if \<not> q \<and> c = SPACE then ([], q, c # cs)
      else if c = QUOTE then scan_word (\<not> q) cs
      else if c = BACKSLASH then
        (case cs of
           [] \<Rightarrow> ([], q, [])
         | c2 # cs2 \<Rightarrow> apfst (Cons c2) (scan_word q cs2))
      else apfst (Cons c) (scan_word q cs))"

lemma scan_word_shorter: "length (snd (snd (scan_word q s))) \<le> length s"
proof (induction q s rule: scan_word.induct)
  case (2 q c cs)
  then show ?case by (cases cs) (simp_all add: le_SucI)
qed simp

lemma scan_word_rest: "s \<noteq> [] \<Longrightarrow> hd s \<noteq> SPACE \<Longrightarrow> length (snd (snd (scan_word q s))) < length s"
  using scan_word_shorter [of "\<not> q" "tl s"] scan_word_shorter [of q "tl s"] scan_word_shorter [of q "tl (tl s)"]
  by (cases s; cases "tl s") (simp_all add: less_Suc_eq_le le_SucI)

function words_from :: "bool \<Rightarrow> string \<Rightarrow> string list" where
  "words_from q s =
     (let s1 = skip_spaces s in
      if s1 = [] then []
      else (case scan_word q s1 of (w, q1, rest) \<Rightarrow> w # words_from q1 rest))"
  by pat_completeness auto
termination
proof (relation "measure (\<lambda>(q, s). length s)", simp)
  fix q s s1 w q1 rest and y :: "bool \<times> string"
  assume s1: "s1 = skip_spaces s" "s1 \<noteq> []" and sc: "(w, y) = scan_word q s1" "(q1, rest) = y"
  have "hd s1 \<noteq> SPACE" using s1 hd_dropWhile [of "\<lambda>c. c = SPACE" s] by (auto simp: skip_spaces_def)
  from scan_word_rest [OF s1(2) this, of q] sc have "length rest < length s1" by (metis snd_conv)
  moreover have "length s1 \<le> length s" by (simp add: s1(1) skip_spaces_def length_dropWhile_le)
  ultimately show "((q1, rest), q, s) \<in> measure (\<lambda>(q, s). length s)" by simp
qed

declare words_from.simps [simp del]

definition parse_into_words :: "string \<Rightarrow> string list" where
  "parse_into_words input = words_from False input"

definition parse_into_wordlist :: "string \<Rightarrow> var" where
  "parse_into_wordlist command = VLIST (map VSTR (parse_into_words command))"

fun build_string :: "string list \<Rightarrow> string" where
  "build_string [] = []"
| "build_string [w] = w"
| "build_string (w # ws) = w @ SPACE # build_string ws"

section \<open>Prepositions\<close>

definition prep_list :: "string list" where
  "prep_list =
     [''with/using'', ''at/to'', ''in front of'', ''in/inside/into'', ''on top of/on/onto/upon'',
      ''out of/from inside/from'', ''over'', ''through'', ''under/underneath/beneath'', ''behind'',
      ''beside'', ''for/about'', ''is'', ''as'', ''off/off of'']"

fun split_slashes :: "string \<Rightarrow> string list" where
  "split_slashes [] = [[]]"
| "split_slashes (c # cs) =
     (if c = CHR ''/'' then [] # split_slashes cs
      else (case split_slashes cs of [] \<Rightarrow> [[c]] | w # ws \<Rightarrow> (c # w) # ws))"

text \<open>The table \<^verbatim>\<open>dbpriv_build_prep_table\<close> makes: per preposition its aliases, as words.\<close>

definition prep_table :: "string list list list" where
  "prep_table = map (\<lambda>p. map parse_into_words (split_slashes p)) prep_list"

definition alias_at :: "string list \<Rightarrow> nat \<Rightarrow> bool \<Rightarrow> string list \<Rightarrow> bool" where
  "alias_at argv i exact_match alias =
     (i + length alias \<le> length argv \<and>
      list_all (\<lambda>k. strcasecmp (argv ! (i + k)) (alias ! k) = 0) [0..<length alias] \<and>
      (\<not> exact_match \<or> i + length alias = length argv))"

definition find_prep_at :: "string list \<Rightarrow> nat \<Rightarrow> bool \<Rightarrow> (nat \<times> string list) option" where
  "find_prep_at argv i exact_match =
     List.find (\<lambda>(j, alias). alias_at argv i exact_match alias)
       (concat (map (\<lambda>(j, aliases). map (Pair j) aliases) (enumerate 0 prep_table)))"

fun find_prep_from :: "string list \<Rightarrow> nat list \<Rightarrow> (nat \<times> nat \<times> nat) option" where
  "find_prep_from argv [] = None"
| "find_prep_from argv (i # is) =
     (case find_prep_at argv i False of
        Some (j, alias) \<Rightarrow> Some (j, i, i + length alias - 1)
      | None \<Rightarrow> find_prep_from argv is)"

text \<open>
  \<^verbatim>\<open>db_find_prep\<close> with \<^verbatim>\<open>first\<close> and \<^verbatim>\<open>last\<close>: a preposition and where it stands; and
  without them, for the whole of the words.
\<close>

definition db_find_prep :: "string list \<Rightarrow> (nat \<times> nat \<times> nat) option" where
  "db_find_prep argv = find_prep_from argv [0..<length argv]"

definition db_find_prep_exact :: "string list \<Rightarrow> int" where
  "db_find_prep_exact argv =
     (if argv = [] then PREP_NONE
      else (case find_prep_at argv 0 True of None \<Rightarrow> PREP_NONE | Some (j, _) \<Rightarrow> int j))"

definition db_match_prep :: "string \<Rightarrow> int" where
  "db_match_prep prepname =
     (let s = (case prepname of c # cs \<Rightarrow> if c = CHR ''#'' then cs else prepname | [] \<Rightarrow> prepname);
          prep = to_int32 (fst (strtol s)) in
      if snd (strtol s) = [] then
        (if s = [] \<or> \<not> isdigit (hd s) \<or> prep < 0 \<or> prep \<ge> int (length prep_list) then PREP_NONE else prep)
      else db_find_prep_exact (parse_into_words (takeWhile (\<lambda>c. c \<noteq> CHR ''/'') s)))"

definition db_unparse_prep :: "int \<Rightarrow> string" where
  "db_unparse_prep prep =
     (if prep = PREP_NONE then ''none'' else if prep = PREP_ANY then ''any'' else prep_list ! nat prep)"

section \<open>Matching objects\<close>

definition aliases :: "objid \<Rightarrow> db \<Rightarrow> (var list \<times> db) option" where
  "aliases oid =
     sbind (db_find_property (Perm oid) ''aliases'') (\<lambda>h.
       if h = NoProp then sreturn []
       else sbind (db_property_value_of h) (\<lambda>v. sreturn (case v of VLIST vs \<Rightarrow> vs | _ \<Rightarrow> [])))"

text \<open>\<^verbatim>\<open>match_data\<close>: the best exact and partial matches so far; \<open>None\<close> ends the search.\<close>

type_synonym match_data = "objid \<times> objid"

definition match_name :: "string \<Rightarrow> objid \<Rightarrow> string \<Rightarrow> match_data \<Rightarrow> match_data option" where
  "match_name what oid name d =
     (case d of (exact, partial) \<Rightarrow>
       if map cmap (take (length what) name) = map cmap what then
         (if length name = length what then
            (if exact = NOTHING \<or> exact = oid then Some (oid, partial) else None)
          else if partial = FAILED_MATCH \<or> partial = oid then Some (exact, oid)
          else Some (exact, AMBIGUOUS))
       else Some d)"

fun match_names :: "string \<Rightarrow> objid \<Rightarrow> string list \<Rightarrow> match_data \<Rightarrow> match_data option" where
  "match_names what oid [] d = Some d"
| "match_names what oid (n # ns) d =
     (case match_name what oid n d of None \<Rightarrow> None | Some d1 \<Rightarrow> match_names what oid ns d1)"

fun string_aliases :: "var list \<Rightarrow> string list" where
  "string_aliases [] = []"
| "string_aliases (VSTR s # vs) = s # string_aliases vs"
| "string_aliases (_ # vs) = string_aliases vs"

definition object_names :: "objid \<Rightarrow> db \<Rightarrow> (string list \<times> db) option" where
  "object_names oid =
     sbind (aliases oid) (\<lambda>vs.
     sbind (sget (\<lambda>d. map_option o_name (dbpriv_find_object d oid))) (\<lambda>name.
       sreturn (name # string_aliases vs)))"

definition match_proc :: "string \<Rightarrow> match_data \<Rightarrow> objid \<Rightarrow> db \<Rightarrow> (match_data option \<times> db) option" where
  "match_proc what data oid = sbind (object_names oid) (\<lambda>names. sreturn (match_names what oid names data))"

fun match_list :: "string \<Rightarrow> match_data \<Rightarrow> objid list \<Rightarrow> db \<Rightarrow> (match_data option \<times> db) option" where
  "match_list what data [] = sreturn (Some data)"
| "match_list what data (oid # oids) =
     sbind (match_proc what data oid) (\<lambda>r.
       case r of None \<Rightarrow> sreturn None | Some data1 \<Rightarrow> match_list what data1 oids)"

text \<open>The contents of the player, then those of the place the player is in.\<close>

definition contents_of :: "db \<Rightarrow> objid \<Rightarrow> objid list" where
  "contents_of d oid = (case dbpriv_find_object d oid of None \<Rightarrow> [] | Some ob \<Rightarrow> o_contents ob)"

definition match_contents :: "objid \<Rightarrow> string \<Rightarrow> db \<Rightarrow> (objid \<times> db) option" where
  "match_contents player what =
     sbind (sget Some) (\<lambda>d.
       case db_object_location d player of
         None \<Rightarrow> sreturn FAILED_MATCH
       | Some loc \<Rightarrow>
           sbind (match_list what (NOTHING, FAILED_MATCH) (contents_of d player @ contents_of d loc)) (\<lambda>r.
             sreturn (case r of
                        None \<Rightarrow> AMBIGUOUS
                      | Some (exact, partial) \<Rightarrow> if exact \<noteq> NOTHING then exact else partial)))"

definition match_object :: "objid \<Rightarrow> string \<Rightarrow> db \<Rightarrow> (objid \<times> db) option" where
  "match_object player name =
     (if name = [] then sreturn NOTHING
      else if hd name = CHR ''#'' then
        sget (\<lambda>d. let r = fst (strtol (tl name)) in
          Some (if snd (strtol (tl name)) \<noteq> [] \<or> \<not> valid d r then FAILED_MATCH else r))
      else
        sbind (sget (\<lambda>d. Some (valid d player))) (\<lambda>ok.
          if \<not> ok then sreturn FAILED_MATCH
          else if strcasecmp name ''me'' = 0 then sreturn player
          else if strcasecmp name ''here'' = 0 then sget (\<lambda>d. db_object_location d player)
          else match_contents player name))"

section \<open>Commands\<close>

record parsed_command =
  pc_verb :: string
  pc_argstr :: string
  pc_args :: "string list"
  pc_dobjstr :: string
  pc_dobj :: objid
  pc_prepstr :: string
  pc_prep :: int
  pc_iobjstr :: string
  pc_iobj :: objid

text \<open>The loop past the verb, with its quotes and backslashes.\<close>

fun skip_verb :: "bool \<Rightarrow> string \<Rightarrow> string" where
  "skip_verb q [] = []"
| "skip_verb q (c # cs) =
     (if \<not> q \<and> c = SPACE then c # cs
      else if c = QUOTE then skip_verb (\<not> q) cs
      else if c = BACKSLASH then (case cs of [] \<Rightarrow> [] | c2 # cs2 \<Rightarrow> skip_verb q cs2)
      else skip_verb q cs)"

text \<open>The line that is split into words, and \<^verbatim>\<open>argstr\<close>.\<close>

definition command_line :: "string \<Rightarrow> string \<times> string" where
  "command_line command0 =
     (let command = skip_spaces command0;
          special = (\<lambda>verb. (verb @ SPACE # tl command, tl command)) in
      if command \<noteq> [] \<and> hd command = QUOTE then special ''say''
      else if command \<noteq> [] \<and> hd command = CHR '':'' then special ''emote''
      else if command \<noteq> [] \<and> hd command = CHR '';'' then special ''eval''
      else (command, skip_spaces (skip_verb False command)))"

text \<open>
  Where the preposition stands among all the words, the verb being word 0: its first and last
  position, or past the end.
\<close>

definition prep_span :: "string list \<Rightarrow> int \<times> nat \<times> nat" where
  "prep_span argv =
     (case (if length argv > 1 then db_find_prep (tl argv) else None) of
        None \<Rightarrow> (PREP_NONE, length argv, length argv)
      | Some (j, first, lst) \<Rightarrow> (int j, first + 1, lst + 1))"

definition parse_command :: "string \<Rightarrow> objid \<Rightarrow> db \<Rightarrow> (parsed_command option \<times> db) option" where
  "parse_command command user =
     (let argv = parse_into_words (fst (command_line command)) in
      if argv = [] then sreturn None
      else
        let (prep, pstart, pend) = prep_span argv;
            prepstr = (if prep \<noteq> PREP_NONE then build_string (take (pend - pstart + 1) (drop pstart argv)) else []);
            iobjstr = (if prep \<noteq> PREP_NONE then build_string (drop (pend + 1) argv) else []);
            dobjstr = build_string (take (pstart - 1) (tl argv)) in
        sbind (if prep \<noteq> PREP_NONE then match_object user iobjstr else sreturn NOTHING) (\<lambda>iobj.
        sbind (if pstart - 1 = 0 then sreturn NOTHING else match_object user dobjstr) (\<lambda>dobj.
          sreturn (Some
            \<lparr>pc_verb = hd argv, pc_argstr = snd (command_line command), pc_args = tl argv,
             pc_dobjstr = dobjstr, pc_dobj = dobj, pc_prepstr = prepstr, pc_prep = prep,
             pc_iobjstr = iobjstr, pc_iobj = iobj\<rparr>))))"

end
