(* ===== verification/CommandProps.thy ===== *)
theory CommandProps
  imports Commands
begin

text \<open>
  The words of a quoted line, the prepositions and their numbers, the parts of a command and
  the objects it means.
\<close>

section \<open>Quoted words\<close>

definition escape :: "string \<Rightarrow> string" where
  "escape w = concat (map (\<lambda>c. if c = QUOTE \<or> c = BACKSLASH then [BACKSLASH, c] else [c]) w)"

definition quoted :: "string \<Rightarrow> string" where
  "quoted w = QUOTE # escape w @ [QUOTE]"

lemma scan_escape: "scan_word True (escape w @ QUOTE # r) = apfst (append w) (scan_word False r)"
proof (induction w)
  case Nil
  have "apfst (\<lambda>a. a) p = p" for p :: "string \<times> bool \<times> string" by (cases p) simp
  then show ?case by (simp add: escape_def)
next
  case (Cons c w)
  have e: "escape (c # w) = (if c = QUOTE \<or> c = BACKSLASH then [BACKSLASH, c] else [c]) @ escape w"
    by (simp add: escape_def)
  show ?case
  proof (cases "c = QUOTE \<or> c = BACKSLASH")
    case True
    then have "scan_word True (escape (c # w) @ QUOTE # r) = apfst (Cons c) (scan_word True (escape w @ QUOTE # r))"
      by (simp add: e)
    then show ?thesis using Cons.IH by (simp add: apfst_compose comp_def)
  next
    case False
    then have "scan_word True (escape (c # w) @ QUOTE # r) = apfst (Cons c) (scan_word True (escape w @ QUOTE # r))"
      by (simp add: e)
    then show ?thesis using Cons.IH by (simp add: apfst_compose comp_def)
  qed
qed

lemma scan_quoted: "r = [] \<or> hd r = SPACE \<Longrightarrow> scan_word False (quoted w @ r) = (w, False, r)"
  using scan_escape [of w r] by (cases r) (simp_all add: quoted_def)

lemma words_quoted: "words_from False (build_string (map quoted ws)) = ws"
proof (induction ws)
  case Nil
  then show ?case by (simp add: words_from.simps skip_spaces_def)
next
  case (Cons w ws)
  define r where "r = (if ws = [] then [] else SPACE # build_string (map quoted ws))"
  have b: "build_string (map quoted (w # ws)) = quoted w @ r" by (cases ws) (simp_all add: r_def)
  have s: "skip_spaces (quoted w @ r) = quoted w @ r" by (simp add: skip_spaces_def quoted_def)
  have "scan_word False (quoted w @ r) = (w, False, r)" by (rule scan_quoted) (simp add: r_def)
  then have "words_from False (quoted w @ r) = w # words_from False r"
    using s words_from.simps [of False "quoted w @ r"] by (simp add: quoted_def)
  moreover have "words_from False r = ws"
  proof (cases "ws = []")
    case True
    then show ?thesis by (simp add: r_def words_from.simps skip_spaces_def)
  next
    case False
    have "skip_spaces (SPACE # build_string (map quoted ws)) = skip_spaces (build_string (map quoted ws))"
      by (simp add: skip_spaces_def)
    then have "words_from False r = words_from False (build_string (map quoted ws))"
      using False by (simp add: r_def words_from.simps [of False "SPACE # build_string (map quoted ws)"]
          words_from.simps [of False "build_string (map quoted ws)"])
    then show ?thesis using Cons.IH by simp
  qed
  ultimately show ?case unfolding b by simp
qed

section \<open>The table of prepositions\<close>

lemma prep_table_eq [code]:
  "prep_table =
     [[[''with''], [''using'']], [[''at''], [''to'']], [[''in'', ''front'', ''of'']],
      [[''in''], [''inside''], [''into'']], [[''on'', ''top'', ''of''], [''on''], [''onto''], [''upon'']],
      [[''out'', ''of''], [''from'', ''inside''], [''from'']], [[''over'']], [[''through'']],
      [[''under''], [''underneath''], [''beneath'']], [[''behind'']], [[''beside'']],
      [[''for''], [''about'']], [[''is'']], [[''as'']], [[''off''], [''off'', ''of'']]]"
  by code_simp

lemma find_prep_at_Some:
  assumes "find_prep_at argv i e = Some (j, al)"
  shows "alias_at argv i e al" "j < length prep_table" "al \<in> set (prep_table ! j)" "al \<noteq> []"
proof -
  let ?all = "concat (map (\<lambda>(j, aliases). map (Pair j) aliases) (enumerate 0 prep_table))"
  from assms have f: "(\<lambda>(j, al). alias_at argv i e al) (j, al)" "(j, al) \<in> set ?all"
    unfolding find_prep_at_def by (metis find_Some_iff nth_mem)+
  then show "alias_at argv i e al" by simp
  from f(2) obtain as where as: "(j, as) \<in> set (enumerate 0 prep_table)" "al \<in> set as" by auto
  then show "j < length prep_table" "al \<in> set (prep_table ! j)"
    by (auto simp: in_set_enumerate_eq)
  have "\<forall>as \<in> set prep_table. [] \<notin> set as" unfolding prep_table_eq by simp
  moreover have "as \<in> set prep_table" using as(1) by (auto simp: in_set_enumerate_eq)
  ultimately show "al \<noteq> []" using as(2) by auto
qed

lemma find_prep_from_Some:
  "find_prep_from argv is = Some (j, i, l) \<Longrightarrow>
   \<exists>pre post al. is = pre @ i # post \<and> find_prep_at argv i False = Some (j, al) \<and> l = i + length al - 1 \<and>
     (\<forall>k \<in> set pre. find_prep_at argv k False = None)"
proof (induction "is")
  case (Cons k "is")
  show ?case
  proof (cases "find_prep_at argv k False")
    case None
    with Cons obtain pre post al where "is = pre @ i # post" "find_prep_at argv i False = Some (j, al)"
      "l = i + length al - 1" "\<forall>k \<in> set pre. find_prep_at argv k False = None" by auto
    with None show ?thesis by (intro exI [of _ "k # pre"] exI [of _ post] exI [of _ al]) simp
  next
    case (Some p)
    with Cons(2) show ?thesis by (cases p) (auto intro: exI [of _ "[]"])
  qed
qed simp

lemma find_prep_none: "find_prep_from argv is = None \<Longrightarrow> i \<in> set is \<Longrightarrow> find_prep_at argv i False = None"
  by (induction "is") (auto split: option.splits)

lemma db_find_prep_Some:
  assumes "db_find_prep argv = Some (j, i, l)"
  obtains al where "find_prep_at argv i False = Some (j, al)" "l = i + length al - 1"
    "\<forall>k < i. find_prep_at argv k False = None"
proof -
  obtain pre post al where p: "[0..<length argv] = pre @ i # post" "find_prep_at argv i False = Some (j, al)"
    "l = i + length al - 1" "\<forall>k \<in> set pre. find_prep_at argv k False = None"
    using find_prep_from_Some assms unfolding db_find_prep_def by blast
  have len: "length pre < length argv" using arg_cong [OF p(1), of length] by simp
  have "pre = take (length pre) [0..<length argv]" "i = [0..<length argv] ! length pre" using p(1) by simp_all
  then have "pre = [0..<length pre]" "i = length pre" using len by (simp_all add: take_upt)
  then have "set pre = {..<i}" by (metis lessThan_atLeast0 set_upt)
  with p that show thesis by auto
qed

lemma alias_at_words:
  "alias_at argv i False al \<Longrightarrow>
   i + length al \<le> length argv \<and> list_all2 (\<lambda>w a. strcasecmp w a = 0) (take (length al) (drop i argv)) al"
  by (auto simp: alias_at_def list_all_iff list_all2_conv_all_nth)

lemma alias_at_all2:
  "alias_at argv 0 True al \<longleftrightarrow> list_all2 (\<lambda>w a. strcasecmp w a = 0) argv al"
  by (auto simp: alias_at_def list_all_iff list_all2_conv_all_nth)

lemma find_prep_at_exists:
  assumes "p < length prep_table" "al \<in> set (prep_table ! p)" "alias_at argv i e al"
  shows "\<exists>j al'. find_prep_at argv i e = Some (j, al')"
proof (rule ccontr)
  assume "\<not> ?thesis"
  then have "find_prep_at argv i e = None" by (metis not_Some_eq surj_pair)
  moreover have "(p, al) \<in> set (concat (map (\<lambda>(j, aliases). map (Pair j) aliases) (enumerate 0 prep_table)))"
    using assms(1,2) by (force simp: in_set_enumerate_eq)
  ultimately show False using assms(3) unfolding find_prep_at_def find_None_iff by blast
qed

lemma prep_words_lower:
  "\<forall>as \<in> set prep_table. \<forall>al \<in> set as. \<forall>w \<in> set al. map cmap w = w \<and> c_string w"
  unfolding prep_table_eq by (simp add: cmap_def c_string_def byte_of_def)

lemma prep_words_eq:
  assumes "p < length prep_table" "al \<in> set (prep_table ! p)" "q < length prep_table" "al' \<in> set (prep_table ! q)"
    and "list_all2 (\<lambda>w a. strcasecmp w a = 0) argv al" "list_all2 (\<lambda>w a. strcasecmp w a = 0) argv al'"
    and "\<forall>w \<in> set argv. c_string w"
  shows "al' = al"
proof (rule nth_equalityI)
  show "length al' = length al" using assms(5,6) by (metis list_all2_lengthD)
next
  fix k assume k: "k < length al'"
  have L: "map cmap w = w" "c_string w" if "w \<in> set a" "a \<in> set (prep_table ! r)" "r < length prep_table" for w a r
    using that prep_words_lower by (meson nth_mem)+
  have c: "strcasecmp (argv ! k) (al ! k) = 0" "strcasecmp (argv ! k) (al' ! k) = 0" "k < length argv" "k < length al"
    using assms(5,6) k by (auto simp: list_all2_conv_all_nth)
  then have "map cmap (argv ! k) = map cmap (al ! k)" "map cmap (argv ! k) = map cmap (al' ! k)"
    using L(2) assms k by (metis nth_mem strcasecmp_zero_iff)+
  then show "al' ! k = al ! k" using L(1) assms(1-4) k c by (metis nth_mem)
qed

lemma prep_alias_unique:
  assumes "p < length prep_table" "al \<in> set (prep_table ! p)" "q < length prep_table" "al \<in> set (prep_table ! q)"
  shows "p = q"
proof -
  have "\<forall>q < 15. \<forall>p < q. set (prep_table ! p) \<inter> set (prep_table ! q) = {}"
    unfolding prep_table_eq by (simp add: All_less_Suc numeral_eq_Suc)
  moreover have "length prep_table = 15" by (simp add: prep_table_eq)
  ultimately show ?thesis using assms by (metis IntI empty_iff linorder_neqE_nat)
qed

lemma off_first:
  assumes "find_prep_at argv i False = Some (14, al)"
  shows "al = [''off'']"
proof -
  let ?all = "\<lambda>t. concat (map (\<lambda>(j, aliases). map (Pair j) aliases) (enumerate 0 t))"
  let ?P = "\<lambda>(j :: nat, al). alias_at argv i False al"
  have t: "?all prep_table = ?all (butlast prep_table) @ [(14, [''off'']), (14, [''off'', ''of''])]"
    unfolding prep_table_eq by simp
  have b: "\<forall>x \<in> set (?all (butlast prep_table)). fst x < 14"
    unfolding prep_table_eq by simp
  have p: "alias_at argv i False [''off'', ''of''] \<Longrightarrow> alias_at argv i False [''off'']"
    by (simp add: alias_at_def)
  have n: "List.find ?P (?all (butlast prep_table)) = None"
  proof (rule ccontr)
    assume "List.find ?P (?all (butlast prep_table)) \<noteq> None"
    then obtain x where x: "List.find ?P (?all (butlast prep_table)) = Some x" by blast
    then have "x \<in> set (?all (butlast prep_table))" by (metis find_Some_iff nth_mem)
    moreover have "x = (14, al)" using assms x unfolding find_prep_at_def t Prelude.find_append by simp
    ultimately show False using b by fastforce
  qed
  show ?thesis using assms p unfolding find_prep_at_def t find_append n by (simp split: if_splits)
qed

section \<open>The best match\<close>

definition same_name :: "string \<Rightarrow> string \<Rightarrow> bool" where
  "same_name what name \<longleftrightarrow> map cmap name = map cmap what"

definition longer_name :: "string \<Rightarrow> string \<Rightarrow> bool" where
  "longer_name what name \<longleftrightarrow> strict_prefix (map cmap what) (map cmap name)"

text \<open>
  The objects with a name that is the one sought, and those with a longer name that starts
  with it, among named objects.
\<close>

definition exact_matches :: "string \<Rightarrow> (objid \<times> string list) list \<Rightarrow> objid set" where
  "exact_matches what cs = {x. \<exists>ns. (x, ns) \<in> set cs \<and> (\<exists>n \<in> set ns. same_name what n)}"

definition partial_matches :: "string \<Rightarrow> (objid \<times> string list) list \<Rightarrow> objid set" where
  "partial_matches what cs = {x. \<exists>ns. (x, ns) \<in> set cs \<and> (\<exists>n \<in> set ns. longer_name what n)}"

text \<open>One object, none, or more than one.\<close>

definition sole :: "objid \<Rightarrow> objid set \<Rightarrow> objid" where
  "sole none X = (if X = {} then none else if \<exists>x. X = {x} then the_elem X else AMBIGUOUS)"

definition best_match :: "string \<Rightarrow> (objid \<times> string list) list \<Rightarrow> objid" where
  "best_match what cs =
     (if exact_matches what cs \<noteq> {} then sole NOTHING (exact_matches what cs)
      else sole FAILED_MATCH (partial_matches what cs))"

text \<open>What has been found among the names seen: \<open>E\<close> and \<open>P\<close> the exact and the partial matches.\<close>

definition found :: "objid set \<Rightarrow> objid set \<Rightarrow> match_data \<Rightarrow> bool" where
  "found E P d \<longleftrightarrow> (case d of (exact, partial) \<Rightarrow>
     (if exact = NOTHING then E = {} else E = {exact}) \<and> partial = sole FAILED_MATCH P)"

lemma sole_insert:
  "0 \<le> x \<Longrightarrow> \<forall>y \<in> P. 0 \<le> y \<Longrightarrow>
   sole FAILED_MATCH (insert x P) =
     (if sole FAILED_MATCH P = FAILED_MATCH \<or> sole FAILED_MATCH P = x then x else AMBIGUOUS)"
  unfolding sole_def by (auto simp: doubleton_eq_iff)

lemma take_is_prefix: "map cmap (take (length w) n) = map cmap w \<longleftrightarrow> prefix (map cmap w) (map cmap n)"
proof -
  have "map cmap (take (length w) n) = take (length (map cmap w)) (map cmap n)" by (simp add: take_map)
  then show ?thesis unfolding prefix_def by (metis append_eq_conv_conj append_take_drop_id)
qed

lemma match_name_found:
  assumes f: "found E P d" and x: "0 \<le> x" "\<forall>y \<in> E \<union> P. 0 \<le> y"
  shows "case match_name what x n d of
      None \<Rightarrow> same_name what n \<and> (\<exists>y \<in> E. y \<noteq> x)
    | Some d1 \<Rightarrow> found (if same_name what n then insert x E else E) (if longer_name what n then insert x P else P) d1"
proof -
  obtain e p where d: "d = (e, p)" by (cases d)
  have s: "map cmap (take (length what) n) = map cmap what \<and> length n = length what \<longleftrightarrow> same_name what n"
    using take_is_prefix [of what n] by (auto simp: same_name_def dest: map_eq_imp_length_eq)
  have l: "map cmap (take (length what) n) = map cmap what \<and> length n \<noteq> length what \<longleftrightarrow> longer_name what n"
    unfolding take_is_prefix longer_name_def strict_prefix_def
    by (metis length_map not_equal_is_parallel prefix_length_prefix prefix_order.eq_iff prefix_same_cases same_name_def s take_is_prefix)
  consider "same_name what n" "\<not> longer_name what n" | "longer_name what n" "\<not> same_name what n"
    | "\<not> same_name what n" "\<not> longer_name what n" using s l by blast
  then show ?thesis
  proof cases
    case 1
    with s have "map cmap (take (length what) n) = map cmap what" "length n = length what" by auto
    with 1 f x d show ?thesis by (auto simp: match_name_def found_def split: if_splits)
  next
    case 2
    with l have "map cmap (take (length what) n) = map cmap what" "length n \<noteq> length what" by auto
    with 2 f x d sole_insert [of x P] show ?thesis by (auto simp: match_name_def found_def split: if_splits)
  next
    case 3
    with s l have "map cmap (take (length what) n) \<noteq> map cmap what" by auto
    with 3 f d show ?thesis by (simp add: match_name_def)
  qed
qed

lemma match_names_found:
  assumes "found E P d" and "0 \<le> x" and "\<forall>y \<in> E \<union> P. 0 \<le> y"
  shows "case match_names what x ns d of
      None \<Rightarrow> (\<exists>n \<in> set ns. same_name what n) \<and> (\<exists>y \<in> E. y \<noteq> x)
    | Some d1 \<Rightarrow> found (E \<union> exact_matches what [(x, ns)]) (P \<union> partial_matches what [(x, ns)]) d1"
  using assms
proof (induction ns arbitrary: E P d)
  case Nil
  then show ?case by (simp add: exact_matches_def partial_matches_def)
next
  case (Cons n ns)
  let ?E = "if same_name what n then insert x E else E" and ?P = "if longer_name what n then insert x P else P"
  note 1 = match_name_found [OF Cons(2,3,4), of what n]
  show ?case
  proof (cases "match_name what x n d")
    case None
    then show ?thesis using 1 by auto
  next
    case (Some d1)
    then have f: "found ?E ?P d1" using 1 by simp
    have nn: "\<forall>y \<in> ?E \<union> ?P. 0 \<le> y" using Cons(3,4) by auto
    have u: "?E \<union> exact_matches what [(x, ns)] = E \<union> exact_matches what [(x, n # ns)]"
      "?P \<union> partial_matches what [(x, ns)] = P \<union> partial_matches what [(x, n # ns)]"
      by (auto simp: exact_matches_def partial_matches_def)
    show ?thesis using Cons(1) [OF f Cons(3) nn] Some u by (auto split: option.splits if_splits)
  qed
qed

lemma matches_append:
  "exact_matches what (cs @ cs') = exact_matches what cs \<union> exact_matches what cs'"
  "partial_matches what (cs @ cs') = partial_matches what cs \<union> partial_matches what cs'"
  by (auto simp: exact_matches_def partial_matches_def)

lemma exact_mono: "set cs \<subseteq> set cs' \<Longrightarrow> exact_matches what cs \<subseteq> exact_matches what cs'"
  by (auto simp: exact_matches_def)

text \<open>The names of the candidates can be read in every state the search goes through.\<close>

definition names_read :: "db \<Rightarrow> (objid \<Rightarrow> string list) \<Rightarrow> objid list \<Rightarrow> bool" where
  "names_read d nms xs \<longleftrightarrow>
     (\<forall>x \<in> set xs. 0 \<le> x \<and> (\<forall>d1. same_but_cache d d1 \<and> db_ok d1 \<longrightarrow>
        (\<exists>d2. object_names x d1 = Some (nms x, d2) \<and> same_but_cache d d2 \<and> db_ok d2)))"

abbreviation named :: "(objid \<Rightarrow> string list) \<Rightarrow> objid list \<Rightarrow> (objid \<times> string list) list" where
  "named nms xs \<equiv> map (\<lambda>x. (x, nms x)) xs"

lemma match_list_found:
  assumes "names_read d nms (seen @ xs)" and "same_but_cache d d1 \<and> db_ok d1"
    and "found (exact_matches what (named nms seen)) (partial_matches what (named nms seen)) st"
  shows "\<exists>r d'. match_list what st xs d1 = Some (r, d') \<and> same_but_cache d d' \<and> db_ok d' \<and>
    (case r of
       None \<Rightarrow> \<exists>x \<in> exact_matches what (named nms (seen @ xs)). \<exists>y \<in> exact_matches what (named nms (seen @ xs)). x \<noteq> y
     | Some st' \<Rightarrow> found (exact_matches what (named nms (seen @ xs))) (partial_matches what (named nms (seen @ xs))) st')"
  using assms
proof (induction xs arbitrary: seen st d1)
  case Nil
  then show ?case by (simp add: sreturn_def)
next
  case (Cons x xs)
  obtain d2 where d2: "object_names x d1 = Some (nms x, d2)" "same_but_cache d d2 \<and> db_ok d2"
    using Cons(2,3) by (auto simp: names_read_def)
  have x: "0 \<le> x" using Cons(2) by (auto simp: names_read_def)
  have nn: "\<forall>y \<in> exact_matches what (named nms seen) \<union> partial_matches what (named nms seen). 0 \<le> y"
    using Cons(2) by (auto simp: names_read_def exact_matches_def partial_matches_def)
  note m = match_names_found [OF Cons(4) x nn, where what = what and ns = "nms x"]
  have sub: "exact_matches what (named nms (seen @ [x])) \<subseteq> exact_matches what (named nms (seen @ x # xs))"
    by (rule exact_mono) auto
  show ?case
  proof (cases "match_names what x (nms x) st")
    case None
    then obtain y where "x \<in> exact_matches what (named nms (seen @ [x]))" "y \<in> exact_matches what (named nms (seen @ [x]))" "y \<noteq> x"
      using m by (auto simp: exact_matches_def)
    then have "\<exists>a \<in> exact_matches what (named nms (seen @ x # xs)). \<exists>b \<in> exact_matches what (named nms (seen @ x # xs)). a \<noteq> b"
      by (intro bexI [of _ y] bexI [of _ x] subsetD [OF sub]) simp_all
    moreover have "match_list what st (x # xs) d1 = Some (None, d2)"
      using None d2(1) by (simp add: match_proc_def run_simps)
    ultimately show ?thesis using d2(2) by (intro exI [of _ None] exI [of _ d2]) simp
  next
    case (Some st1)
    have "found (exact_matches what (named nms (seen @ [x]))) (partial_matches what (named nms (seen @ [x]))) st1"
      using m Some by (simp add: matches_append)
    moreover have step: "match_list what st (x # xs) d1 = match_list what st1 xs d2"
      using Some d2(1) by (simp add: match_proc_def run_simps)
    moreover have e: "(seen @ [x]) @ xs = seen @ x # xs" by simp
    ultimately show ?thesis unfolding step using Cons(1) [of "seen @ [x]" d2 st1, unfolded e] Cons(2) d2(2) by blast
  qed
qed

lemma best_match_found:
  assumes "found (exact_matches what cs) (partial_matches what cs) (e, p)"
  shows "(if e \<noteq> NOTHING then e else p) = best_match what cs"
  using assms by (auto simp: found_def best_match_def sole_def split: if_splits)

lemma sole_many: "x \<in> X \<Longrightarrow> y \<in> X \<Longrightarrow> x \<noteq> y \<Longrightarrow> sole none X = AMBIGUOUS"
  by (auto simp: sole_def)

lemma match_contents_found:
  assumes "names_read d nms (contents_of d player @ contents_of d loc)" and "db_ok d"
    and "db_object_location d player = Some loc"
  shows "\<exists>d'. match_contents player what d =
      Some (best_match what (named nms (contents_of d player @ contents_of d loc)), d') \<and> same_but_cache d d' \<and> db_ok d'"
proof -
  let ?xs = "contents_of d player @ contents_of d loc"
  have "found (exact_matches what (named nms [])) (partial_matches what (named nms [])) (NOTHING, FAILED_MATCH)"
    by (simp add: found_def exact_matches_def partial_matches_def sole_def)
  then have "\<exists>r d'. match_list what (NOTHING, FAILED_MATCH) ?xs d = Some (r, d') \<and> same_but_cache d d' \<and> db_ok d' \<and>
    (case r of
       None \<Rightarrow> \<exists>a \<in> exact_matches what (named nms ?xs). \<exists>b \<in> exact_matches what (named nms ?xs). a \<noteq> b
     | Some st' \<Rightarrow> found (exact_matches what (named nms ?xs)) (partial_matches what (named nms ?xs)) st')"
    by (rule match_list_found [where seen = "[]" and xs = ?xs, unfolded append_Nil,
          OF assms(1) conjI [OF same_but_cache_refl assms(2)]])
  then obtain r d' where r: "match_list what (NOTHING, FAILED_MATCH) ?xs d = Some (r, d')" "same_but_cache d d'" "db_ok d'"
    "case r of
       None \<Rightarrow> \<exists>a \<in> exact_matches what (named nms ?xs). \<exists>b \<in> exact_matches what (named nms ?xs). a \<noteq> b
     | Some st' \<Rightarrow> found (exact_matches what (named nms ?xs)) (partial_matches what (named nms ?xs)) st'"
    by blast
  have "(case r of None \<Rightarrow> AMBIGUOUS | Some (exact, partial) \<Rightarrow> if exact \<noteq> NOTHING then exact else partial) =
    best_match what (named nms ?xs)"
  proof (cases r)
    case None
    with r(4) obtain a b where ab: "a \<in> exact_matches what (named nms ?xs)" "b \<in> exact_matches what (named nms ?xs)" "a \<noteq> b"
      by (simp only: option.case) blast
    then have "exact_matches what (named nms ?xs) \<noteq> {}" by blast
    with sole_many [OF ab] None show ?thesis by (simp only: best_match_def option.case if_True not_False_eq_True)
  next
    case (Some st)
    with r(4) best_match_found [of what "named nms ?xs" "fst st" "snd st"] show ?thesis
      by (simp add: case_prod_beta)
  qed
  with r show ?thesis using assms(3) by (simp add: match_contents_def run_simps)
qed

text \<open>Objects in a database without a single definition of a property have no aliases.\<close>

lemma names_without_aliases:
  assumes "db_ok d" "find_in (objects d) x = Some ob" "\<forall>r t. dbpriv_dereference d r = Some t \<longrightarrow> o_propdefs t = []"
  shows "\<exists>d'. object_names x d = Some ([o_name ob], d') \<and> same_but_cache d d' \<and> db_ok d'"
proof -
  obtain h d' where h: "db_find_property (Perm x) ''aliases'' d = Some (h, d')" "same_but_cache d d'" "db_ok d'"
    using db_find_property_returns [OF assms(1,2)] by blast
  have s: "find_slot e name as n = None" if "\<forall>r t. dbpriv_dereference e r = Some t \<longrightarrow> o_propdefs t = []" for e name as n
    using that by (induction "as" arbitrary: n) (auto split: option.splits)
  have o: "objects d' = objects d" using same_but_cache_objects [OF h(2)] .
  have "h = NoProp"
  proof -
    have b: "find_builtin ''aliases'' ptable = None" by code_simp
    have e: "\<forall>r t. dbpriv_dereference d' r = Some t \<longrightarrow> o_propdefs t = []"
    proof (intro allI impI)
      fix r t assume "dbpriv_dereference d' r = Some t"
      then have "dbpriv_dereference d r = Some t" using h(2)
        by (cases r) (auto simp: same_but_cache_def dbpriv_find_object_def)
      with assms(3) show "o_propdefs t = []" by blast
    qed
    show ?thesis using h(1) s [OF e] assms(2)
      by (auto simp: db_find_property_def b run_simps dbpriv_find_object_def simp del: find_slot.simps split: option.splits)
  qed
  with h o assms(2) show ?thesis by (simp add: object_names_def aliases_def run_simps dbpriv_find_object_def)
qed

section \<open>Properties\<close>

text \<open>
  C34: splitting a line into words undoes quoting: any words, with spaces, quotes, backslashes
  or nothing in them, come back from the line that joins them quoted, with every quote and
  backslash in them escaped.
\<close>

theorem parse_quoted_words: "parse_into_words (build_string (map quoted ws)) = ws"
  unfolding parse_into_words_def by (rule words_quoted)

text \<open>
  C35: a whole alias of a preposition, in any spelling of case, is found as that preposition and
  no other. Yet no command ever matches the alias \<^verbatim>\<open>off of\<close>: the table has
  \<^verbatim>\<open>off\<close> before it, and the \<^verbatim>\<open>of\<close> is left to the indirect object.
\<close>

theorem prep_found:
  assumes "p < length prep_table" and "al \<in> set (prep_table ! p)"
    and "list_all2 (\<lambda>w a. strcasecmp w a = 0) argv al" and "\<forall>w \<in> set argv. c_string w"
  shows "db_find_prep_exact argv = int p \<and> (db_find_prep argv' = Some (14, i, l) \<longrightarrow> l = i)"
proof
  obtain j al' where f: "find_prep_at argv 0 True = Some (j, al')"
    using find_prep_at_exists [OF assms(1,2), of argv 0 True] assms(3)
    by (auto simp: alias_at_all2 list_all2_lengthD)
  note F = find_prep_at_Some [OF f]
  have "list_all2 (\<lambda>w a. strcasecmp w a = 0) argv al'"
    using F(1) by (simp add: alias_at_all2)
  then have "al' = al" using prep_words_eq assms F(2,3) by blast
  then have "j = p" using prep_alias_unique assms(1,2) F(2,3) by blast
  moreover have "argv \<noteq> []" using assms(3) F(4) \<open>al' = al\<close> by auto
  ultimately show "db_find_prep_exact argv = int p" using f by (simp add: db_find_prep_exact_def)
next
  show "db_find_prep argv' = Some (14, i, l) \<longrightarrow> l = i"
  proof
    assume "db_find_prep argv' = Some (14, i, l)"
    then obtain al where al: "find_prep_at argv' i False = Some (14, al)" "l = i + length al - 1"
      by (rule db_find_prep_Some)
    then show "l = i" using off_first [OF al(1)] by simp
  qed
qed

theorem prep_found_witness: "db_find_prep_exact [''ON'', ''Top'', ''OF''] = 4"
proof -
  have "list_all2 (\<lambda>w a. strcasecmp w a = 0) [''ON'', ''Top'', ''OF''] [''on'', ''top'', ''of'']"
    by (simp, intro conjI; code_simp)
  then show ?thesis
    using prep_found [of 4 "[''on'', ''top'', ''of'']" "[''ON'', ''Top'', ''OF'']" "[]" 0 0]
    by (simp add: prep_table_eq c_string_def byte_of_def)
qed

text \<open>
  C9: a parsed command is a partition of its words after the verb: direct object, preposition,
  indirect object. The preposition is an alias of the one recorded, up to case, and starts at
  the first word where any alias matches; without a preposition all words are the direct object.
\<close>

theorem parse_command_parts:
  assumes "parse_command command user d = Some (Some pc, d')"
  shows "\<exists>dobj prep iobj. parse_into_words (fst (command_line command)) = pc_verb pc # dobj @ prep @ iobj \<and>
    pc_args pc = dobj @ prep @ iobj \<and> pc_dobjstr pc = build_string dobj \<and> pc_prepstr pc = build_string prep \<and>
    pc_iobjstr pc = build_string iobj \<and>
    (\<forall>i < length dobj. find_prep_at (pc_args pc) i False = None) \<and>
    (if pc_prep pc = PREP_NONE then prep = [] \<and> iobj = []
     else \<exists>al \<in> set (prep_table ! nat (pc_prep pc)). al \<noteq> [] \<and> list_all2 (\<lambda>w a. strcasecmp w a = 0) prep al)"
proof -
  let ?ws = "parse_into_words (fst (command_line command))"
  obtain v args where ws: "?ws = v # args" using assms by (cases ?ws) (auto simp: parse_command_def sreturn_def)
  obtain prep pstart pend where sp: "prep_span ?ws = (prep, pstart, pend)" by (metis prod_cases3)
  have pc: "pc_verb pc = v" "pc_args pc = args" "pc_prep pc = prep"
    "pc_dobjstr pc = build_string (take (pstart - 1) args)"
    "pc_prepstr pc = (if prep \<noteq> PREP_NONE then build_string (take (pend - pstart + 1) (drop pstart (v # args))) else [])"
    "pc_iobjstr pc = (if prep \<noteq> PREP_NONE then build_string (drop (pend + 1) (v # args)) else [])"
    using assms sp by (auto simp: parse_command_def ws run_simps Let_def split: option.splits prod.splits)
  show ?thesis
  proof (cases "if length ?ws > 1 then db_find_prep args else None")
    case None
    then have n: "prep = PREP_NONE" "pstart = length args + 1" using sp by (auto simp: prep_span_def ws split: if_splits)
    have "find_prep_at args i False = None" if "i < length args" for i
    proof -
      have "db_find_prep args = None" using None that by (cases args) (auto simp: ws)
      then show ?thesis using that find_prep_none [of args "[0..<length args]" i] by (simp add: db_find_prep_def)
    qed
    then show ?thesis using n pc ws by (intro exI [of _ args] exI [of _ "[]"] exI [of _ "[]"]) simp
  next
    case (Some t)
    obtain j i l where t: "t = (j, i, l)" by (cases t)
    then have f: "db_find_prep args = Some (j, i, l)" using Some by (simp split: if_splits)
    then obtain al where al: "find_prep_at args i False = Some (j, al)" "l = i + length al - 1"
      "\<forall>k < i. find_prep_at args k False = None" by (rule db_find_prep_Some)
    note A = find_prep_at_Some [OF al(1)] and W = alias_at_words [OF find_prep_at_Some(1) [OF al(1)]]
    have p: "prep = int j" "pstart = i + 1" "pend = i + length al"
      using sp Some al(2) A(4) by (auto simp: prep_span_def ws t f split: if_splits)
    have len: "i + length al \<le> length args" using W by simp
    have split: "args = take i args @ take (length al) (drop i args) @ drop (i + length al) args"
      by (metis add.commute append_take_drop_id drop_drop)
    show ?thesis
    proof (intro exI conjI)
      show "?ws = pc_verb pc # take i args @ take (length al) (drop i args) @ drop (i + length al) args"
        using split pc(1) ws by simp
      show "pc_args pc = take i args @ take (length al) (drop i args) @ drop (i + length al) args" using split pc(2) by simp
      show "pc_dobjstr pc = build_string (take i args)" using pc p by simp
      show "pc_prepstr pc = build_string (take (length al) (drop i args))"
        using pc(5) p A(4) by (simp add: Suc_diff_le)
      show "pc_iobjstr pc = build_string (drop (i + length al) args)" using pc(6) p by simp
      show "\<forall>k < length (take i args). find_prep_at (pc_args pc) k False = None" using al(3) pc(2) len by simp
      show "if pc_prep pc = PREP_NONE then take (length al) (drop i args) = [] \<and> drop (i + length al) args = []
        else \<exists>al' \<in> set (prep_table ! nat (pc_prep pc)). al' \<noteq> [] \<and>
          list_all2 (\<lambda>w a. strcasecmp w a = 0) (take (length al) (drop i args)) al'"
        using pc(3) p(1) A W by auto
    qed
  qed
qed

theorem parse_command_parts_witness:
  "\<exists>pc d' dobj prep iobj. parse_command ''put #1 In #0'' 1 small_db = Some (Some pc, d') \<and>
    [''put'', ''#1'', ''In'', ''#0''] = pc_verb pc # dobj @ prep @ iobj \<and> pc_args pc = dobj @ prep @ iobj \<and>
    pc_dobjstr pc = build_string dobj \<and> pc_prep pc = 3"
proof -
  have "case parse_command ''put #1 In #0'' 1 small_db of Some (Some pc, d') \<Rightarrow> pc_prep pc = 3 | _ \<Rightarrow> False"
    by code_simp
  then obtain pc d' where pc: "parse_command ''put #1 In #0'' 1 small_db = Some (Some pc, d')" "pc_prep pc = 3"
    by (auto split: option.splits)
  have w: "parse_into_words (fst (command_line ''put #1 In #0'')) = [''put'', ''#1'', ''In'', ''#0'']" by code_simp
  show ?thesis using parse_command_parts [OF pc(1), unfolded w] pc by blast
qed

text \<open>
  C10: the object a player means by a name: what a number sign says, the player, the place, or the
  best match among the contents of the player and of the place: the only object with that very
  name or alias, else, when no name is exact, the only one with a longer name that starts with it.
  Two such objects are ambiguous and none is a failure, in whatever order they are searched, and
  the same object under two of its names is no ambiguity.
\<close>

theorem match_object_result:
  assumes "db_ok d" and "valid d player" and "db_object_location d player = Some loc"
    and "names_read d nms (contents_of d player @ contents_of d loc)"
  shows "\<exists>d'. match_object player name d = Some (
      (if name = [] then NOTHING
       else if hd name = CHR ''#'' then
         (if snd (strtol (tl name)) = [] \<and> valid d (fst (strtol (tl name))) then fst (strtol (tl name)) else FAILED_MATCH)
       else if strcasecmp name ''me'' = 0 then player
       else if strcasecmp name ''here'' = 0 then loc
       else best_match name (named nms (contents_of d player @ contents_of d loc))), d') \<and>
    same_but_cache d d' \<and> db_ok d'"
  using match_contents_found [OF assms(4,1,3), of name] assms(1-3) same_but_cache_refl
  by (auto simp: match_object_def run_simps Let_def)

definition lamp_db :: db where
  "lamp_db = small_db
     \<lparr>objects := [Some (plain_object 0 (POne NOTHING) [1] NOTHING [1]),
                 Some ((plain_object 1 (POne 0) [] 0 []) \<lparr>o_name := ''Lamp''\<rparr>),
                 Some (plain_object 2 (POne NOTHING) [] NOTHING [])]\<rparr>"

lemma lamp_db_ok: "db_ok lamp_db"
proof -
  have "same_shape small_db lamp_db"
    by (rule same_shapeI) (simp_all add: lamp_db_def shape_def small_db_def skeleton_def)
  then show ?thesis using db_ok_same_shape small_db_ok(1) by blast
qed

lemma lamp_db_names: "names_read lamp_db (\<lambda>_. [''Lamp'']) [1]"
proof -
  have "\<exists>d2. object_names 1 d1 = Some ([''Lamp''], d2) \<and> same_but_cache lamp_db d2 \<and> db_ok d2"
    if d1: "same_but_cache lamp_db d1" "db_ok d1" for d1
  proof -
    have o: "objects d1 = objects lamp_db" using d1(1) by (rule same_but_cache_objects)
    have f: "find_in (objects d1) 1 = Some ((plain_object 1 (POne 0) [] 0 []) \<lparr>o_name := ''Lamp''\<rparr>)"
      unfolding o by (simp add: find_in_def lamp_db_def)
    have a: "anon_store d1 = (\<lambda>_. None)" using d1 by (auto simp: same_but_cache_def lamp_db_def small_db_def)
    have "\<forall>r t. dbpriv_dereference d1 r = Some t \<longrightarrow> o_propdefs t = []"
    proof (intro allI impI)
      fix r t assume t: "dbpriv_dereference d1 r = Some t"
      then obtain i where "find_in (objects lamp_db) i = Some t"
        using a o by (cases r) (auto simp: dbpriv_find_object_def)
      then have "nat i < length (objects lamp_db)" "objects lamp_db ! nat i = Some t"
        by (simp_all add: find_in_def split: if_splits) linarith
      then have "Some t \<in> set (objects lamp_db)" by (metis nth_mem)
      then show "o_propdefs t = []" by (auto simp: lamp_db_def plain_object_def)
    qed
    from names_without_aliases [OF d1(2) f this] same_but_cache_trans [OF d1(1)]
    show ?thesis by auto
  qed
  then show ?thesis by (simp add: names_read_def)
qed

theorem match_object_result_witness:
  "\<exists>d'. match_object 1 ''LA'' lamp_db = Some (1, d') \<and> same_but_cache lamp_db d' \<and> db_ok d'"
proof -
  have c: "contents_of lamp_db 1 @ contents_of lamp_db 0 = [1]" by code_simp
  have n: "names_read lamp_db (\<lambda>_. [''Lamp'']) (contents_of lamp_db 1 @ contents_of lamp_db 0)"
    unfolding c by (rule lamp_db_names)
  have v: "valid lamp_db 1" "db_object_location lamp_db 1 = Some 0" by code_simp+
  have s: "strcasecmp ''LA'' ''me'' \<noteq> 0" "strcasecmp ''LA'' ''here'' \<noteq> 0" by code_simp+
  have m: "map cmap ''LA'' = ''la''" "map cmap ''Lamp'' = ''lamp''" by code_simp+
  have "longer_name ''LA'' ''Lamp''" "\<not> same_name ''LA'' ''Lamp''"
    unfolding longer_name_def same_name_def m by simp_all
  then have "partial_matches ''LA'' [(1, [''Lamp''])] = {1}" "exact_matches ''LA'' [(1, [''Lamp''])] = {}"
    by (auto simp: partial_matches_def exact_matches_def)
  then have "best_match ''LA'' [(1, [''Lamp''])] = 1" by (simp add: best_match_def sole_def)
  with match_object_result [OF lamp_db_ok v n, of "''LA''"] s show ?thesis by (simp add: c)
qed

end
