(* ===== verification/CodeGen.thy ===== *)
theory CodeGen
  imports Values
begin

text \<open>
  The code generator of \<^verbatim>\<open>code_gen.cc\<close>: from the syntax trees of
  \<^verbatim>\<open>ast.h\<close> to the byte codes of \<^verbatim>\<open>opcode.h\<close>. Code is first
  generated with one byte in the place of every operand and a fixup that says what belongs
  there; \<open>stmt_to_code\<close> then chooses the widths of the operands and expands it. Arrays
  that grow are lists, and counters are natural numbers: the model says nothing of programs
  with \<open>2 ^ 32\<close> bytes of code. \<open>None\<close> is a panic, or a stack counter below zero.
\<close>

section \<open>Opcodes\<close>

abbreviation (input) "NUM_READY_VARS \<equiv> 32 :: nat"

abbreviation (input) "OP_IF \<equiv> 0 :: nat"
abbreviation (input) "OP_WHILE \<equiv> 1 :: nat"
abbreviation (input) "OP_EIF \<equiv> 2 :: nat"
abbreviation (input) "OP_FORK \<equiv> 3 :: nat"
abbreviation (input) "OP_FORK_WITH_ID \<equiv> 4 :: nat"
abbreviation (input) "OP_FOR_RANGE \<equiv> 6 :: nat"
abbreviation (input) "OP_INDEXSET \<equiv> 7 :: nat"
abbreviation (input) "OP_PUSH_GET_PROP \<equiv> 8 :: nat"
abbreviation (input) "OP_GET_PROP \<equiv> 9 :: nat"
abbreviation (input) "OP_CALL_VERB \<equiv> 10 :: nat"
abbreviation (input) "OP_PUT_PROP \<equiv> 11 :: nat"
abbreviation (input) "OP_BI_FUNC_CALL \<equiv> 12 :: nat"
abbreviation (input) "OP_IF_QUES \<equiv> 13 :: nat"
abbreviation (input) "OP_REF \<equiv> 14 :: nat"
abbreviation (input) "OP_RANGE_REF \<equiv> 15 :: nat"
abbreviation (input) "OP_MAKE_SINGLETON_LIST \<equiv> 16 :: nat"
abbreviation (input) "OP_CHECK_LIST_FOR_SPLICE \<equiv> 17 :: nat"
abbreviation (input) "OP_MULT \<equiv> 18 :: nat"
abbreviation (input) "OP_DIV \<equiv> 19 :: nat"
abbreviation (input) "OP_MOD \<equiv> 20 :: nat"
abbreviation (input) "OP_ADD \<equiv> 21 :: nat"
abbreviation (input) "OP_MINUS \<equiv> 22 :: nat"
abbreviation (input) "OP_EQ \<equiv> 23 :: nat"
abbreviation (input) "OP_NE \<equiv> 24 :: nat"
abbreviation (input) "OP_LT \<equiv> 25 :: nat"
abbreviation (input) "OP_LE \<equiv> 26 :: nat"
abbreviation (input) "OP_GT \<equiv> 27 :: nat"
abbreviation (input) "OP_GE \<equiv> 28 :: nat"
abbreviation (input) "OP_IN \<equiv> 29 :: nat"
abbreviation (input) "OP_AND \<equiv> 30 :: nat"
abbreviation (input) "OP_OR \<equiv> 31 :: nat"
abbreviation (input) "OP_UNARY_MINUS \<equiv> 32 :: nat"
abbreviation (input) "OP_NOT \<equiv> 33 :: nat"
abbreviation (input) "OP_PUT \<equiv> 34 :: nat"
abbreviation (input) "OP_G_PUT \<equiv> OP_PUT + NUM_READY_VARS"
abbreviation (input) "OP_PUSH \<equiv> 67 :: nat"
abbreviation (input) "OP_G_PUSH \<equiv> OP_PUSH + NUM_READY_VARS"
abbreviation (input) "OP_PUSH_CLEAR \<equiv> 100 :: nat"
abbreviation (input) "OP_G_PUSH_CLEAR \<equiv> OP_PUSH_CLEAR + NUM_READY_VARS"
abbreviation (input) "OP_IMM \<equiv> 133 :: nat"
abbreviation (input) "OP_MAKE_EMPTY_LIST \<equiv> 134 :: nat"
abbreviation (input) "OP_LIST_ADD_TAIL \<equiv> 135 :: nat"
abbreviation (input) "OP_LIST_APPEND \<equiv> 136 :: nat"
abbreviation (input) "OP_PUSH_REF \<equiv> 137 :: nat"
abbreviation (input) "OP_PUT_TEMP \<equiv> 138 :: nat"
abbreviation (input) "OP_PUSH_TEMP \<equiv> 139 :: nat"
abbreviation (input) "OP_JUMP \<equiv> 140 :: nat"
abbreviation (input) "OP_RETURN \<equiv> 141 :: nat"
abbreviation (input) "OP_RETURN0 \<equiv> 142 :: nat"
abbreviation (input) "OP_DONE \<equiv> 143 :: nat"
abbreviation (input) "OP_POP \<equiv> 144 :: nat"
abbreviation (input) "OP_EXTENDED \<equiv> 145 :: nat"
abbreviation (input) "OP_MAP_CREATE \<equiv> 146 :: nat"
abbreviation (input) "OP_MAP_INSERT \<equiv> 147 :: nat"
abbreviation (input) "OPTIM_NUM_START \<equiv> 148 :: nat"

abbreviation (input) "EOP_RANGESET \<equiv> 0 :: nat"
abbreviation (input) "EOP_FIRST \<equiv> 2 :: nat"
abbreviation (input) "EOP_LAST \<equiv> 3 :: nat"
abbreviation (input) "EOP_PUSH_LABEL \<equiv> 4 :: nat"
abbreviation (input) "EOP_END_CATCH \<equiv> 5 :: nat"
abbreviation (input) "EOP_END_EXCEPT \<equiv> 6 :: nat"
abbreviation (input) "EOP_END_FINALLY \<equiv> 7 :: nat"
abbreviation (input) "EOP_CONTINUE \<equiv> 8 :: nat"
abbreviation (input) "EOP_CATCH \<equiv> 9 :: nat"
abbreviation (input) "EOP_TRY_EXCEPT \<equiv> 10 :: nat"
abbreviation (input) "EOP_TRY_FINALLY \<equiv> 11 :: nat"
abbreviation (input) "EOP_WHILE_ID \<equiv> 12 :: nat"
abbreviation (input) "EOP_EXIT \<equiv> 13 :: nat"
abbreviation (input) "EOP_EXIT_ID \<equiv> 14 :: nat"
abbreviation (input) "EOP_SCATTER \<equiv> 15 :: nat"
abbreviation (input) "EOP_EXP \<equiv> 16 :: nat"
abbreviation (input) "EOP_FOR_LIST_1 \<equiv> 17 :: nat"
abbreviation (input) "EOP_FOR_LIST_2 \<equiv> 18 :: nat"
abbreviation (input) "EOP_BITOR \<equiv> 19 :: nat"
abbreviation (input) "EOP_BITAND \<equiv> 20 :: nat"
abbreviation (input) "EOP_BITXOR \<equiv> 21 :: nat"
abbreviation (input) "EOP_BITSHL \<equiv> 22 :: nat"
abbreviation (input) "EOP_BITSHR \<equiv> 23 :: nat"
abbreviation (input) "EOP_COMPLEMENT \<equiv> 24 :: nat"

text \<open>The opcodes that are small integers.\<close>

definition OPTIM_NUM_TO_OPCODE :: "int \<Rightarrow> nat" where
  "OPTIM_NUM_TO_OPCODE i = nat (148 + i + 10)"

definition IN_OPTIM_NUM_RANGE :: "int \<Rightarrow> bool" where
  "IN_OPTIM_NUM_RANGE i \<longleftrightarrow> - 10 \<le> i \<and> i \<le> 97"

section \<open>Syntax trees\<close>

text \<open>
  \<^verbatim>\<open>ast.h\<close>: the kinds of expression with one constructor per shape; the linked
  lists of arguments, mappings and scatter targets are lists of their own.
\<close>

datatype binary_kind =
    EXPR_PLUS | EXPR_MINUS | EXPR_TIMES | EXPR_DIVIDE | EXPR_MOD
  | EXPR_EQ | EXPR_NE | EXPR_LT | EXPR_LE | EXPR_GT | EXPR_GE | EXPR_IN | EXPR_PROP
  | EXPR_EXP | EXPR_BITOR | EXPR_BITAND | EXPR_BITXOR | EXPR_BITSHL | EXPR_BITSHR

datatype unary_kind = EXPR_NEGATE | EXPR_NOT | EXPR_COMPLEMENT

datatype arg_kind = ARG_NORMAL | ARG_SPLICE

datatype scatter_kind = SCAT_REQUIRED | SCAT_OPTIONAL | SCAT_REST

datatype expr =
    EXPR_VAR var
  | EXPR_ID nat
  | EXPR_BINARY binary_kind expr expr
  | EXPR_UNARY unary_kind expr
  | EXPR_AND expr expr
  | EXPR_OR expr expr
  | EXPR_VERB expr expr args
  | EXPR_INDEX expr expr
  | EXPR_RANGE expr expr expr
  | EXPR_FIRST
  | EXPR_LAST
  | EXPR_ASGN expr expr
  | EXPR_CALL nat args
  | EXPR_LIST args
  | EXPR_MAP maps
  | EXPR_COND expr expr expr
  | EXPR_CATCH expr args "expr option"
  | EXPR_SCATTER scatter
and args = ANil | ACons arg_kind expr args
and maps = MNil | MCons expr expr maps
and scatter = SNil | SCons scatter_kind nat "expr option" scatter

datatype stmt =
    STMT_COND arms stmts
  | STMT_LIST nat "nat option" expr stmts
  | STMT_RANGE nat expr expr stmts
  | STMT_WHILE "nat option" expr stmts
  | STMT_FORK "nat option" expr stmts
  | STMT_EXPR expr
  | STMT_RETURN "expr option"
  | STMT_TRY_EXCEPT stmts excepts
  | STMT_TRY_FINALLY stmts stmts
  | STMT_BREAK "nat option"
  | STMT_CONTINUE "nat option"
and stmts = StNil | StCons stmt stmts
and arms = IfNil | IfCons expr stmts arms
and excepts = ExNil | ExCons "nat option" args stmts excepts

section \<open>The state of the generator\<close>

datatype fixup_kind = FIXUP_LITERAL | FIXUP_FORK | FIXUP_LABEL | FIXUP_VAR_REF | FIXUP_STACK

record fixup =
  f_kind :: fixup_kind
  f_pc :: nat
  f_value :: nat
  f_prev_literals :: nat
  f_prev_forks :: nat
  f_prev_var_refs :: nat
  f_prev_labels :: nat
  f_prev_stacks :: nat
  f_next :: "nat option"

record bytecodes =
  numbytes_label :: nat
  numbytes_literal :: nat
  numbytes_fork :: nat
  numbytes_var_name :: nat
  numbytes_stack :: nat
  bc_vector :: "nat list"
  bc_size :: nat
  bc_max_stack :: nat

record gstate =
  g_total_var_refs :: nat
  g_literals :: "var list"
  g_fork_vectors :: "bytecodes list"

record code_loop =
  l_id :: "nat option"
  l_index :: "nat option"
  l_top_label :: fixup
  l_top_stack :: nat
  l_bottom_label :: nat
  l_bottom_stack :: nat

text \<open>
  The loops are a stack, innermost first; \<open>saved_stack\<close> is \<open>None\<close> for
  \<^verbatim>\<open>UINT_MAX\<close>.
\<close>

record state =
  max_literal :: nat
  max_fork :: nat
  max_var_ref :: nat
  num_literals :: nat
  num_forks :: nat
  num_var_refs :: nat
  num_labels :: nat
  num_stacks :: nat
  fixups :: "fixup list"
  bytes :: "nat list"
  pushmap :: "nat list"
  trymap :: "nat list"
  try_depth :: nat
  cur_stack :: nat
  max_stack :: nat
  saved_stack :: "nat option"
  loops :: "code_loop list"
  the_gstate :: gstate

type_synonym gen = "state \<Rightarrow> state option"

definition init_gstate :: gstate where
  "init_gstate = \<lparr>g_total_var_refs = 0, g_literals = [], g_fork_vectors = []\<rparr>"

definition init_state :: "gstate \<Rightarrow> state" where
  "init_state g =
     \<lparr>max_literal = 0, max_fork = 0, max_var_ref = 0, num_literals = 0, num_forks = 0, num_var_refs = 0,
      num_labels = 0, num_stacks = 0, fixups = [], bytes = [], pushmap = [], trymap = [], try_depth = 0,
      cur_stack = 0, max_stack = 0, saved_stack = None, loops = [], the_gstate = g\<rparr>"

text \<open>One step after the other.\<close>

fun steps :: "('s \<Rightarrow> 's option) list \<Rightarrow> 's \<Rightarrow> 's option" where
  "steps [] s = Some s"
| "steps (f # fs) s = (case f s of None \<Rightarrow> None | Some s1 \<Rightarrow> steps fs s1)"

section \<open>Bytes and fixups\<close>

definition mark_byte :: "nat \<Rightarrow> nat \<Rightarrow> gen" where
  "mark_byte m b s = Some (s\<lparr>bytes := bytes s @ [b mod 256], pushmap := pushmap s @ [m], trymap := trymap s @ [try_depth s mod 256]\<rparr>)"

definition emit_byte :: "nat \<Rightarrow> gen" where
  "emit_byte b = mark_byte 0 b"

definition emit_extended_byte :: "nat \<Rightarrow> gen" where
  "emit_extended_byte b = steps [emit_byte OP_EXTENDED, emit_byte b]"

definition add_known_fixup :: "fixup \<Rightarrow> gen" where
  "add_known_fixup f s = emit_byte 0 (s\<lparr>fixups := fixups s @ [f\<lparr>f_pc := length (bytes s)\<rparr>]\<rparr>)"

definition new_fixup :: "fixup_kind \<Rightarrow> nat \<Rightarrow> nat option \<Rightarrow> state \<Rightarrow> fixup" where
  "new_fixup kind value next s =
     \<lparr>f_kind = kind, f_pc = 0, f_value = value, f_prev_literals = num_literals s, f_prev_forks = num_forks s,
      f_prev_var_refs = num_var_refs s, f_prev_labels = num_labels s, f_prev_stacks = num_stacks s, f_next = next\<rparr>"

definition add_linked_fixup :: "fixup_kind \<Rightarrow> nat \<Rightarrow> nat option \<Rightarrow> gen" where
  "add_linked_fixup kind value next s = add_known_fixup (new_fixup kind value next s) s"

definition add_fixup :: "fixup_kind \<Rightarrow> nat \<Rightarrow> gen" where
  "add_fixup kind value = add_linked_fixup kind value None"

fun literal_index :: "var \<Rightarrow> var list \<Rightarrow> nat option" where
  "literal_index v [] = Some 0"
| "literal_index v (w # ws) =
     (if type_of v = type_of w then
        (case equality v w True of
           None \<Rightarrow> None
         | Some e \<Rightarrow> if e then Some 0 else map_option Suc (literal_index v ws))
      else map_option Suc (literal_index v ws))"

definition add_literal :: "var \<Rightarrow> gen" where
  "add_literal v s =
     (case literal_index v (g_literals (the_gstate s)) of
        None \<Rightarrow> None
      | Some i \<Rightarrow>
          steps
            [\<lambda>s. Some (if i = length (g_literals (the_gstate s))
                        then s\<lparr>the_gstate := (the_gstate s)\<lparr>g_literals := g_literals (the_gstate s) @ [v]\<rparr>\<rparr> else s),
             add_fixup FIXUP_LITERAL i,
             \<lambda>s. Some (s\<lparr>num_literals := num_literals s + 1, max_literal := max i (max_literal s)\<rparr>)] s)"

definition add_fork :: "bytecodes \<Rightarrow> gen" where
  "add_fork b s =
     (let i = length (g_fork_vectors (the_gstate s)) in
      steps
        [\<lambda>s. Some (s\<lparr>the_gstate := (the_gstate s)\<lparr>g_fork_vectors := g_fork_vectors (the_gstate s) @ [b]\<rparr>\<rparr>),
         add_fixup FIXUP_FORK i,
         \<lambda>s. Some (s\<lparr>num_forks := num_forks s + 1, max_fork := max i (max_fork s)\<rparr>)] s)"

definition add_var_ref :: "nat \<Rightarrow> gen" where
  "add_var_ref slot =
     steps
       [add_fixup FIXUP_VAR_REF slot,
        \<lambda>s. Some (s\<lparr>num_var_refs := num_var_refs s + 1, max_var_ref := max slot (max_var_ref s),
           the_gstate := (the_gstate s)\<lparr>g_total_var_refs := g_total_var_refs (the_gstate s) + 1\<rparr>\<rparr>)]"

text \<open>The label that comes next has the number of fixups for its index.\<close>

definition next_label :: "(nat \<Rightarrow> gen) \<Rightarrow> gen" where
  "next_label f s = f (length (fixups s)) s"

definition count_label :: gen where
  "count_label s = Some (s\<lparr>num_labels := num_labels s + 1\<rparr>)"

definition add_linked_label :: "nat option \<Rightarrow> gen" where
  "add_linked_label next = steps [add_linked_fixup FIXUP_LABEL 0 next, count_label]"

definition add_label :: gen where
  "add_label = add_linked_label None"

definition add_pseudo_label :: "nat \<Rightarrow> gen" where
  "add_pseudo_label value =
     steps
       [add_known_fixup
          \<lparr>f_kind = FIXUP_LABEL, f_pc = 0, f_value = value, f_prev_literals = 0, f_prev_forks = 0,
           f_prev_var_refs = 0, f_prev_labels = 0, f_prev_stacks = 0, f_next = None\<rparr>,
        count_label]"

definition add_known_label :: "fixup \<Rightarrow> gen" where
  "add_known_label f = steps [add_known_fixup f, count_label]"

definition capture_label :: "state \<Rightarrow> fixup" where
  "capture_label s = new_fixup FIXUP_LABEL (length (bytes s)) None s"

text \<open>
  \<^verbatim>\<open>define_label\<close> follows the chain of a label. A link leads to an older fixup,
  so the chain is shorter than the list.
\<close>

definition point_here :: "state \<Rightarrow> fixup \<Rightarrow> fixup" where
  "point_here s f =
     f\<lparr>f_value := length (bytes s), f_prev_literals := num_literals s, f_prev_forks := num_forks s,
       f_prev_var_refs := num_var_refs s, f_prev_labels := num_labels s, f_prev_stacks := num_stacks s\<rparr>"

fun define_chain :: "nat \<Rightarrow> nat option \<Rightarrow> gen" where
  "define_chain fuel None s = Some s"
| "define_chain 0 (Some label) s = None"
| "define_chain (Suc fuel) (Some label) s =
     (if label < length (fixups s)
      then define_chain fuel (f_next (fixups s ! label))
             (s\<lparr>fixups := (fixups s)[label := point_here s (fixups s ! label)]\<rparr>)
      else None)"

definition define_label :: "nat option \<Rightarrow> gen" where
  "define_label label s = define_chain (length (fixups s)) label s"

definition add_stack_ref :: "nat \<Rightarrow> gen" where
  "add_stack_ref index = add_fixup FIXUP_STACK index"

section \<open>The stack and the loops\<close>

definition push_stack :: "nat \<Rightarrow> gen" where
  "push_stack n s = Some (s\<lparr>cur_stack := cur_stack s + n, max_stack := max (cur_stack s + n) (max_stack s)\<rparr>)"

definition pop_stack :: "nat \<Rightarrow> gen" where
  "pop_stack n s = (if n \<le> cur_stack s then Some (s\<lparr>cur_stack := cur_stack s - n\<rparr>) else None)"

text \<open>
  The steps between \<^verbatim>\<open>save_stack_top\<close> and \<^verbatim>\<open>restore_stack_top\<close>.
\<close>

definition with_stack_top :: "gen \<Rightarrow> gen" where
  "with_stack_top f s =
     (if cur_stack s = 0 then None
      else map_option (\<lambda>s1. s1\<lparr>saved_stack := saved_stack s\<rparr>) (f (s\<lparr>saved_stack := Some (cur_stack s - 1)\<rparr>)))"

definition enter_loop :: "nat option \<Rightarrow> nat option \<Rightarrow> fixup \<Rightarrow> nat \<Rightarrow> nat \<Rightarrow> nat \<Rightarrow> gen" where
  "enter_loop i index top_label top_stack bottom_label bottom_stack s =
     Some (s\<lparr>loops := \<lparr>l_id = i, l_index = index, l_top_label = top_label, l_top_stack = top_stack,
       l_bottom_label = bottom_label, l_bottom_stack = bottom_stack\<rparr> # loops s\<rparr>)"

definition exit_loop :: "(nat \<Rightarrow> gen) \<Rightarrow> gen" where
  "exit_loop f s = (case loops s of [] \<Rightarrow> None | l # ls \<Rightarrow> f (l_bottom_label l) (s\<lparr>loops := ls\<rparr>))"

definition in_try :: "gen \<Rightarrow> gen" where
  "in_try f s = map_option (\<lambda>s1. s1\<lparr>try_depth := try_depth s1 - 1\<rparr>) (f (s\<lparr>try_depth := try_depth s + 1\<rparr>))"

definition emit_call_verb_op :: "nat \<Rightarrow> gen" where
  "emit_call_verb_op op = mark_byte OP_CALL_VERB op"

definition emit_ending_op :: "nat \<Rightarrow> gen" where
  "emit_ending_op op = mark_byte OP_DONE op"

definition emit_var_op :: "nat \<Rightarrow> nat \<Rightarrow> gen" where
  "emit_var_op op slot =
     (if slot \<ge> NUM_READY_VARS then steps [emit_byte (op + NUM_READY_VARS), add_var_ref slot]
      else mark_byte op (op + slot))"

section \<open>Expressions\<close>

fun binary_code :: "binary_kind \<Rightarrow> gen" where
  "binary_code EXPR_PLUS = emit_byte OP_ADD"
| "binary_code EXPR_MINUS = emit_byte OP_MINUS"
| "binary_code EXPR_TIMES = emit_byte OP_MULT"
| "binary_code EXPR_DIVIDE = emit_byte OP_DIV"
| "binary_code EXPR_MOD = emit_byte OP_MOD"
| "binary_code EXPR_EQ = emit_byte OP_EQ"
| "binary_code EXPR_NE = emit_byte OP_NE"
| "binary_code EXPR_LT = emit_byte OP_LT"
| "binary_code EXPR_LE = emit_byte OP_LE"
| "binary_code EXPR_GT = emit_byte OP_GT"
| "binary_code EXPR_GE = emit_byte OP_GE"
| "binary_code EXPR_IN = emit_byte OP_IN"
| "binary_code EXPR_PROP = emit_byte OP_GET_PROP"
| "binary_code EXPR_EXP = emit_extended_byte EOP_EXP"
| "binary_code EXPR_BITOR = emit_extended_byte EOP_BITOR"
| "binary_code EXPR_BITAND = emit_extended_byte EOP_BITAND"
| "binary_code EXPR_BITXOR = emit_extended_byte EOP_BITXOR"
| "binary_code EXPR_BITSHL = emit_extended_byte EOP_BITSHL"
| "binary_code EXPR_BITSHR = emit_extended_byte EOP_BITSHR"

fun unary_code :: "unary_kind \<Rightarrow> gen" where
  "unary_code EXPR_NEGATE = emit_byte OP_UNARY_MINUS"
| "unary_code EXPR_NOT = emit_byte OP_NOT"
| "unary_code EXPR_COMPLEMENT = emit_extended_byte EOP_COMPLEMENT"

definition generate_var :: "var \<Rightarrow> gen" where
  "generate_var v =
     steps
       [(case v of
           VINT n \<Rightarrow>
             if IN_OPTIM_NUM_RANGE (sint n) then emit_byte (OPTIM_NUM_TO_OPCODE (sint n))
             else steps [emit_byte OP_IMM, add_literal v]
         | _ \<Rightarrow> steps [emit_byte OP_IMM, add_literal v]),
        push_stack 1]"

text \<open>The index of the value that a circumflex or dollar sign stands for.\<close>

definition stack_top_code :: "nat \<Rightarrow> gen" where
  "stack_top_code op s =
     (case saved_stack s of
        None \<Rightarrow> None
      | Some i \<Rightarrow> steps [emit_extended_byte op, add_stack_ref i, push_stack 1] s)"

text \<open>The targets of a scattering assignment: their number and kinds, references and labels.\<close>

fun scatter_counts :: "nat \<Rightarrow> nat \<Rightarrow> nat option \<Rightarrow> scatter \<Rightarrow> nat \<times> nat \<times> nat option" where
  "scatter_counts nargs nreq rest SNil = (nargs, nreq, rest)"
| "scatter_counts nargs nreq rest (SCons k i d sc) =
     scatter_counts (nargs + 1) (if k = SCAT_REQUIRED then nreq + 1 else nreq)
       (if k = SCAT_REST then Some (nargs + 1) else rest) sc"

fun scatter_refs :: "scatter \<Rightarrow> gen" where
  "scatter_refs SNil = steps []"
| "scatter_refs (SCons k i d sc) =
     steps
       [add_var_ref i,
        if k \<noteq> SCAT_OPTIONAL then add_pseudo_label 0
        else if d = None then add_pseudo_label 1
        else add_label,
        scatter_refs sc]"

definition scatter_head :: "scatter \<Rightarrow> gen" where
  "scatter_head sc =
     (case scatter_counts 0 0 None sc of (nargs, nreq, rest) \<Rightarrow>
       steps
         [emit_extended_byte EOP_SCATTER, emit_byte nargs, emit_byte nreq,
          emit_byte (case rest of None \<Rightarrow> nargs + 1 | Some r \<Rightarrow> r)])"

text \<open>The stores after the right-hand side, outwards from the innermost index.\<close>

fun store_back :: "bool \<Rightarrow> expr \<Rightarrow> gen" where
  "store_back is_indexed (EXPR_RANGE base from to) =
     steps [emit_extended_byte EOP_RANGESET, pop_stack 3, store_back True base]"
| "store_back is_indexed (EXPR_INDEX base index) =
     steps [emit_byte OP_INDEXSET, pop_stack 2, store_back True base]"
| "store_back is_indexed (EXPR_ID i) =
     steps [emit_var_op OP_PUT i,
       if is_indexed then steps [emit_byte OP_POP, emit_byte OP_PUSH_TEMP] else steps []]"
| "store_back is_indexed (EXPR_BINARY k l r) =
     (if k = EXPR_PROP then
        steps [emit_byte OP_PUT_PROP, pop_stack 2,
          if is_indexed then steps [emit_byte OP_POP, emit_byte OP_PUSH_TEMP] else steps []]
      else (\<lambda>s. None))"
| "store_back is_indexed _ = (\<lambda>s. None)"

fun is_indexing :: "expr \<Rightarrow> bool" where
  "is_indexing (EXPR_RANGE b f t) = True"
| "is_indexing (EXPR_INDEX b i) = True"
| "is_indexing _ = False"

text \<open>
  The opcode after an argument: the first makes the list, the others add to it.
\<close>

definition arg_code :: "bool \<Rightarrow> arg_kind \<Rightarrow> gen" where
  "arg_code first kind =
     (if first then emit_byte (if kind = ARG_NORMAL then OP_MAKE_SINGLETON_LIST else OP_CHECK_LIST_FOR_SPLICE)
      else steps [emit_byte (if kind = ARG_NORMAL then OP_LIST_ADD_TAIL else OP_LIST_APPEND), pop_stack 1])"

fun generate_expr :: "expr \<Rightarrow> gen"
  and generate_args :: "bool \<Rightarrow> args \<Rightarrow> gen"
  and generate_codes :: "args \<Rightarrow> gen"
  and generate_map_list :: "maps \<Rightarrow> gen"
  and push_lvalue :: "bool \<Rightarrow> expr \<Rightarrow> gen"
  and scatter_defaults :: "nat \<Rightarrow> scatter \<Rightarrow> gen" where
  "generate_expr (EXPR_VAR v) = generate_var v"
| "generate_expr (EXPR_ID i) = steps [emit_var_op OP_PUSH i, push_stack 1]"
| "generate_expr (EXPR_BINARY k l r) = steps [generate_expr l, generate_expr r, binary_code k, pop_stack 1]"
| "generate_expr (EXPR_UNARY k e) = steps [generate_expr e, unary_code k]"
| "generate_expr (EXPR_AND l r) =
     steps [generate_expr l, emit_byte OP_AND, next_label (\<lambda>end_label.
       steps [add_label, pop_stack 1, generate_expr r, define_label (Some end_label)])]"
| "generate_expr (EXPR_OR l r) =
     steps [generate_expr l, emit_byte OP_OR, next_label (\<lambda>end_label.
       steps [add_label, pop_stack 1, generate_expr r, define_label (Some end_label)])]"
| "generate_expr (EXPR_VERB obj verb args) =
     steps [generate_expr obj, generate_expr verb, generate_args True args, emit_call_verb_op OP_CALL_VERB, pop_stack 2]"
| "generate_expr (EXPR_INDEX l r) =
     steps [generate_expr l, with_stack_top (generate_expr r), emit_byte OP_REF, pop_stack 1]"
| "generate_expr (EXPR_RANGE base from to) =
     steps [generate_expr base, with_stack_top (steps [generate_expr from, generate_expr to]),
       emit_byte OP_RANGE_REF, pop_stack 2]"
| "generate_expr EXPR_FIRST = stack_top_code EOP_FIRST"
| "generate_expr EXPR_LAST = stack_top_code EOP_LAST"
| "generate_expr (EXPR_ASGN l r) =
     (case l of
        EXPR_SCATTER sc \<Rightarrow>
          steps [generate_expr r, scatter_head sc, next_label (\<lambda>first.
            steps [scatter_refs sc, next_label (\<lambda>done_label.
              steps [add_label, scatter_defaults (first + 1) sc, define_label (Some done_label)])])]
      | _ \<Rightarrow>
          steps [push_lvalue False l, generate_expr r, if is_indexing l then emit_byte OP_PUT_TEMP else steps [],
            store_back False l])"
| "generate_expr (EXPR_CALL func args) =
     steps [generate_args True args, emit_byte OP_BI_FUNC_CALL, emit_byte func]"
| "generate_expr (EXPR_LIST args) = generate_args True args"
| "generate_expr (EXPR_MAP maps) = steps [emit_byte OP_MAP_CREATE, push_stack 1, generate_map_list maps]"
| "generate_expr (EXPR_COND c t e) =
     steps [generate_expr c, emit_byte OP_IF_QUES, next_label (\<lambda>else_label.
       steps [add_label, pop_stack 1, generate_expr t, emit_byte OP_JUMP, next_label (\<lambda>end_label.
         steps [add_label, pop_stack 1, define_label (Some else_label), generate_expr e,
           define_label (Some end_label)])])]"
| "generate_expr (EXPR_CATCH e codes dflt) =
     steps [generate_codes codes, emit_extended_byte EOP_PUSH_LABEL, next_label (\<lambda>handler_label.
       steps [add_label, push_stack 1, emit_extended_byte EOP_CATCH, push_stack 1,
         in_try (generate_expr e), emit_extended_byte EOP_END_CATCH, next_label (\<lambda>end_label.
         steps [add_label, pop_stack 3, define_label (Some handler_label),
           case dflt of
             Some d \<Rightarrow> steps [emit_byte OP_POP, pop_stack 1, generate_expr d]
           | None \<Rightarrow> steps [emit_byte (OPTIM_NUM_TO_OPCODE 1), emit_byte OP_REF],
           define_label (Some end_label)])])]"
| "generate_expr (EXPR_SCATTER sc) = (\<lambda>s. None)"
| "generate_args first ANil = (if first then steps [emit_byte OP_MAKE_EMPTY_LIST, push_stack 1] else steps [])"
| "generate_args first (ACons kind e args) =
     steps [generate_expr e, arg_code first kind, generate_args False args]"
| "generate_codes codes =
     (case codes of
        ANil \<Rightarrow> steps [emit_byte (OPTIM_NUM_TO_OPCODE 0), push_stack 1]
      | ACons kind e args \<Rightarrow> steps [generate_expr e, arg_code True kind, generate_args False args])"
| "generate_map_list MNil = steps []"
| "generate_map_list (MCons key val maps) =
     steps [generate_expr val, generate_expr key, emit_byte OP_MAP_INSERT, pop_stack 2, generate_map_list maps]"
| "push_lvalue indexed_above (EXPR_RANGE base from to) =
     steps [push_lvalue True base, with_stack_top (steps [generate_expr from, generate_expr to])]"
| "push_lvalue indexed_above (EXPR_INDEX base index) =
     steps [push_lvalue True base, with_stack_top (generate_expr index),
       if indexed_above then steps [emit_byte OP_PUSH_REF, push_stack 1] else steps []]"
| "push_lvalue indexed_above (EXPR_ID i) =
     (if indexed_above then steps [emit_var_op OP_PUSH i, push_stack 1] else steps [])"
| "push_lvalue indexed_above (EXPR_BINARY k l r) =
     (if k = EXPR_PROP then
        steps [generate_expr l, generate_expr r,
          if indexed_above then steps [emit_byte OP_PUSH_GET_PROP, push_stack 1] else steps []]
      else (\<lambda>s. None))"
| "push_lvalue indexed_above _ = (\<lambda>s. None)"
| "scatter_defaults label SNil = steps []"
| "scatter_defaults label (SCons k i d sc) =
     steps
       [case d of
          Some e \<Rightarrow>
            (if k = SCAT_OPTIONAL then
               steps [define_label (Some label), generate_expr e, emit_var_op OP_PUT i, emit_byte OP_POP, pop_stack 1]
             else steps [])
        | None \<Rightarrow> steps [],
        scatter_defaults (label + 2) sc]"

section \<open>Expanding the operands\<close>

definition ref_size :: "nat \<Rightarrow> nat" where
  "ref_size m = (if m \<le> 256 then 1 else if m \<le> 256 * 256 then 2 else 4)"

text \<open>The bytes of an operand, most significant first.\<close>

definition operand :: "nat \<Rightarrow> nat \<Rightarrow> nat list" where
  "operand width val =
     (if width = 4 then [val div 2 ^ 24 mod 256, val div 2 ^ 16 mod 256] else []) @
     (if width \<ge> 2 then [val div 2 ^ 8 mod 256] else []) @ [val mod 256]"

definition fixup_size :: "bytecodes \<Rightarrow> fixup \<Rightarrow> nat" where
  "fixup_size bc f =
     (case f_kind f of
        FIXUP_LITERAL \<Rightarrow> numbytes_literal bc
      | FIXUP_FORK \<Rightarrow> numbytes_fork bc
      | FIXUP_VAR_REF \<Rightarrow> numbytes_var_name bc
      | FIXUP_STACK \<Rightarrow> numbytes_stack bc
      | FIXUP_LABEL \<Rightarrow> numbytes_label bc)"

definition fixup_value :: "bytecodes \<Rightarrow> fixup \<Rightarrow> nat" where
  "fixup_value bc f =
     (if f_kind f = FIXUP_LABEL then
        f_value f + f_prev_literals f * (numbytes_literal bc - 1) + f_prev_forks f * (numbytes_fork bc - 1)
          + f_prev_var_refs f * (numbytes_var_name bc - 1) + f_prev_labels f * (numbytes_label bc - 1)
          + f_prev_stacks f * (numbytes_stack bc - 1)
      else f_value f)"

fun expand :: "bytecodes \<Rightarrow> fixup list \<Rightarrow> nat \<Rightarrow> nat list \<Rightarrow> nat list" where
  "expand bc fs old_i [] = []"
| "expand bc [] old_i (b # bs) = b # expand bc [] (Suc old_i) bs"
| "expand bc (f # fs) old_i (b # bs) =
     (if f_pc f = old_i then operand (fixup_size bc f) (fixup_value bc f) @ expand bc fs (Suc old_i) bs
      else b # expand bc (f # fs) (Suc old_i) bs)"

section \<open>Last uses of variables\<close>

abbreviation "NON_VR_VAR_MASK \<equiv>
  (NOT (push_bit 10 1 OR push_bit 11 1 OR push_bit 12 1 OR push_bit 13 1 OR push_bit 14 1 OR push_bit 15 1 OR push_bit 5 1) :: 32 word)"

text \<open>
  One step of the scan of a basic block from its end: the variables that are not needed any
  more, and the byte there, which becomes a \<^verbatim>\<open>PUSH_CLEAR\<close> when it pushes one of them.
\<close>

definition reduce_byte :: "nat \<Rightarrow> nat \<Rightarrow> nat \<Rightarrow> 32 word \<Rightarrow> 32 word \<times> nat" where
  "reduce_byte push tr b varbits =
     (if push = OP_PUSH then
        (let bit_id = push_bit (b - OP_PUSH) 1 in
         if varbits AND bit_id \<noteq> 0 then (varbits AND NOT bit_id, b + (OP_PUSH_CLEAR - OP_PUSH)) else (varbits, b))
      else if tr > 0 then (varbits, b)
      else if push = OP_PUT then (varbits OR push_bit (b - OP_PUT) 1, b)
      else if push = OP_DONE then (- 1, b)
      else if push = OP_CALL_VERB then (varbits AND NON_VR_VAR_MASK, b)
      else (varbits, b))"

fun reduce_block :: "(nat \<times> nat \<times> nat) list \<Rightarrow> 32 word \<times> nat list" where
  "reduce_block [] = (0, [])"
| "reduce_block ((p, t, b) # xs) =
     (case reduce_block xs of (varbits, bs) \<Rightarrow>
        case reduce_byte p t b varbits of (varbits1, b1) \<Rightarrow> (varbits1, b1 # bs))"

text \<open>The starts of the blocks, in order: the operands that are labels or fork vectors.\<close>

definition block_starts :: "state \<Rightarrow> nat list" where
  "block_starts s =
     sort (0 # length (bytes s) # map f_pc (filter (\<lambda>f. f_kind f = FIXUP_LABEL \<or> f_kind f = FIXUP_FORK) (fixups s)))"

fun reduce_blocks :: "nat list \<Rightarrow> (nat \<times> nat \<times> nat) list \<Rightarrow> nat list" where
  "reduce_blocks (i # j # bbd) xs = snd (reduce_block (take (j - i) xs)) @ reduce_blocks (j # bbd) (drop (j - i) xs)"
| "reduce_blocks _ xs = []"

definition reduce_refs :: "state \<Rightarrow> nat list" where
  "reduce_refs s = reduce_blocks (block_starts s) (zip (pushmap s) (zip (trymap s) (bytes s)))"

section \<open>Statements\<close>

text \<open>
  \<^verbatim>\<open>stmt_to_code\<close> after the statements: the checks, the widths, the size that is
  allocated (\<open>bc_size\<close>) and the bytes that are written to it (\<open>bc_vector\<close>).
\<close>

definition choose_widths :: "state \<Rightarrow> bytecodes" where
  "choose_widths s =
     (let nlit = ref_size (max (max_literal s) (length (g_literals (the_gstate s))));
          nfork = ref_size (max (max_fork s) (length (g_fork_vectors (the_gstate s))));
          nvar = ref_size (max (max_var_ref s) (g_total_var_refs (the_gstate s)));
          sz = length (bytes s) + (nlit - 1) * num_literals s + (nfork - 1) * num_forks s + (nvar - 1) * num_var_refs s;
          nlab = (if sz \<le> 256 then 1 else if sz + num_labels s \<le> 256 * 256 then 2 else 4)
      in \<lparr>numbytes_label = nlab, numbytes_literal = nlit, numbytes_fork = nfork, numbytes_var_name = nvar,
          numbytes_stack = ref_size (max_stack s), bc_vector = [], bc_size = sz + (nlab - 1) * num_labels s,
          bc_max_stack = max_stack s\<rparr>)"

definition finish_code :: "state \<Rightarrow> (bytecodes \<times> gstate) option" where
  "finish_code s =
     (if cur_stack s \<noteq> 0 \<or> saved_stack s \<noteq> None then None
      else
        let bc = choose_widths s
        in Some (bc\<lparr>bc_vector := expand bc (fixups s) 0 (reduce_refs s)\<rparr>, the_gstate s))"

definition code_of :: "gen \<Rightarrow> gstate \<Rightarrow> (bytecodes \<times> gstate) option" where
  "code_of gen_body g = Option.bind (steps [gen_body, emit_ending_op OP_DONE] (init_state g)) finish_code"

text \<open>The code of a fork is made first, with the literals and vectors of the whole program.\<close>

definition fork_code :: "nat option \<Rightarrow> gen \<Rightarrow> gen" where
  "fork_code i gen_body s =
     (case code_of gen_body (the_gstate s) of
        None \<Rightarrow> None
      | Some (bc, g) \<Rightarrow>
          steps [add_fork bc, case i of Some v \<Rightarrow> add_var_ref v | None \<Rightarrow> steps []] (s\<lparr>the_gstate := g\<rparr>))"

text \<open>The loop a \<^verbatim>\<open>break\<close> or \<^verbatim>\<open>continue\<close> leaves.\<close>

fun loop_at :: "nat option \<Rightarrow> code_loop list \<Rightarrow> nat option" where
  "loop_at exit [] = None"
| "loop_at exit (l # ls) =
     (if exit = None \<or> l_id l = exit \<or> l_index l = exit then Some 0 else map_option Suc (loop_at exit ls))"

definition exit_code :: "bool \<Rightarrow> nat option \<Rightarrow> gen" where
  "exit_code is_continue exit =
     steps
       [case exit of
          None \<Rightarrow> emit_extended_byte EOP_EXIT
        | Some v \<Rightarrow> steps [emit_extended_byte EOP_EXIT_ID, add_var_ref v],
        \<lambda>s. case loop_at exit (loops s) of
              None \<Rightarrow> None
            | Some i \<Rightarrow>
                (let l = loops s ! i in
                 if is_continue then steps [add_stack_ref (l_top_stack l), add_known_label (l_top_label l)] s
                 else
                   steps
                     [add_stack_ref (l_bottom_stack l),
                      next_label (\<lambda>new_bottom. steps
                        [add_linked_label (Some (l_bottom_label l)),
                         \<lambda>s. Some (s\<lparr>loops := (loops s)[i := l\<lparr>l_bottom_label := new_bottom\<rparr>]\<rparr>)])] s)]"

text \<open>The end of a loop: back to its top, and the labels that leave it.\<close>

definition loop_end :: "fixup \<Rightarrow> gen" where
  "loop_end loop_top =
     exit_loop (\<lambda>end_label. steps [emit_byte OP_JUMP, add_known_label loop_top, define_label (Some end_label)])"

definition loop_body :: "nat option \<Rightarrow> nat option \<Rightarrow> fixup \<Rightarrow> nat \<Rightarrow> gen \<Rightarrow> gen" where
  "loop_body i index loop_top below gen_body =
     next_label (\<lambda>end_label. steps
       [add_label, \<lambda>s. enter_loop i index loop_top (cur_stack s) end_label (cur_stack s - below) s,
        gen_body, loop_end loop_top])"

definition at_top :: "(fixup \<Rightarrow> gen) \<Rightarrow> gen" where
  "at_top f s = f (capture_label s) s"

fun except_count :: "excepts \<Rightarrow> nat" where
  "except_count ExNil = 0"
| "except_count (ExCons i codes body ex) = Suc (except_count ex)"

text \<open>
  The codes and handler labels of a \<^verbatim>\<open>try\<close>, whose labels are passed on to the
  handlers.
\<close>

fun except_codes :: "excepts \<Rightarrow> nat list \<Rightarrow> (nat list \<Rightarrow> gen) \<Rightarrow> gen" where
  "except_codes ExNil labels f = f labels"
| "except_codes (ExCons i codes body ex) labels f =
     steps [generate_codes codes, emit_extended_byte EOP_PUSH_LABEL, next_label (\<lambda>label. steps
       [add_label, push_stack 1, except_codes ex (labels @ [label]) f])]"

fun generate_stmt :: "stmt \<Rightarrow> gen"
  and generate_stmts :: "stmts \<Rightarrow> gen"
  and generate_arms :: "nat \<Rightarrow> nat option \<Rightarrow> arms \<Rightarrow> gen \<Rightarrow> gen"
  and generate_handlers :: "excepts \<Rightarrow> nat list \<Rightarrow> nat \<Rightarrow> gen" where
  "generate_stmt (STMT_COND arms otherwise) = generate_arms OP_IF None arms (generate_stmts otherwise)"
| "generate_stmt (STMT_LIST i index e body) =
     steps [generate_expr e, emit_byte OP_IMM, add_literal VNONE, push_stack 1, at_top (\<lambda>loop_top. steps
       [case index of
          Some ix \<Rightarrow> steps [emit_extended_byte EOP_FOR_LIST_2, add_var_ref i, add_var_ref ix]
        | None \<Rightarrow> steps [emit_extended_byte EOP_FOR_LIST_1, add_var_ref i],
        loop_body (Some i) index loop_top 2 (generate_stmts body), pop_stack 2])]"
| "generate_stmt (STMT_RANGE i from to body) =
     steps [generate_expr from, generate_expr to, at_top (\<lambda>loop_top. steps
       [emit_byte OP_FOR_RANGE, add_var_ref i,
        loop_body (Some i) None loop_top 2 (generate_stmts body), pop_stack 2])]"
| "generate_stmt (STMT_WHILE i cond body) =
     at_top (\<lambda>loop_top. steps
       [generate_expr cond,
        case i of
          None \<Rightarrow> emit_byte OP_WHILE
        | Some v \<Rightarrow> steps [emit_extended_byte EOP_WHILE_ID, add_var_ref v],
        next_label (\<lambda>end_label. steps
          [add_label, pop_stack 1,
           \<lambda>s. enter_loop i None loop_top (cur_stack s) end_label (cur_stack s) s,
           generate_stmts body, loop_end loop_top])])"
| "generate_stmt (STMT_FORK i time body) =
     steps [generate_expr time, emit_byte (case i of None \<Rightarrow> OP_FORK | Some v \<Rightarrow> OP_FORK_WITH_ID),
       fork_code i (generate_stmts body), pop_stack 1]"
| "generate_stmt (STMT_EXPR e) = steps [generate_expr e, emit_byte OP_POP, pop_stack 1]"
| "generate_stmt (STMT_RETURN e) =
     (case e of
        Some v \<Rightarrow> steps [generate_expr v, emit_ending_op OP_RETURN, pop_stack 1]
      | None \<Rightarrow> emit_ending_op OP_RETURN0)"
| "generate_stmt (STMT_TRY_EXCEPT body ex) =
     except_codes ex [] (\<lambda>labels. steps
       [emit_extended_byte EOP_TRY_EXCEPT, emit_byte (except_count ex), push_stack 1,
        in_try (generate_stmts body), emit_extended_byte EOP_END_EXCEPT, next_label (\<lambda>end_label. steps
          [add_label, pop_stack (2 * except_count ex + 1), generate_handlers ex labels end_label])])"
| "generate_stmt (STMT_TRY_FINALLY body handler) =
     steps [emit_extended_byte EOP_TRY_FINALLY, next_label (\<lambda>handler_label. steps
       [add_label, push_stack 1, in_try (generate_stmts body), emit_extended_byte EOP_END_FINALLY, pop_stack 1,
        define_label (Some handler_label), push_stack 2, generate_stmts handler,
        emit_extended_byte EOP_CONTINUE, pop_stack 2])]"
| "generate_stmt (STMT_BREAK exit) = exit_code False exit"
| "generate_stmt (STMT_CONTINUE exit) = exit_code True exit"
| "generate_stmts StNil = steps []"
| "generate_stmts (StCons st sts) = steps [generate_stmt st, generate_stmts sts]"
| "generate_arms if_op end_label IfNil gen_else = steps [gen_else, define_label end_label]"
| "generate_arms if_op end_label (IfCons c body arms) gen_else =
     steps [generate_expr c, emit_byte if_op, next_label (\<lambda>else_label. steps
       [add_label, pop_stack 1, generate_stmts body, emit_byte OP_JUMP, next_label (\<lambda>new_end. steps
         [add_linked_label end_label, define_label (Some else_label),
          generate_arms OP_EIF (Some new_end) arms gen_else])])]"
| "generate_handlers ExNil labels end_label = define_label (Some end_label)"
| "generate_handlers (ExCons i codes body ex) labels end_label =
     (case labels of
        [] \<Rightarrow> (\<lambda>s. None)
      | label # labels1 \<Rightarrow>
          steps
            [define_label (Some label), push_stack 1, case i of Some v \<Rightarrow> emit_var_op OP_PUT v | None \<Rightarrow> steps [],
             emit_byte OP_POP, pop_stack 1, generate_stmts body,
             if ex \<noteq> ExNil then
               steps [emit_byte OP_JUMP, next_label (\<lambda>new_end. steps
                 [add_linked_label (Some end_label), generate_handlers ex labels1 new_end])]
             else define_label (Some end_label)])"

definition stmt_to_code :: "stmts \<Rightarrow> gstate \<Rightarrow> (bytecodes \<times> gstate) option" where
  "stmt_to_code body = code_of (generate_stmts body)"

record moo_program =
  p_main_vector :: bytecodes
  p_literals :: "var list"
  p_fork_vectors :: "bytecodes list"

definition generate_code :: "stmts \<Rightarrow> moo_program option" where
  "generate_code body =
     map_option (\<lambda>(bc, g). \<lparr>p_main_vector = bc, p_literals = g_literals g, p_fork_vectors = g_fork_vectors g\<rparr>)
       (stmt_to_code body init_gstate)"

end
