(* ===== verification/CodeSeq.thy ===== *)
theory CodeSeq
  imports CodeGen
begin

text \<open>
  The code sequences of \<^verbatim>\<open>MOOCodeSequences.txt\<close>: what the generator is to
  emit for each construct, written as functions of the syntax tree and of the place of the
  construct, with labels that are positions in the sequence. Which syntax trees the parser
  builds is stated here too.
\<close>

section \<open>Symbols\<close>

text \<open>
  A byte, with its marks, or an operand, still one byte wide. A label that is not defined yet
  is open: its tag is the number of its fixup, or the level of the loop it leaves.
\<close>

datatype operand_sym =
    FLit var
  | FFork stmts
  | FVar nat
  | FStk nat
  | FPseudo nat
  | FLab nat
  | FOpen "nat + nat"

datatype sym = SByte (sym_mark: nat) (sym_try: nat) (sym_byte: nat) | SFix nat operand_sym
  where "sym_try (SFix t x) = t" | "sym_mark (SFix t x) = 0" | "sym_byte (SFix t x) = 0"

abbreviation op :: "nat \<Rightarrow> nat \<Rightarrow> sym" where "op t b \<equiv> SByte 0 (t mod 256) (b mod 256)"
abbreviation eop :: "nat \<Rightarrow> nat \<Rightarrow> sym list" where "eop t b \<equiv> [op t OP_EXTENDED, op t b]"
abbreviation marked :: "nat \<Rightarrow> nat \<Rightarrow> nat \<Rightarrow> sym" where "marked t m b \<equiv> SByte m (t mod 256) (b mod 256)"
abbreviation fx :: "nat \<Rightarrow> operand_sym \<Rightarrow> sym" where "fx t x \<equiv> SFix (t mod 256) x"

definition var_op :: "nat \<Rightarrow> nat \<Rightarrow> nat \<Rightarrow> sym list" where
  "var_op t b slot =
     (if slot \<ge> NUM_READY_VARS then [op t (b + NUM_READY_VARS), fx t (FVar slot)] else [marked t b (b + slot)])"

section \<open>Expressions\<close>

fun binary_op :: "binary_kind \<Rightarrow> nat \<Rightarrow> sym list" where
  "binary_op EXPR_PLUS t = [op t OP_ADD]"
| "binary_op EXPR_MINUS t = [op t OP_MINUS]"
| "binary_op EXPR_TIMES t = [op t OP_MULT]"
| "binary_op EXPR_DIVIDE t = [op t OP_DIV]"
| "binary_op EXPR_MOD t = [op t OP_MOD]"
| "binary_op EXPR_EQ t = [op t OP_EQ]"
| "binary_op EXPR_NE t = [op t OP_NE]"
| "binary_op EXPR_LT t = [op t OP_LT]"
| "binary_op EXPR_LE t = [op t OP_LE]"
| "binary_op EXPR_GT t = [op t OP_GT]"
| "binary_op EXPR_GE t = [op t OP_GE]"
| "binary_op EXPR_IN t = [op t OP_IN]"
| "binary_op EXPR_PROP t = [op t OP_GET_PROP]"
| "binary_op EXPR_EXP t = eop t EOP_EXP"
| "binary_op EXPR_BITOR t = eop t EOP_BITOR"
| "binary_op EXPR_BITAND t = eop t EOP_BITAND"
| "binary_op EXPR_BITXOR t = eop t EOP_BITXOR"
| "binary_op EXPR_BITSHL t = eop t EOP_BITSHL"
| "binary_op EXPR_BITSHR t = eop t EOP_BITSHR"

fun unary_op :: "unary_kind \<Rightarrow> nat \<Rightarrow> sym list" where
  "unary_op EXPR_NEGATE t = [op t OP_UNARY_MINUS]"
| "unary_op EXPR_NOT t = [op t OP_NOT]"
| "unary_op EXPR_COMPLEMENT t = eop t EOP_COMPLEMENT"

definition code_var :: "var \<Rightarrow> nat \<Rightarrow> sym list" where
  "code_var v t =
     (case v of
        VINT n \<Rightarrow> if IN_OPTIM_NUM_RANGE (sint n) then [op t (OPTIM_NUM_TO_OPCODE (sint n))] else [op t OP_IMM, fx t (FLit v)]
      | _ \<Rightarrow> [op t OP_IMM, fx t (FLit v)])"

definition code_scatter_head :: "scatter \<Rightarrow> nat \<Rightarrow> sym list" where
  "code_scatter_head sc t =
     (case scatter_counts 0 0 None sc of (nargs, nreq, rest) \<Rightarrow>
       eop t EOP_SCATTER @ [op t nargs, op t nreq, op t (case rest of None \<Rightarrow> nargs + 1 | Some r \<Rightarrow> r)])"

fun code_store :: "bool \<Rightarrow> expr \<Rightarrow> nat \<Rightarrow> sym list" where
  "code_store is_indexed (EXPR_RANGE base from to) t = eop t EOP_RANGESET @ code_store True base t"
| "code_store is_indexed (EXPR_INDEX base index) t = [op t OP_INDEXSET] @ code_store True base t"
| "code_store is_indexed (EXPR_ID i) t = var_op t OP_PUT i @ (if is_indexed then [op t OP_POP, op t OP_PUSH_TEMP] else [])"
| "code_store is_indexed (EXPR_BINARY k l r) t =
     [op t OP_PUT_PROP] @ (if is_indexed then [op t OP_POP, op t OP_PUSH_TEMP] else [])"
| "code_store is_indexed _ t = []"

definition arg_op :: "bool \<Rightarrow> arg_kind \<Rightarrow> nat \<Rightarrow> sym" where
  "arg_op first kind t =
     op t (if first then (if kind = ARG_NORMAL then OP_MAKE_SINGLETON_LIST else OP_CHECK_LIST_FOR_SPLICE)
           else if kind = ARG_NORMAL then OP_LIST_ADD_TAIL else OP_LIST_APPEND)"

fun scatter_size :: "scatter \<Rightarrow> nat" where
  "scatter_size SNil = 0"
| "scatter_size (SCons kind i dflt sc) = Suc (scatter_size sc)"

text \<open>The values an assignment target leaves on the stack.\<close>

fun lvalue_height :: "bool \<Rightarrow> expr \<Rightarrow> nat" where
  "lvalue_height up (EXPR_RANGE base from to) = lvalue_height True base + 2"
| "lvalue_height up (EXPR_INDEX base index) = lvalue_height True base + 1 + of_bool up"
| "lvalue_height up (EXPR_ID i) = of_bool up"
| "lvalue_height up (EXPR_BINARY k l r) = 2 + of_bool up"
| "lvalue_height up _ = 0"

text \<open>
  The parameters of the functions: \<open>k\<close> the position, \<open>d\<close> the height of the stack,
  \<open>sv\<close> the index of the value that is being indexed, \<open>t\<close> the depth of
  \<^verbatim>\<open>try\<close> constructs.
\<close>

fun code_expr :: "expr \<Rightarrow> nat \<Rightarrow> nat \<Rightarrow> nat option \<Rightarrow> nat \<Rightarrow> sym list"
  and code_args :: "bool \<Rightarrow> args \<Rightarrow> nat \<Rightarrow> nat \<Rightarrow> nat option \<Rightarrow> nat \<Rightarrow> sym list"
  and code_codes :: "args \<Rightarrow> nat \<Rightarrow> nat \<Rightarrow> nat option \<Rightarrow> nat \<Rightarrow> sym list"
  and code_maps :: "maps \<Rightarrow> nat \<Rightarrow> nat \<Rightarrow> nat option \<Rightarrow> nat \<Rightarrow> sym list"
  and code_lvalue :: "bool \<Rightarrow> expr \<Rightarrow> nat \<Rightarrow> nat \<Rightarrow> nat option \<Rightarrow> nat \<Rightarrow> sym list"
  and code_scatter :: "scatter \<Rightarrow> nat \<Rightarrow> nat \<Rightarrow> nat option \<Rightarrow> nat \<Rightarrow> sym list \<times> sym list" where
  "code_expr (EXPR_VAR v) = (\<lambda>k d sv t. code_var v t)"
| "code_expr (EXPR_ID i) = (\<lambda>k d sv t. var_op t OP_PUSH i)"
| "code_expr (EXPR_BINARY b l r) = (\<lambda>k d sv t.
     (let cl = code_expr l k d sv t; cr = code_expr r (k + length cl) (d + 1) sv t in cl @ cr @ binary_op b t))"
| "code_expr (EXPR_UNARY b e) = (\<lambda>k d sv t. code_expr e k d sv t @ unary_op b t)"
| "code_expr (EXPR_AND l r) = (\<lambda>k d sv t.
     (let cl = code_expr l k d sv t; m = k + length cl + 2; cr = code_expr r m d sv t in
      cl @ [op t OP_AND, fx t (FLab (m + length cr))] @ cr))"
| "code_expr (EXPR_OR l r) = (\<lambda>k d sv t.
     (let cl = code_expr l k d sv t; m = k + length cl + 2; cr = code_expr r m d sv t in
      cl @ [op t OP_OR, fx t (FLab (m + length cr))] @ cr))"
| "code_expr (EXPR_VERB obj verb args) = (\<lambda>k d sv t.
     (let co = code_expr obj k d sv t; cv = code_expr verb (k + length co) (d + 1) sv t;
          ca = code_args True args (k + length co + length cv) (d + 2) sv t in
      co @ cv @ ca @ [marked t OP_CALL_VERB OP_CALL_VERB]))"
| "code_expr (EXPR_INDEX l r) = (\<lambda>k d sv t.
     (let cl = code_expr l k d sv t; cr = code_expr r (k + length cl) (d + 1) (Some d) t in cl @ cr @ [op t OP_REF]))"
| "code_expr (EXPR_RANGE base from to) = (\<lambda>k d sv t.
     (let cb = code_expr base k d sv t; cf = code_expr from (k + length cb) (d + 1) (Some d) t;
          ct = code_expr to (k + length cb + length cf) (d + 2) (Some d) t in
      cb @ cf @ ct @ [op t OP_RANGE_REF]))"
| "code_expr EXPR_FIRST = (\<lambda>k d sv t. eop t EOP_FIRST @ [fx t (FStk (the sv))])"
| "code_expr EXPR_LAST = (\<lambda>k d sv t. eop t EOP_LAST @ [fx t (FStk (the sv))])"
| "code_expr (EXPR_ASGN l r) = (\<lambda>k d sv t.
     (case l of
        EXPR_SCATTER sc \<Rightarrow>
          (let cr = code_expr r k d sv t; ch = code_scatter_head sc t;
               m = k + length cr + length ch;
               m2 = m + 2 * scatter_size sc + 1 in
           case code_scatter sc m2 (d + 1) sv t of (refs, defaults) \<Rightarrow>
             cr @ ch @ refs @ [fx t (FLab (m2 + length defaults))] @ defaults)
      | _ \<Rightarrow>
          (let cl = code_lvalue False l k d sv t;
               cr = code_expr r (k + length cl) (d + lvalue_height False l) sv t in
           cl @ cr @ (if is_indexing l then [op t OP_PUT_TEMP] else []) @ code_store False l t)))"
| "code_expr (EXPR_CALL func args) = (\<lambda>k d sv t. code_args True args k d sv t @ [op t OP_BI_FUNC_CALL, op t func])"
| "code_expr (EXPR_LIST args) = (\<lambda>k d sv t. code_args True args k d sv t)"
| "code_expr (EXPR_MAP maps) = (\<lambda>k d sv t. [op t OP_MAP_CREATE] @ code_maps maps (k + 1) (d + 1) sv t)"
| "code_expr (EXPR_COND c a b) = (\<lambda>k d sv t.
     (let cc = code_expr c k d sv t; m = k + length cc + 2; ca = code_expr a m d sv t;
          m2 = m + length ca + 2; cb = code_expr b m2 d sv t in
      cc @ [op t OP_IF_QUES, fx t (FLab m2)] @ ca @ [op t OP_JUMP, fx t (FLab (m2 + length cb))] @ cb))"
| "code_expr (EXPR_CATCH e codes dflt) = (\<lambda>k d sv t.
     (let cc = code_codes codes k d sv t; m = k + length cc + 5; ce = code_expr e m (d + 3) sv (t + 1);
          m2 = m + length ce + 3;
          cd = (case dflt of
                  Some x \<Rightarrow> [op t OP_POP] @ code_expr x (m2 + 1) d sv t
                | None \<Rightarrow> [op t (OPTIM_NUM_TO_OPCODE 1), op t OP_REF]) in
      cc @ eop t EOP_PUSH_LABEL @ [fx t (FLab m2)] @ eop t EOP_CATCH @ ce @
      eop t EOP_END_CATCH @ [fx t (FLab (m2 + length cd))] @ cd))"
| "code_expr (EXPR_SCATTER sc) = (\<lambda>k d sv t. [])"
| "code_args first ANil = (\<lambda>k d sv t. (if first then [op t OP_MAKE_EMPTY_LIST] else []))"
| "code_args first (ACons kind e args) = (\<lambda>k d sv t.
     (let ce = code_expr e k (if first then d else d + 1) sv t in
      ce @ [arg_op first kind t] @ code_args False args (k + length ce + 1) d sv t))"
| "code_codes codes = (\<lambda>k d sv t.
     (case codes of
        ANil \<Rightarrow> [op t (OPTIM_NUM_TO_OPCODE 0)]
      | ACons kind e args \<Rightarrow>
          (let ce = code_expr e k d sv t in
           ce @ [arg_op True kind t] @ code_args False args (k + length ce + 1) d sv t)))"
| "code_maps MNil = (\<lambda>k d sv t. [])"
| "code_maps (MCons key val maps) = (\<lambda>k d sv t.
     (let cv = code_expr val k d sv t; ck = code_expr key (k + length cv) (d + 1) sv t in
      cv @ ck @ [op t OP_MAP_INSERT] @ code_maps maps (k + length cv + length ck + 1) d sv t))"
| "code_lvalue up (EXPR_RANGE base from to) = (\<lambda>k d sv t.
     (let cb = code_lvalue True base k d sv t; d1 = d + lvalue_height True base;
          cf = code_expr from (k + length cb) d1 (Some (d1 - 1)) t;
          ct = code_expr to (k + length cb + length cf) (d1 + 1) (Some (d1 - 1)) t in
      cb @ cf @ ct))"
| "code_lvalue up (EXPR_INDEX base index) = (\<lambda>k d sv t.
     (let cb = code_lvalue True base k d sv t; d1 = d + lvalue_height True base;
          ci = code_expr index (k + length cb) d1 (Some (d1 - 1)) t in
      cb @ ci @ (if up then [op t OP_PUSH_REF] else [])))"
| "code_lvalue up (EXPR_ID i) = (\<lambda>k d sv t. (if up then var_op t OP_PUSH i else []))"
| "code_lvalue up (EXPR_BINARY b l r) = (\<lambda>k d sv t.
     (let cl = code_expr l k d sv t; cr = code_expr r (k + length cl) (d + 1) sv t in
      cl @ cr @ (if up then [op t OP_PUSH_GET_PROP] else [])))"
| "code_lvalue up _ = (\<lambda>k d sv t. [])"
| "code_scatter SNil = (\<lambda>p d sv t. ([], []))"
| "code_scatter (SCons kind i dflt sc) = (\<lambda>p d sv t.
     (let cd = (case dflt of
                  Some e \<Rightarrow>
                    if kind = SCAT_OPTIONAL then code_expr e p d sv t @ var_op t OP_PUT i @ [op t OP_POP] else []
                | None \<Rightarrow> []);
          label = (if kind \<noteq> SCAT_OPTIONAL then FPseudo 0 else if dflt = None then FPseudo 1 else FLab p) in
      case code_scatter sc (p + length cd) d sv t of (refs, defaults) \<Rightarrow>
        ([fx t (FVar i), fx t label] @ refs, cd @ defaults)))"

section \<open>Statements\<close>

text \<open>The open labels with a tag become labels of a position.\<close>

definition close_tag :: "(nat + nat \<Rightarrow> bool) \<Rightarrow> nat \<Rightarrow> sym list \<Rightarrow> sym list" where
  "close_tag P target cs = map (\<lambda>x. case x of SFix t (FOpen g) \<Rightarrow> if P g then SFix t (FLab target) else x | _ \<Rightarrow> x) cs"

text \<open>
  An enclosing loop: its names, the position of its top, and the heights of the stack at its
  start and after it. Innermost first; a loop's level is the number of loops around it.
\<close>

record loop_ctx =
  x_id :: "nat option"
  x_index :: "nat option"
  x_top :: nat
  x_top_stack :: nat
  x_bottom_stack :: nat

fun ctx_at :: "nat option \<Rightarrow> loop_ctx list \<Rightarrow> (nat \<times> loop_ctx) option" where
  "ctx_at exit [] = None"
| "ctx_at exit (l # ls) =
     (if exit = None \<or> x_id l = exit \<or> x_index l = exit then Some (length ls, l) else ctx_at exit ls)"

definition exit_head :: "nat option \<Rightarrow> nat \<Rightarrow> sym list" where
  "exit_head exit t = (case exit of None \<Rightarrow> eop t EOP_EXIT | Some v \<Rightarrow> eop t EOP_EXIT_ID @ [fx t (FVar v)])"

definition code_exit :: "bool \<Rightarrow> nat option \<Rightarrow> nat \<Rightarrow> loop_ctx list \<Rightarrow> sym list" where
  "code_exit is_continue exit t ls =
     exit_head exit t @
     (case ctx_at exit ls of
        None \<Rightarrow> []
      | Some (level, l) \<Rightarrow>
          if is_continue then [fx t (FStk (x_top_stack l)), fx t (FLab (x_top l))]
          else [fx t (FStk (x_bottom_stack l)), fx t (FOpen (Inr level))])"

text \<open>
  A loop from its top at \<open>start\<close>: the head up to the label of the end, the body and the jump
  back, with the labels that leave it.
\<close>

definition code_cycle :: "sym list \<Rightarrow> nat \<Rightarrow> (nat \<Rightarrow> sym list) \<Rightarrow> nat \<Rightarrow> nat \<Rightarrow> nat \<Rightarrow> sym list" where
  "code_cycle head start body level k t =
     (let m = k + length head + 1; cb = body m in
      close_tag (\<lambda>g. g = Inr level) (m + length cb + 2)
        (head @ [fx t (FOpen (Inr level))] @ cb @ [op t OP_JUMP, fx t (FLab start)]))"

definition list_head :: "nat \<Rightarrow> nat option \<Rightarrow> nat \<Rightarrow> sym list" where
  "list_head i index t =
     (case index of
        None \<Rightarrow> eop t EOP_FOR_LIST_1 @ [fx t (FVar i)]
      | Some ix \<Rightarrow> eop t EOP_FOR_LIST_2 @ [fx t (FVar i), fx t (FVar ix)])"

definition while_head :: "nat option \<Rightarrow> nat \<Rightarrow> sym list" where
  "while_head i t = (case i of None \<Rightarrow> [op t OP_WHILE] | Some v \<Rightarrow> eop t EOP_WHILE_ID @ [fx t (FVar v)])"

fun code_except_codes :: "excepts \<Rightarrow> nat list \<Rightarrow> nat \<Rightarrow> nat \<Rightarrow> nat \<Rightarrow> sym list" where
  "code_except_codes ExNil hs k d t = []"
| "code_except_codes (ExCons i codes body ex) hs k d t =
     (let cc = code_codes codes k d None t in
      cc @ eop t EOP_PUSH_LABEL @ [fx t (FLab (hd hs))] @
      code_except_codes ex (tl hs) (k + length cc + 3) (d + 2) t)"

fun code_stmt :: "stmt \<Rightarrow> nat \<Rightarrow> nat \<Rightarrow> nat \<Rightarrow> loop_ctx list \<Rightarrow> sym list"
  and code_stmts :: "stmts \<Rightarrow> nat \<Rightarrow> nat \<Rightarrow> nat \<Rightarrow> loop_ctx list \<Rightarrow> sym list"
  and code_arms :: "nat \<Rightarrow> arms \<Rightarrow> (nat \<Rightarrow> sym list) \<Rightarrow> nat \<Rightarrow> nat \<Rightarrow> nat \<Rightarrow> loop_ctx list \<Rightarrow> sym list"
  and code_handlers :: "excepts \<Rightarrow> nat \<Rightarrow> nat \<Rightarrow> nat \<Rightarrow> loop_ctx list \<Rightarrow> nat list \<times> sym list" where
  "code_stmt (STMT_COND arms otherwise) = (\<lambda>k d t ls.
     code_arms OP_IF arms (\<lambda>k. code_stmts otherwise k d t ls) k d t ls)"
| "code_stmt (STMT_LIST i index e body) = (\<lambda>k d t ls.
     (let ce = code_expr e k d None t; start = k + length ce + 2;
          l = \<lparr>x_id = Some i, x_index = index, x_top = start, x_top_stack = d + 2, x_bottom_stack = d\<rparr> in
      ce @ [op t OP_IMM, fx t (FLit VNONE)] @
      code_cycle (list_head i index t) start (\<lambda>m. code_stmts body m (d + 2) t (l # ls)) (length ls) start t))"
| "code_stmt (STMT_RANGE i from to body) = (\<lambda>k d t ls.
     (let cf = code_expr from k d None t; ct = code_expr to (k + length cf) (d + 1) None t;
          start = k + length cf + length ct;
          l = \<lparr>x_id = Some i, x_index = None, x_top = start, x_top_stack = d + 2, x_bottom_stack = d\<rparr> in
      cf @ ct @
      code_cycle [op t OP_FOR_RANGE, fx t (FVar i)] start (\<lambda>m. code_stmts body m (d + 2) t (l # ls)) (length ls) start t))"
| "code_stmt (STMT_WHILE i cond body) = (\<lambda>k d t ls.
     (let l = \<lparr>x_id = i, x_index = None, x_top = k, x_top_stack = d, x_bottom_stack = d\<rparr> in
      code_cycle (code_expr cond k d None t @ while_head i t) k (\<lambda>m. code_stmts body m d t (l # ls)) (length ls) k t))"
| "code_stmt (STMT_FORK i time body) = (\<lambda>k d t ls.
     code_expr time k d None t @
     (case i of None \<Rightarrow> [op t OP_FORK, fx t (FFork body)] | Some v \<Rightarrow> [op t OP_FORK_WITH_ID, fx t (FFork body), fx t (FVar v)]))"
| "code_stmt (STMT_EXPR e) = (\<lambda>k d t ls. code_expr e k d None t @ [op t OP_POP])"
| "code_stmt (STMT_RETURN e) = (\<lambda>k d t ls.
     (case e of
        Some v \<Rightarrow> code_expr v k d None t @ [marked t OP_DONE OP_RETURN]
      | None \<Rightarrow> [marked t OP_DONE OP_RETURN0]))"
| "code_stmt (STMT_TRY_EXCEPT body ex) = (\<lambda>k d t ls.
     (let n = except_count ex; k1 = k + length (code_except_codes ex (replicate n 0) k d t) + 3;
          cb = code_stmts body k1 (d + 2 * n + 1) (t + 1) ls; k2 = k1 + length cb + 3 in
      case code_handlers ex k2 d t ls of (hs, ch) \<Rightarrow>
        code_except_codes ex hs k d t @ eop t EOP_TRY_EXCEPT @ [op t n] @ cb @
        eop t EOP_END_EXCEPT @ [fx t (FLab (k2 + length ch))] @ ch))"
| "code_stmt (STMT_TRY_FINALLY body handler) = (\<lambda>k d t ls.
     (let cb = code_stmts body (k + 3) (d + 1) (t + 1) ls; k2 = k + 3 + length cb + 2;
          ch = code_stmts handler k2 (d + 2) t ls in
      eop t EOP_TRY_FINALLY @ [fx t (FLab k2)] @ cb @ eop t EOP_END_FINALLY @ ch @ eop t EOP_CONTINUE))"
| "code_stmt (STMT_BREAK exit) = (\<lambda>k d t ls. code_exit False exit t ls)"
| "code_stmt (STMT_CONTINUE exit) = (\<lambda>k d t ls. code_exit True exit t ls)"
| "code_stmts StNil = (\<lambda>k d t ls. [])"
| "code_stmts (StCons st sts) = (\<lambda>k d t ls.
     (let c = code_stmt st k d t ls in c @ code_stmts sts (k + length c) d t ls))"
| "code_arms if_op IfNil code_else = (\<lambda>k d t ls. code_else k)"
| "code_arms if_op (IfCons c body arms) code_else = (\<lambda>k d t ls.
     (let cc = code_expr c k d None t; k1 = k + length cc + 2; cb = code_stmts body k1 d t ls;
          k2 = k1 + length cb + 2; ca = code_arms OP_EIF arms code_else k2 d t ls in
      cc @ [op t if_op, fx t (FLab k2)] @ cb @ [op t OP_JUMP, fx t (FLab (k2 + length ca))] @ ca))"
| "code_handlers ExNil = (\<lambda>k d t ls. ([], []))"
| "code_handlers (ExCons i codes body ex) = (\<lambda>k d t ls.
     (let c1 = (case i of Some v \<Rightarrow> var_op t OP_PUT v | None \<Rightarrow> []) @ [op t OP_POP];
          cb = code_stmts body (k + length c1) d t ls; k1 = k + length c1 + length cb in
      if ex \<noteq> ExNil then
        (case code_handlers ex (k1 + 2) d t ls of (hs, ch) \<Rightarrow>
          (k # hs, c1 @ cb @ [op t OP_JUMP, fx t (FLab (k1 + 2 + length ch))] @ ch))
      else ([k], c1 @ cb)))"

section \<open>What the parser builds\<close>

definition scalar :: "var \<Rightarrow> bool" where
  "scalar v \<longleftrightarrow> (case v of VINT _ \<Rightarrow> True | VOBJ _ \<Rightarrow> True | VSTR _ \<Rightarrow> True | VERR _ \<Rightarrow> True
     | VFLOAT _ \<Rightarrow> True | VBOOL _ \<Rightarrow> True | VNONE \<Rightarrow> True | _ \<Rightarrow> False)"

text \<open>
  The target of an assignment: a variable or property, with indices, and a range at most at
  the end. \<open>ix\<close> says whether there is a value being indexed.
\<close>

fun wf_expr :: "bool \<Rightarrow> expr \<Rightarrow> bool"
  and wf_args :: "bool \<Rightarrow> args \<Rightarrow> bool"
  and wf_maps :: "bool \<Rightarrow> maps \<Rightarrow> bool"
  and wf_lvalue :: "bool \<Rightarrow> bool \<Rightarrow> expr \<Rightarrow> bool"
  and wf_scatter :: "bool \<Rightarrow> scatter \<Rightarrow> bool" where
  "wf_expr ix (EXPR_VAR v) = scalar v"
| "wf_expr ix (EXPR_ID i) = True"
| "wf_expr ix (EXPR_BINARY b l r) = (wf_expr ix l \<and> wf_expr ix r)"
| "wf_expr ix (EXPR_UNARY b e) = wf_expr ix e"
| "wf_expr ix (EXPR_AND l r) = (wf_expr ix l \<and> wf_expr ix r)"
| "wf_expr ix (EXPR_OR l r) = (wf_expr ix l \<and> wf_expr ix r)"
| "wf_expr ix (EXPR_VERB obj verb args) = (wf_expr ix obj \<and> wf_expr ix verb \<and> wf_args ix args)"
| "wf_expr ix (EXPR_INDEX l r) = (wf_expr ix l \<and> wf_expr True r)"
| "wf_expr ix (EXPR_RANGE base from to) = (wf_expr ix base \<and> wf_expr True from \<and> wf_expr True to)"
| "wf_expr ix EXPR_FIRST = ix"
| "wf_expr ix EXPR_LAST = ix"
| "wf_expr ix (EXPR_ASGN l r) =
     ((case l of EXPR_SCATTER sc \<Rightarrow> wf_scatter ix sc | _ \<Rightarrow> wf_lvalue True ix l) \<and> wf_expr ix r)"
| "wf_expr ix (EXPR_CALL func args) = wf_args ix args"
| "wf_expr ix (EXPR_LIST args) = wf_args ix args"
| "wf_expr ix (EXPR_MAP maps) = wf_maps ix maps"
| "wf_expr ix (EXPR_COND c a b) = (wf_expr ix c \<and> wf_expr ix a \<and> wf_expr ix b)"
| "wf_expr ix (EXPR_CATCH e codes dflt) =
     (wf_expr ix e \<and> wf_args ix codes \<and> (case dflt of None \<Rightarrow> True | Some x \<Rightarrow> wf_expr ix x))"
| "wf_expr ix (EXPR_SCATTER sc) = False"
| "wf_args ix ANil = True"
| "wf_args ix (ACons kind e args) = (wf_expr ix e \<and> wf_args ix args)"
| "wf_maps ix MNil = True"
| "wf_maps ix (MCons key val maps) = (wf_expr ix key \<and> wf_expr ix val \<and> wf_maps ix maps)"
| "wf_lvalue rng ix (EXPR_RANGE base from to) = (rng \<and> wf_lvalue False ix base \<and> wf_expr True from \<and> wf_expr True to)"
| "wf_lvalue rng ix (EXPR_INDEX base index) = (wf_lvalue False ix base \<and> wf_expr True index)"
| "wf_lvalue rng ix (EXPR_ID i) = True"
| "wf_lvalue rng ix (EXPR_BINARY b l r) = (b = EXPR_PROP \<and> wf_expr ix l \<and> wf_expr ix r)"
| "wf_lvalue rng ix _ = False"
| "wf_scatter ix SNil = True"
| "wf_scatter ix (SCons kind i dflt sc) =
     ((case dflt of None \<Rightarrow> True | Some e \<Rightarrow> wf_expr ix e) \<and> wf_scatter ix sc)"

text \<open>The names of the enclosing loops.\<close>

fun exits :: "nat option \<Rightarrow> (nat option \<times> nat option) list \<Rightarrow> bool" where
  "exits exit [] = False"
| "exits exit ((i, ix) # ls) = (exit = None \<or> i = exit \<or> ix = exit \<or> exits exit ls)"

fun wf_codes :: "excepts \<Rightarrow> bool" where
  "wf_codes ExNil = True"
| "wf_codes (ExCons i codes body ex) = (wf_args False codes \<and> wf_codes ex)"

fun wf_stmt :: "(nat option \<times> nat option) list \<Rightarrow> stmt \<Rightarrow> bool"
  and wf_stmts :: "(nat option \<times> nat option) list \<Rightarrow> stmts \<Rightarrow> bool"
  and wf_arms :: "(nat option \<times> nat option) list \<Rightarrow> arms \<Rightarrow> bool"
  and wf_handlers :: "(nat option \<times> nat option) list \<Rightarrow> excepts \<Rightarrow> bool" where
  "wf_stmt ls (STMT_COND arms otherwise) = (wf_arms ls arms \<and> wf_stmts ls otherwise)"
| "wf_stmt ls (STMT_LIST i index e body) = (wf_expr False e \<and> wf_stmts ((Some i, index) # ls) body)"
| "wf_stmt ls (STMT_RANGE i from to body) =
     (wf_expr False from \<and> wf_expr False to \<and> wf_stmts ((Some i, None) # ls) body)"
| "wf_stmt ls (STMT_WHILE i cond body) = (wf_expr False cond \<and> wf_stmts ((i, None) # ls) body)"
| "wf_stmt ls (STMT_FORK i time body) = (wf_expr False time \<and> wf_stmts [] body)"
| "wf_stmt ls (STMT_EXPR e) = wf_expr False e"
| "wf_stmt ls (STMT_RETURN e) = (case e of None \<Rightarrow> True | Some v \<Rightarrow> wf_expr False v)"
| "wf_stmt ls (STMT_TRY_EXCEPT body ex) = (wf_stmts ls body \<and> ex \<noteq> ExNil \<and> wf_codes ex \<and> wf_handlers ls ex)"
| "wf_stmt ls (STMT_TRY_FINALLY body handler) = (wf_stmts ls body \<and> wf_stmts ls handler)"
| "wf_stmt ls (STMT_BREAK exit) = exits exit ls"
| "wf_stmt ls (STMT_CONTINUE exit) = exits exit ls"
| "wf_stmts ls StNil = True"
| "wf_stmts ls (StCons st sts) = (wf_stmt ls st \<and> wf_stmts ls sts)"
| "wf_arms ls IfNil = True"
| "wf_arms ls (IfCons c body arms) = (wf_expr False c \<and> wf_stmts ls body \<and> wf_arms ls arms)"
| "wf_handlers ls ExNil = True"
| "wf_handlers ls (ExCons i codes body ex) = (wf_stmts ls body \<and> wf_handlers ls ex)"

end
