(* ===== verification/CodeState.thy ===== *)
theory CodeState
  imports CodeSeq
begin

text \<open>
  What a state of the generator stands for: a sequence of symbols. Each elementary operation
  of the generator is a function of that sequence.
\<close>

section \<open>The operands of a sequence\<close>

fun fixes_from :: "nat \<Rightarrow> sym list \<Rightarrow> (nat \<times> operand_sym) list" where
  "fixes_from k [] = []"
| "fixes_from k (SByte m t b # cs) = fixes_from (Suc k) cs"
| "fixes_from k (SFix t x # cs) = (k, x) # fixes_from (Suc k) cs"

definition fixes_of :: "sym list \<Rightarrow> (nat \<times> operand_sym) list" where
  "fixes_of cs = fixes_from 0 cs"

fun operands :: "sym list \<Rightarrow> operand_sym list" where
  "operands [] = []"
| "operands (SByte m t b # cs) = operands cs"
| "operands (SFix t x # cs) = x # operands cs"

lemma fixes_from_append: "fixes_from k (a @ b) = fixes_from k a @ fixes_from (k + length a) b"
proof (induction a arbitrary: k)
  case (Cons x a)
  then show ?case by (cases x) simp_all
qed simp

lemma map_snd_fixes_from: "map snd (fixes_from k cs) = operands cs"
proof (induction cs arbitrary: k)
  case (Cons x cs)
  then show ?case by (cases x) simp_all
qed simp

lemma map_snd_fixes: "map snd (fixes_of cs) = operands cs"
  by (simp add: fixes_of_def map_snd_fixes_from)

lemma length_fixes [simp]: "length (fixes_of cs) = length (operands cs)"
  using arg_cong [OF map_snd_fixes, of length] by simp

lemma operands_append [simp]: "operands (a @ b) = operands a @ operands b"
proof (induction a)
  case (Cons x a)
  then show ?case by (cases x) simp_all
qed simp

lemma fixes_snoc: "fixes_of (cs @ [SFix t x]) = fixes_of cs @ [(length cs, x)]" "fixes_of (cs @ [SByte m t b]) = fixes_of cs"
  by (simp_all add: fixes_of_def fixes_from_append)

lemma fixes_from_bound: "(p, x) \<in> set (fixes_from k cs) \<Longrightarrow> k \<le> p \<and> p < k + length cs"
proof (induction cs arbitrary: k)
  case (Cons y cs)
  then show ?case by (cases y) fastforce+
qed simp

lemma fixes_from_nth: "(p, x) \<in> set (fixes_from k cs) \<Longrightarrow> \<exists>t. cs ! (p - k) = SFix t x"
proof (induction cs arbitrary: k)
  case (Cons y cs)
  show ?case
  proof (cases y)
    case (SByte m t b)
    then have i: "(p, x) \<in> set (fixes_from (Suc k) cs)" using Cons.prems by simp
    then have "Suc k \<le> p" using fixes_from_bound by blast
    then have "p - k = Suc (p - Suc k)" by simp
    then show ?thesis using Cons.IH [OF i] by simp
  next
    case (SFix t z)
    show ?thesis
    proof (cases "p = k \<and> x = z")
      case True
      then show ?thesis using SFix by simp
    next
      case False
      then have i: "(p, x) \<in> set (fixes_from (Suc k) cs)" using Cons.prems SFix by auto
      then have "Suc k \<le> p" using fixes_from_bound by blast
      then have "p - k = Suc (p - Suc k)" by simp
      then show ?thesis using Cons.IH [OF i] by simp
    qed
  qed
qed simp

section \<open>Counting\<close>

definition is_lit :: "operand_sym \<Rightarrow> bool" where "is_lit x \<longleftrightarrow> (case x of FLit v \<Rightarrow> True | _ \<Rightarrow> False)"
definition is_fork :: "operand_sym \<Rightarrow> bool" where "is_fork x \<longleftrightarrow> (case x of FFork b \<Rightarrow> True | _ \<Rightarrow> False)"
definition is_var :: "operand_sym \<Rightarrow> bool" where "is_var x \<longleftrightarrow> (case x of FVar v \<Rightarrow> True | _ \<Rightarrow> False)"
definition is_stk :: "operand_sym \<Rightarrow> bool" where "is_stk x \<longleftrightarrow> (case x of FStk v \<Rightarrow> True | _ \<Rightarrow> False)"
definition is_lab :: "operand_sym \<Rightarrow> bool" where
  "is_lab x \<longleftrightarrow> (case x of FPseudo v \<Rightarrow> True | FLab v \<Rightarrow> True | FOpen v \<Rightarrow> True | _ \<Rightarrow> False)"

lemmas is_operand_defs = is_lit_def is_fork_def is_var_def is_stk_def is_lab_def

definition count_ops :: "(operand_sym \<Rightarrow> bool) \<Rightarrow> sym list \<Rightarrow> nat" where
  "count_ops P cs = length (filter P (operands cs))"

lemma count_append: "count_ops P (a @ b) = count_ops P a + count_ops P b"
  by (simp add: count_ops_def)

lemma count_simps [simp]:
  "count_ops P [] = 0" "count_ops P (SByte m t b # cs) = count_ops P cs"
  "count_ops P (SFix t x # cs) = of_bool (P x) + count_ops P cs"
  by (simp_all add: count_ops_def)

section \<open>Open labels\<close>

fun last_rev :: "nat + nat \<Rightarrow> operand_sym list \<Rightarrow> nat option" where
  "last_rev g [] = None"
| "last_rev g (x # xs) = (if x = FOpen g then Some (length xs) else last_rev g xs)"

definition last_open :: "nat + nat \<Rightarrow> operand_sym list \<Rightarrow> nat option" where
  "last_open g xs = last_rev g (rev xs)"

lemma last_open_simps [simp]:
  "last_open g [] = None"
  "last_open g (xs @ [x]) = (if x = FOpen g then Some (length xs) else last_open g xs)"
  by (simp_all add: last_open_def)

lemma last_open_None: "last_open g xs = None \<longleftrightarrow> FOpen g \<notin> set xs"
  by (induction xs rule: rev_induct) auto

lemma last_open_append:
  "last_open g (xs @ ys) = (case last_open g ys of None \<Rightarrow> last_open g xs | Some j \<Rightarrow> Some (length xs + j))"
proof (induction ys rule: rev_induct)
  case (snoc y ys)
  have "last_open g (xs @ ys @ [y]) = (if y = FOpen g then Some (length (xs @ ys)) else last_open g (xs @ ys))"
    using last_open_simps(2) [of g "xs @ ys" y] by simp
  then show ?case using snoc by (auto split: option.splits)
qed simp

lemma last_open_Cons: "last_open g (x # xs) =
  (case last_open g xs of None \<Rightarrow> if x = FOpen g then Some 0 else None | Some j \<Rightarrow> Some (Suc j))"
  using last_open_append [of g "[x]" xs] last_open_simps(2) [of g "[]" x] by (auto split: option.splits)

lemma close_tag_append: "close_tag P k (a @ b) = close_tag P k a @ close_tag P k b"
  by (simp add: close_tag_def)

lemma close_tag_simps [simp]:
  "close_tag P k [] = []" "close_tag P k (SByte m t b # cs) = SByte m t b # close_tag P k cs"
  "close_tag P k (SFix t (FOpen g) # cs) = (if P g then SFix t (FLab k) else SFix t (FOpen g)) # close_tag P k cs"
  "(\<And>g. x \<noteq> FOpen g) \<Longrightarrow> close_tag P k (SFix t x # cs) = SFix t x # close_tag P k cs"
  by (simp_all add: close_tag_def split: operand_sym.split)

lemma close_tag_none: "(\<And>g. P g \<Longrightarrow> FOpen g \<notin> set (operands cs)) \<Longrightarrow> close_tag P k cs = cs"
proof (induction cs)
  case (Cons x cs)
  show ?case
  proof (cases x)
    case (SFix t y)
    with Cons show ?thesis by (cases y) auto
  qed (use Cons in auto)
qed simp

definition closing :: "(nat + nat \<Rightarrow> bool) \<Rightarrow> nat \<Rightarrow> operand_sym \<Rightarrow> operand_sym" where
  "closing P k x = (case x of FOpen g \<Rightarrow> if P g then FLab k else x | _ \<Rightarrow> x)"

lemma close_tag_fixes: "fixes_from j (close_tag P k cs) = map (apsnd (closing P k)) (fixes_from j cs)"
proof (induction cs arbitrary: j)
  case (Cons x cs)
  show ?case
  proof (cases x)
    case (SFix t y)
    with Cons show ?thesis by (cases y) (simp_all add: closing_def)
  qed (use Cons in simp)
qed simp

lemma close_tag_operands: "operands (close_tag P k cs) = map (closing P k) (operands cs)"
proof (induction cs)
  case (Cons x cs)
  show ?case
  proof (cases x)
    case (SFix t y)
    with Cons show ?thesis by (cases y) (simp_all add: closing_def)
  qed (use Cons in simp)
qed simp

lemma length_close_tag [simp]: "length (close_tag P k cs) = length cs"
  by (simp add: close_tag_def)

lemma take_close_tag: "take n (close_tag P k cs) = close_tag P k (take n cs)"
  by (simp add: close_tag_def take_map)

lemma closing_kinds [simp]:
  "is_lit (closing P k x) = is_lit x" "is_fork (closing P k x) = is_fork x" "is_var (closing P k x) = is_var x"
  "is_stk (closing P k x) = is_stk x" "is_lab (closing P k x) = is_lab x"
  by (cases x; simp add: closing_def is_operand_defs)+

lemma count_close_tag [simp]:
  "count_ops is_lit (close_tag P k cs) = count_ops is_lit cs" "count_ops is_fork (close_tag P k cs) = count_ops is_fork cs"
  "count_ops is_var (close_tag P k cs) = count_ops is_var cs" "count_ops is_lab (close_tag P k cs) = count_ops is_lab cs"
  by (simp_all add: count_ops_def close_tag_operands filter_map comp_def)

lemma close_tag_bytes [simp]:
  "map sym_byte (close_tag P k cs) = map sym_byte cs" "map sym_mark (close_tag P k cs) = map sym_mark cs"
  "map sym_try (close_tag P k cs) = map sym_try cs"
  by (simp_all add: close_tag_def split: sym.split operand_sym.split)

end
