(* ===== verification/CodeRules.thy ===== *)
theory CodeRules
  imports CodeState
begin

text \<open>
  When a state of the generator stands for a sequence of symbols, and what each elementary
  operation does to the sequence.
\<close>

section \<open>The sequence of a state\<close>

definition target_ok :: "sym list \<Rightarrow> nat \<Rightarrow> fixup \<Rightarrow> bool" where
  "target_ok cs l f \<longleftrightarrow> f_value f = l \<and> l \<le> length cs \<and>
     f_prev_literals f = count_ops is_lit (take l cs) \<and> f_prev_forks f = count_ops is_fork (take l cs) \<and>
     f_prev_var_refs f = count_ops is_var (take l cs) \<and> f_prev_labels f = count_ops is_lab (take l cs) \<and>
     f_prev_stacks f = 0"

text \<open>The literals and fork vectors of a program only become more.\<close>

definition gext :: "gstate \<Rightarrow> gstate \<Rightarrow> bool" where
  "gext g g' \<longleftrightarrow> prefix (g_literals g) (g_literals g') \<and> prefix (g_fork_vectors g) (g_fork_vectors g')"

lemma gext_refl: "gext g g"
  by (simp add: gext_def)

lemma gext_trans: "gext a b \<Longrightarrow> gext b c \<Longrightarrow> gext a c"
  unfolding gext_def by (meson prefix_order.trans)

text \<open>A vector made of statements, whose literals and fork vectors are in the program.\<close>

definition made_from :: "gstate \<Rightarrow> stmts \<Rightarrow> bytecodes \<Rightarrow> bool" where
  "made_from G body bc \<longleftrightarrow> (\<exists>g g'. stmt_to_code body g = Some (bc, g') \<and> (\<forall>v \<in> set (g_literals g). scalar v) \<and> gext g' G)"

lemma made_from_gext: "made_from G body bc \<Longrightarrow> gext G G' \<Longrightarrow> made_from G' body bc"
  unfolding made_from_def using gext_trans by blast

definition same_literal :: "var \<Rightarrow> var \<Rightarrow> bool" where
  "same_literal v w \<longleftrightarrow> v = w \<or> type_of v = type_of w \<and> equality v w True = Some True"

definition value_ok :: "gstate \<Rightarrow> sym list \<Rightarrow> nat \<Rightarrow> fixup \<Rightarrow> operand_sym \<Rightarrow> bool" where
  "value_ok g cs i f x \<longleftrightarrow>
     (case x of
        FLit v \<Rightarrow> f_kind f = FIXUP_LITERAL \<and> f_value f < length (g_literals g) \<and>
          same_literal v (g_literals g ! f_value f)
      | FFork body \<Rightarrow> f_kind f = FIXUP_FORK \<and> f_value f < length (g_fork_vectors g) \<and>
          made_from g body (g_fork_vectors g ! f_value f)
      | FVar n \<Rightarrow> f_kind f = FIXUP_VAR_REF \<and> f_value f = n
      | FStk n \<Rightarrow> f_kind f = FIXUP_STACK \<and> f_value f = n
      | FPseudo n \<Rightarrow> f_kind f = FIXUP_LABEL \<and> f_value f = n \<and> f_prev_literals f = 0 \<and> f_prev_forks f = 0 \<and>
          f_prev_var_refs f = 0 \<and> f_prev_labels f = 0 \<and> f_prev_stacks f = 0
      | FLab l \<Rightarrow> f_kind f = FIXUP_LABEL \<and> target_ok cs l f
      | FOpen t \<Rightarrow> f_kind f = FIXUP_LABEL \<and> f_next f = last_open t (take i (operands cs)))"

text \<open>An open label is tagged with the number of a fixup before it or its own, or with a loop.\<close>

definition tag_ok :: "nat \<Rightarrow> nat \<Rightarrow> operand_sym \<Rightarrow> bool" where
  "tag_ok n i x = (case x of FOpen g \<Rightarrow> (case g of Inl j \<Rightarrow> j \<le> i | Inr level \<Rightarrow> level < n) | _ \<Rightarrow> True)"

definition sane :: "sym list \<Rightarrow> nat \<Rightarrow> bool" where
  "sane cs n \<longleftrightarrow> (\<forall>i < length (operands cs). tag_ok n i (operands cs ! i))"

definition loop_ok :: "sym list \<Rightarrow> nat \<Rightarrow> code_loop \<Rightarrow> loop_ctx \<Rightarrow> bool" where
  "loop_ok cs level l x \<longleftrightarrow> l_id l = x_id x \<and> l_index l = x_index x \<and> f_kind (l_top_label l) = FIXUP_LABEL \<and>
     target_ok cs (x_top x) (l_top_label l) \<and> l_top_stack l = x_top_stack x \<and> l_bottom_stack l = x_bottom_stack x \<and>
     Some (l_bottom_label l) = last_open (Inr level) (operands cs)"

definition bounded :: "state \<Rightarrow> fixup \<Rightarrow> bool" where
  "bounded s f \<longleftrightarrow>
     (case f_kind f of
        FIXUP_LITERAL \<Rightarrow> f_value f \<le> max_literal s
      | FIXUP_FORK \<Rightarrow> f_value f \<le> max_fork s
      | FIXUP_VAR_REF \<Rightarrow> f_value f \<le> max_var_ref s
      | FIXUP_STACK \<Rightarrow> f_value f \<le> max_stack s
      | FIXUP_LABEL \<Rightarrow> True)"

lemma bounded_simps [simp]:
  "bounded (s\<lparr>cur_stack := d\<rparr>) f = bounded s f" "bounded (s\<lparr>saved_stack := sv\<rparr>) f = bounded s f"
  "bounded (s\<lparr>try_depth := t\<rparr>) f = bounded s f" "bounded (s\<lparr>loops := l\<rparr>) f = bounded s f"
  "bounded (s\<lparr>the_gstate := g\<rparr>) f = bounded s f"
  by (simp_all add: bounded_def split: fixup_kind.split)

text \<open>The value that is indexed is on the stack.\<close>

definition sv_ok :: "nat option \<Rightarrow> nat \<Rightarrow> bool" where
  "sv_ok sv d \<longleftrightarrow> (\<forall>i. sv = Some i \<longrightarrow> i < d)"

lemma sv_ok_simps [simp]: "sv_ok None d" "sv_ok (Some i) d = (i < d)"
  by (simp_all add: sv_ok_def)

lemma sv_ok_mono: "sv_ok sv d \<Longrightarrow> d \<le> d' \<Longrightarrow> sv_ok sv d'"
  by (auto simp: sv_ok_def)

definition place :: "gstate \<Rightarrow> sym list \<Rightarrow> nat \<Rightarrow> nat option \<Rightarrow> nat \<Rightarrow> loop_ctx list \<Rightarrow> state \<Rightarrow> bool" where
  "place g0 cs d sv t ls s \<longleftrightarrow>
     bytes s = map sym_byte cs \<and> pushmap s = map sym_mark cs \<and> trymap s = map sym_try cs \<and>
     num_literals s = count_ops is_lit cs \<and> num_forks s = count_ops is_fork cs \<and>
     num_var_refs s = count_ops is_var cs \<and> num_labels s = count_ops is_lab cs \<and> num_stacks s = 0 \<and>
     map f_pc (fixups s) = map fst (fixes_of cs) \<and>
     (\<forall>i < length (operands cs). value_ok (the_gstate s) cs i (fixups s ! i) (operands cs ! i) \<and> bounded s (fixups s ! i)) \<and>
     sane cs (length ls) \<and>
     length (loops s) = length ls \<and>
     (\<forall>j < length ls. loop_ok cs (length ls - Suc j) (loops s ! j) (ls ! j) \<and>
        x_top_stack (ls ! j) \<le> max_stack s \<and> x_bottom_stack (ls ! j) \<le> max_stack s) \<and>
     (\<forall>v \<in> set (g_literals (the_gstate s)). scalar v) \<and> gext g0 (the_gstate s) \<and>
     cur_stack s = d \<and> d \<le> max_stack s \<and> sv_ok sv d \<and>
     saved_stack s = sv \<and> try_depth s = t"

text \<open>
  The generator goes from one sequence to another: it returns a state for the second from
  every state for the first.
\<close>

definition goes ::
  "gstate \<Rightarrow> sym list \<Rightarrow> nat \<Rightarrow> nat option \<Rightarrow> nat \<Rightarrow> loop_ctx list \<Rightarrow> gen \<Rightarrow> sym list \<Rightarrow> nat \<Rightarrow> bool" where
  "goes g0 cs d sv t ls G cs' d' \<longleftrightarrow> (\<forall>s. place g0 cs d sv t ls s \<longrightarrow> (\<exists>s'. G s = Some s' \<and> place g0 cs' d' sv t ls s'))"

lemma goesI: "(\<And>s. place g0 cs d sv t ls s \<Longrightarrow> \<exists>s'. G s = Some s' \<and> place g0 cs' d' sv t ls s') \<Longrightarrow> goes g0 cs d sv t ls G cs' d'"
  by (simp add: goes_def)

lemma goesD: "goes g0 cs d sv t ls G cs' d' \<Longrightarrow> place g0 cs d sv t ls s \<Longrightarrow> \<exists>s'. G s = Some s' \<and> place g0 cs' d' sv t ls s'"
  by (simp add: goes_def)

lemma goes_sane: "(sane cs (length ls) \<Longrightarrow> goes g0 cs d sv t ls G cs' d') \<Longrightarrow> goes g0 cs d sv t ls G cs' d'"
  by (auto simp: goes_def place_def)

lemma goes_eq: "goes g0 cs d sv t ls G cs1 d1 \<Longrightarrow> cs1 = cs' \<Longrightarrow> d1 = d' \<Longrightarrow> goes g0 cs d sv t ls G cs' d'"
  by simp

lemma goes_nil: "goes g0 cs d sv t ls (steps []) cs d"
  by (simp add: goes_def)

lemma goes_step:
  "goes g0 cs d sv t ls G cs1 d1 \<Longrightarrow> goes g0 cs1 d1 sv t ls (steps Gs) cs2 d2 \<Longrightarrow> goes g0 cs d sv t ls (steps (G # Gs)) cs2 d2"
  unfolding goes_def by fastforce

lemma place_fixups: "place g0 cs d sv t ls s \<Longrightarrow> length (fixups s) = length (operands cs)"
proof -
  assume "place g0 cs d sv t ls s"
  then have "map f_pc (fixups s) = map fst (fixes_of cs)" by (simp add: place_def)
  from arg_cong [OF this, of length] show ?thesis by simp
qed

lemma goes_next: "goes g0 cs d sv t ls (G (length (operands cs))) cs' d' \<Longrightarrow> goes g0 cs d sv t ls (next_label G) cs' d'"
  by (auto simp: goes_def next_label_def place_fixups)

section \<open>Bytes\<close>

lemma value_ok_append:
  "value_ok g cs i f x \<Longrightarrow> i \<le> length (operands cs) \<Longrightarrow> value_ok g (cs @ ds) i f x"
  by (auto simp: value_ok_def target_ok_def split: operand_sym.splits)

lemma value_ok_gext:
  assumes "gext g g'" "value_ok g cs i f x"
  shows "value_ok g' cs i f x"
proof -
  obtain ls fs where "g_literals g' = g_literals g @ ls" "g_fork_vectors g' = g_fork_vectors g @ fs"
    using assms(1) by (auto simp: gext_def prefix_def)
  with assms made_from_gext [OF _ assms(1)] show ?thesis by (auto simp: value_ok_def nth_append split: operand_sym.splits)
qed

lemma sane_append: "sane cs n \<Longrightarrow> (\<And>g. FOpen g \<notin> set (operands ds)) \<Longrightarrow> sane (cs @ ds) n"
  unfolding sane_def
proof (intro allI impI)
  fix i assume s: "\<forall>i<length (operands cs). tag_ok n i (operands cs ! i)" and n: "\<And>g. FOpen g \<notin> set (operands ds)"
    and i: "i < length (operands (cs @ ds))"
  show "tag_ok n i (operands (cs @ ds) ! i)"
  proof (cases "i < length (operands cs)")
    case False
    then have "operands (cs @ ds) ! i \<in> set (operands ds)" using i by (simp add: nth_append)
    then have "operands (cs @ ds) ! i \<noteq> FOpen g" for g using n by metis
    then show ?thesis by (auto simp: tag_ok_def split: operand_sym.split)
  qed (use s in \<open>simp add: nth_append\<close>)
qed

lemma loop_ok_append:
  "loop_ok cs level l x \<Longrightarrow> (\<And>g. FOpen g \<notin> set (operands ds)) \<Longrightarrow> loop_ok (cs @ ds) level l x"
  using last_open_None [of _ "operands ds"] by (auto simp: loop_ok_def target_ok_def last_open_append)

lemma place_byte:
  assumes "place g0 cs d sv t ls s"
  shows "\<exists>s'. mark_byte m b s = Some s' \<and> place g0 (cs @ [SByte m (t mod 256) (b mod 256)]) d sv t ls s'"
proof -
  let ?cs = "cs @ [SByte m (t mod 256) (b mod 256)]"
  let ?s = "s\<lparr>bytes := bytes s @ [b mod 256], pushmap := pushmap s @ [m], trymap := trymap s @ [try_depth s mod 256]\<rparr>"
  have o: "operands ?cs = operands cs" by simp
  have v: "value_ok g ?cs i f x" if "value_ok g cs i f x" "i < length (operands cs)" for g i f x
    using that by (simp add: value_ok_append)
  have "place g0 ?cs d sv t ls ?s"
    unfolding place_def using assms
    by (auto simp: place_def o v fixes_snoc count_append bounded_def intro: sane_append loop_ok_append
        split: fixup_kind.splits)
  then show ?thesis by (simp add: mark_byte_def)
qed

lemma goes_mark: "goes g0 cs d sv t ls (mark_byte m b) (cs @ [marked t m b]) d"
  by (rule goesI) (rule place_byte)

lemma goes_emit: "goes g0 cs d sv t ls (emit_byte b) (cs @ [op t b]) d"
  unfolding emit_byte_def by (rule goes_mark)

lemma goes_emit2: "goes g0 cs d sv t ls (emit_extended_byte b) (cs @ eop t b) d"
  unfolding emit_extended_byte_def
  by (rule goes_eq, rule goes_step [OF goes_emit], rule goes_step [OF goes_emit], rule goes_nil) simp_all

section \<open>Operands\<close>

text \<open>A state with one more fixup stands for one more operand.\<close>

lemma place_fix:
  assumes p: "place g0 cs d sv t ls s"
    and f: "value_ok (the_gstate s') cs (length (operands cs)) f x" "bounded s' f" "tag_ok (length ls) (length (operands cs)) x"
    and b: "bytes s' = bytes s @ [0]" "pushmap s' = pushmap s @ [0]" "trymap s' = trymap s @ [t mod 256]"
      "fixups s' = fixups s @ [f\<lparr>f_pc := length (bytes s)\<rparr>]"
    and n: "num_literals s' = num_literals s + of_bool (is_lit x)" "num_forks s' = num_forks s + of_bool (is_fork x)"
      "num_var_refs s' = num_var_refs s + of_bool (is_var x)" "num_labels s' = num_labels s + of_bool (is_lab x)"
      "num_stacks s' = num_stacks s"
    and g: "gext (the_gstate s) (the_gstate s')"
      "\<And>f. bounded s f \<Longrightarrow> bounded s' f" "max_stack s' = max_stack s" "\<forall>v \<in> set (g_literals (the_gstate s')). scalar v"
    and l: "length (loops s') = length ls" "\<And>j. j < length ls \<Longrightarrow>
        loop_ok (cs @ [SFix (t mod 256) x]) (length ls - Suc j) (loops s' ! j) (ls ! j)"
    and r: "cur_stack s' = cur_stack s" "saved_stack s' = saved_stack s" "try_depth s' = try_depth s"
  shows "place g0 (cs @ [SFix (t mod 256) x]) d sv t ls s'"
proof -
  let ?cs = "cs @ [SFix (t mod 256) x]" and ?n = "length (operands cs)"
  have nf: "length (fixups s) = ?n" by (rule place_fixups [OF p])
  have "value_ok (the_gstate s') ?cs i (fixups s' ! i) (operands ?cs ! i) \<and> bounded s' (fixups s' ! i)"
    if i: "i < length (operands ?cs)" for i
  proof (cases "i < ?n")
    case True
    then have "value_ok (the_gstate s) cs i (fixups s ! i) (operands cs ! i)" "bounded s (fixups s ! i)"
      using p by (auto simp: place_def)
    then have "value_ok (the_gstate s') ?cs i (fixups s ! i) (operands cs ! i)" "bounded s' (fixups s ! i)"
      using value_ok_gext [OF g(1)] g(2) value_ok_append True by (blast intro: less_imp_le)+
    then show ?thesis using True nf b(4) by (simp add: nth_append)
  next
    case False
    then have "i = ?n" using i by simp
    moreover have "value_ok (the_gstate s') ?cs ?n (f\<lparr>f_pc := length (bytes s)\<rparr>) x"
      using value_ok_append [OF f(1), of "[SFix (t mod 256) x]"]
      by (auto simp: value_ok_def target_ok_def split: operand_sym.split)
    moreover have "bounded s' (f\<lparr>f_pc := length (bytes s)\<rparr>)" using f(2) by (auto simp: bounded_def split: fixup_kind.splits)
    ultimately show ?thesis using nf b(4) by (simp add: nth_append)
  qed
  moreover have "sane ?cs (length ls)" using p f(3) by (auto simp: place_def sane_def nth_append less_Suc_eq)
  moreover have "map f_pc (fixups s') = map fst (fixes_of ?cs)" using p b(4) by (simp add: place_def fixes_snoc)
  moreover have "gext g0 (the_gstate s')" using p g(1) gext_trans by (auto simp: place_def)
  ultimately show ?thesis using p b n g(3,4) l r by (simp add: place_def count_append)
qed

lemma loop_ok_snoc:
  "loop_ok cs level l y \<Longrightarrow> x \<noteq> FOpen (Inr level) \<Longrightarrow> loop_ok (cs @ [SFix t x]) level l y"
  by (auto simp: loop_ok_def target_ok_def)

lemma place_loops:
  "place g0 cs d sv t ls s \<Longrightarrow> j < length ls \<Longrightarrow> loop_ok cs (length ls - Suc j) (loops s ! j) (ls ! j)"
  by (simp add: place_def)

lemma place_simple:
  "place g0 cs d sv t ls s \<Longrightarrow> bytes s = map sym_byte cs \<and> length (loops s) = length ls \<and> try_depth s = t \<and>
    (\<forall>v \<in> set (g_literals (the_gstate s)). scalar v)"
  by (simp add: place_def)

lemmas emit_defs = add_fixup_def add_linked_fixup_def add_known_fixup_def emit_byte_def mark_byte_def new_fixup_def
  count_label_def

lemma goes_var_ref: "goes g0 cs d sv t ls (add_var_ref n) (cs @ [fx t (FVar n)]) d"
proof (rule goesI)
  fix s assume p: "place g0 cs d sv t ls s"
  note q = place_simple [OF p] and lo = place_loops [OF p]
  obtain s' where s': "add_var_ref n s = Some s'" by (simp add: add_var_ref_def emit_defs)
  have "place g0 (cs @ [fx t (FVar n)]) d sv t ls s'"
    by (rule place_fix [OF p, where f = "new_fixup FIXUP_VAR_REF n None s"])
      (use s' q in \<open>auto simp: add_var_ref_def emit_defs value_ok_def bounded_def tag_ok_def is_operand_defs gext_def
         split: operand_sym.splits fixup_kind.splits intro!: loop_ok_snoc lo\<close>)
  with s' show "\<exists>s'. add_var_ref n s = Some s' \<and> place g0 (cs @ [fx t (FVar n)]) d sv t ls s'" by blast
qed

lemma goes_stack_ref:
  assumes n: "\<And>s. place g0 cs d sv t ls s \<Longrightarrow> n \<le> max_stack s"
  shows "goes g0 cs d sv t ls (add_stack_ref n) (cs @ [fx t (FStk n)]) d"
proof (rule goesI)
  fix s assume p: "place g0 cs d sv t ls s"
  note q = place_simple [OF p] and lo = place_loops [OF p]
  obtain s' where s': "add_stack_ref n s = Some s'" by (simp add: add_stack_ref_def emit_defs)
  have "place g0 (cs @ [fx t (FStk n)]) d sv t ls s'"
    by (rule place_fix [OF p, where f = "new_fixup FIXUP_STACK n None s"])
      (use s' q n [OF p] in \<open>auto simp: add_stack_ref_def emit_defs value_ok_def bounded_def tag_ok_def is_operand_defs gext_def
         split: operand_sym.splits fixup_kind.splits intro!: loop_ok_snoc lo\<close>)
  with s' show "\<exists>s'. add_stack_ref n s = Some s' \<and> place g0 (cs @ [fx t (FStk n)]) d sv t ls s'" by blast
qed

lemma goes_pseudo: "goes g0 cs d sv t ls (add_pseudo_label n) (cs @ [fx t (FPseudo n)]) d"
proof (rule goesI)
  fix s assume p: "place g0 cs d sv t ls s"
  note q = place_simple [OF p] and lo = place_loops [OF p]
  obtain s' where s': "add_pseudo_label n s = Some s'" by (simp add: add_pseudo_label_def emit_defs)
  have "place g0 (cs @ [fx t (FPseudo n)]) d sv t ls s'"
    by (rule place_fix [OF p, where f = "\<lparr>f_kind = FIXUP_LABEL, f_pc = 0, f_value = n, f_prev_literals = 0, f_prev_forks = 0,
           f_prev_var_refs = 0, f_prev_labels = 0, f_prev_stacks = 0, f_next = None\<rparr>"])
      (use s' q in \<open>auto simp: add_pseudo_label_def emit_defs value_ok_def bounded_def tag_ok_def is_operand_defs gext_def
         split: operand_sym.splits fixup_kind.splits intro!: loop_ok_snoc lo\<close>)
  with s' show "\<exists>s'. add_pseudo_label n s = Some s' \<and> place g0 (cs @ [fx t (FPseudo n)]) d sv t ls s'" by blast
qed

lemma goes_known_label:
  assumes "target_ok cs l f" "f_kind f = FIXUP_LABEL"
  shows "goes g0 cs d sv t ls (add_known_label f) (cs @ [fx t (FLab l)]) d"
proof (rule goesI)
  fix s assume p: "place g0 cs d sv t ls s"
  note q = place_simple [OF p] and lo = place_loops [OF p]
  obtain s' where s': "add_known_label f s = Some s'" by (simp add: add_known_label_def emit_defs)
  have "place g0 (cs @ [fx t (FLab l)]) d sv t ls s'"
    by (rule place_fix [OF p, where f = f])
      (use s' q assms in \<open>auto simp: add_known_label_def emit_defs value_ok_def bounded_def tag_ok_def is_operand_defs gext_def
         split: operand_sym.splits fixup_kind.splits intro!: loop_ok_snoc lo\<close>)
  with s' show "\<exists>s'. add_known_label f s = Some s' \<and> place g0 (cs @ [fx t (FLab l)]) d sv t ls s'" by blast
qed

text \<open>A label is open with the others of its tag.\<close>

lemma goes_linked_label:
  assumes g: "g = Inl j" "j \<le> length (operands cs)" and n: "last_open g (operands cs) = next"
  shows "goes g0 cs d sv t ls (add_linked_label next) (cs @ [fx t (FOpen g)]) d"
proof (rule goesI)
  fix s assume p: "place g0 cs d sv t ls s"
  note q = place_simple [OF p] and lo = place_loops [OF p]
  obtain s' where s': "add_linked_label next s = Some s'" by (simp add: add_linked_label_def emit_defs)
  have "place g0 (cs @ [fx t (FOpen g)]) d sv t ls s'"
    by (rule place_fix [OF p, where f = "new_fixup FIXUP_LABEL 0 next s"])
      (use s' q assms in \<open>auto simp: add_linked_label_def emit_defs value_ok_def bounded_def tag_ok_def is_operand_defs gext_def
         split: operand_sym.splits fixup_kind.splits intro!: loop_ok_snoc lo\<close>)
  with s' show "\<exists>s'. add_linked_label next s = Some s' \<and> place g0 (cs @ [fx t (FOpen g)]) d sv t ls s'" by blast
qed

lemma sane_new_tag: "sane cs n \<Longrightarrow> length (operands cs) \<le> j \<Longrightarrow> last_open (Inl j) (operands cs) = None"
  unfolding last_open_None sane_def
  by (auto simp: in_set_conv_nth tag_ok_def)

lemma goes_label: "goes g0 cs d sv t ls add_label (cs @ [fx t (FOpen (Inl (length (operands cs))))]) d"
  unfolding add_label_def
  by (rule goes_sane) (rule goes_linked_label [OF refl order.refl], rule sane_new_tag, simp_all)

section \<open>Defining labels\<close>

text \<open>All open labels of a tag point to the end of the code.\<close>

definition point_all :: "nat + nat \<Rightarrow> nat \<Rightarrow> operand_sym list \<Rightarrow> state \<Rightarrow> state" where
  "point_all g n xs s =
     s\<lparr>fixups := map (\<lambda>i. if i < n \<and> xs ! i = FOpen g then point_here s (fixups s ! i) else fixups s ! i) [0..<length (fixups s)]\<rparr>"

lemma define_chain_all:
  assumes "n \<le> length xs" "length xs = length (fixups s)" "n \<le> fuel"
    and "\<forall>i < n. xs ! i = FOpen g \<longrightarrow> f_next (fixups s ! i) = last_open g (take i xs)"
  shows "define_chain fuel (last_open g (take n xs)) s = Some (point_all g n xs s)"
  using assms
proof (induction n arbitrary: s fuel)
  case 0
  have "map (\<lambda>i. fixups s ! i) [0..<length (fixups s)] = fixups s" by (rule map_nth)
  then show ?case by (cases fuel) (simp_all add: point_all_def)
next
  case (Suc n)
  have tk: "take (Suc n) xs = take n xs @ [xs ! n]" using Suc.prems(1) by (simp add: take_Suc_conv_app_nth)
  show ?case
  proof (cases "xs ! n = FOpen g")
    case False
    then have "(i < Suc n \<and> xs ! i = FOpen g) = (i < n \<and> xs ! i = FOpen g)" for i by (auto simp: less_Suc_eq)
    then have "point_all g (Suc n) xs s = point_all g n xs s" by (simp only: point_all_def)
    then show ?thesis using Suc.IH [of s fuel] Suc.prems False by (simp add: tk)
  next
    case True
    obtain f1 where fuel: "fuel = Suc f1" using Suc.prems(3) by (cases fuel) auto
    let ?s1 = "s\<lparr>fixups := (fixups s)[n := point_here s (fixups s ! n)]\<rparr>"
    have n: "n < length (fixups s)" using Suc.prems(1,2) by simp
    have nx: "f_next (fixups s ! n) = last_open g (take n xs)" using Suc.prems(4) True by simp
    have p: "point_here ?s1 f = point_here s f" for f by (simp add: point_here_def)
    have "define_chain f1 (last_open g (take n xs)) ?s1 = Some (point_all g n xs ?s1)"
      by (rule Suc.IH) (use Suc.prems fuel in auto)
    moreover have "point_all g n xs ?s1 = point_all g (Suc n) xs s"
      using n True unfolding point_all_def p
      by (auto intro!: arg_cong [of _ _ "\<lambda>fs. s\<lparr>fixups := fs\<rparr>"] simp: less_Suc_eq nth_list_update)
    ultimately show ?thesis using True n nx Suc.prems(1) by (simp add: tk fuel)
  qed
qed

lemma value_ok_close:
  assumes v: "value_ok g cs i f x" and i: "i < length (operands cs)" "operands cs ! i = x"
    and P: "P = (\<lambda>y. y = tag)"
    and that: "bytes s = map sym_byte cs" "num_literals s = count_ops is_lit cs" "num_forks s = count_ops is_fork cs"
      "num_var_refs s = count_ops is_var cs" "num_labels s = count_ops is_lab cs" "num_stacks s = 0"
  shows "value_ok g (close_tag P (length cs) cs) i (if x = FOpen tag then point_here s f else f) (closing P (length cs) x)"
proof (cases x)
  case (FOpen y)
  have l: "last_open y (map (closing P k) xs) = last_open y xs" if "y \<noteq> tag" for xs k
  proof (induction xs rule: rev_induct)
    case (snoc z xs)
    then show ?case using P \<open>y \<noteq> tag\<close> by (cases z) (auto simp: closing_def)
  qed simp
  show ?thesis
  proof (cases "y = tag")
    case True
    then show ?thesis using FOpen v P that
      by (simp add: value_ok_def closing_def target_ok_def point_here_def)
  next
    case False
    then show ?thesis using FOpen v P l [OF False]
      by (simp add: value_ok_def closing_def close_tag_operands take_map)
  qed
qed (use v P in \<open>simp_all add: value_ok_def closing_def target_ok_def take_close_tag\<close>)

lemma last_open_closing:
  "h \<noteq> g \<Longrightarrow> last_open h (map (closing (\<lambda>y. y = g) k) xs) = last_open h xs"
proof (induction xs rule: rev_induct)
  case (snoc z xs)
  then show ?case by (cases z) (auto simp: closing_def)
qed simp

text \<open>
  The labels of a tag are defined; when the tag is that of the innermost loop, the loop is left.
\<close>

lemma place_define:
  assumes p: "place g0 cs d sv t (pre @ ls) s" and lab: "last_open g (operands cs) = lab"
    and g: "\<forall>lv < length ls. g \<noteq> Inr lv" "sane (close_tag (\<lambda>y. y = g) (length cs) cs) (length ls)"
  shows "\<exists>s'. define_label lab s = Some s' \<and> loops s' = loops s \<and>
    place g0 (close_tag (\<lambda>y. y = g) (length cs) cs) d sv t ls (s'\<lparr>loops := drop (length pre) (loops s)\<rparr>)"
proof -
  let ?n = "length (operands cs)" and ?cs = "close_tag (\<lambda>y. y = g) (length cs) cs"
  let ?s = "point_all g ?n (operands cs) s"
  have nf: "length (fixups s) = ?n" by (rule place_fixups [OF p])
  have "define_label (last_open g (take ?n (operands cs))) s = Some ?s"
    unfolding define_label_def
    by (rule define_chain_all) (use p nf in \<open>auto simp: place_def value_ok_def\<close>)
  then have "define_label lab s = Some ?s" using lab by simp
  moreover have "place g0 ?cs d sv t ls (?s\<lparr>loops := drop (length pre) (loops s)\<rparr>)"
  proof -
    have fs: "fixups ?s ! i = (if operands cs ! i = FOpen g then point_here s (fixups s ! i) else fixups s ! i)" if "i < ?n" for i
      using that nf by (simp add: point_all_def)
    have "value_ok (the_gstate s) ?cs i (fixups ?s ! i) (operands ?cs ! i) \<and> bounded s (fixups ?s ! i)" if "i < ?n" for i
    proof -
      have v: "value_ok (the_gstate s) cs i (fixups s ! i) (operands cs ! i)" "bounded s (fixups s ! i)"
        using p that by (auto simp: place_def)
      have "value_ok (the_gstate s) ?cs i (fixups ?s ! i) (operands ?cs ! i)"
        using value_ok_close [OF v(1) that refl refl, of s g] p that
        by (simp add: place_def fs [OF that] close_tag_operands)
      moreover have "bounded s (fixups ?s ! i)"
        using v unfolding fs [OF that] by (auto simp: bounded_def point_here_def value_ok_def)
      ultimately show ?thesis by blast
    qed
    moreover have "bounded ?s f = bounded s f" for f by (simp add: bounded_def point_all_def split: fixup_kind.split)
    moreover have "loop_ok ?cs (length ls - Suc i) (drop (length pre) (loops s) ! i) (ls ! i) \<and>
        x_top_stack (ls ! i) \<le> max_stack s \<and> x_bottom_stack (ls ! i) \<le> max_stack s" if i: "i < length ls" for i
    proof -
      have j: "length pre + i < length (pre @ ls)" using i by simp
      have l: "length (loops s) = length pre + length ls" using place_simple [OF p] by simp
      have "loop_ok cs (length ls - Suc i) (loops s ! (length pre + i)) (ls ! i)"
        using place_loops [OF p j] by simp
      moreover have "x_top_stack (ls ! i) \<le> max_stack s \<and> x_bottom_stack (ls ! i) \<le> max_stack s"
        using p j by (auto simp: place_def nth_append dest: spec [of _ "length pre + i"])
      moreover have "Inr (length ls - Suc i) \<noteq> g" using g(1) i by (metis diff_Suc_less length_pos_if_in_set nth_mem)
      ultimately show ?thesis using l
        by (simp add: loop_ok_def target_ok_def close_tag_operands take_close_tag last_open_closing)
    qed
    moreover have "map f_pc (fixups ?s) = map f_pc (fixups s)"
      by (rule nth_equalityI) (auto simp: point_all_def point_here_def)
    moreover have "map fst (fixes_of ?cs) = map fst (fixes_of cs)"
      by (simp add: fixes_of_def close_tag_fixes comp_def apsnd_def map_prod_def case_prod_beta)
    ultimately show ?thesis using p g(2) by (auto simp: place_def point_all_def close_tag_operands)
  qed
  moreover have "loops ?s = loops s" by (simp add: point_all_def)
  ultimately show ?thesis by blast
qed

lemma goes_define:
  assumes g: "g = Inl j" and lab: "last_open g (operands cs) = lab"
  shows "goes g0 cs d sv t ls (define_label lab) (close_tag (\<lambda>y. y = g) (length cs) cs) d"
proof (rule goesI)
  fix s assume p: "place g0 cs d sv t ls s"
  have sane: "sane (close_tag (\<lambda>y. y = g) (length cs) cs) (length ls)"
    using p by (auto simp: place_def sane_def close_tag_operands closing_def tag_ok_def split: operand_sym.splits)
  from place_define [of g0 cs d sv t "[]" ls s, unfolded append_Nil, OF p lab _ sane] g
  obtain s' where s': "define_label lab s = Some s'" "loops s' = loops s"
    "place g0 (close_tag (\<lambda>y. y = g) (length cs) cs) d sv t ls (s'\<lparr>loops := loops s\<rparr>)" by auto
  have "s'\<lparr>loops := loops s\<rparr> = s'" using s'(2) by (cases s') simp
  with s' show "\<exists>s'. define_label lab s = Some s' \<and> place g0 (close_tag (\<lambda>y. y = g) (length cs) cs) d sv t ls s'"
    by auto
qed

section \<open>The stack\<close>

lemma place_sv: "place g0 cs d sv t ls s \<Longrightarrow> sv_ok sv d"
  by (simp add: place_def)

lemma goes_push: "goes g0 cs d sv t ls (push_stack n) cs (d + n)"
proof (rule goesI)
  fix s assume p: "place g0 cs d sv t ls s"
  let ?s = "s\<lparr>cur_stack := cur_stack s + n, max_stack := max (cur_stack s + n) (max_stack s)\<rparr>"
  have "bounded s f \<Longrightarrow> bounded ?s f" for f by (auto simp: bounded_def split: fixup_kind.splits)
  then have "place g0 cs (d + n) sv t ls ?s" using p sv_ok_mono [of sv d "d + n"]
    by (fastforce simp: place_def)
  then show "\<exists>s'. push_stack n s = Some s' \<and> place g0 cs (d + n) sv t ls s'" by (simp add: push_stack_def)
qed

lemma goes_pop: "n \<le> d \<Longrightarrow> sv_ok sv (d - n) \<Longrightarrow> goes g0 cs d sv t ls (pop_stack n) cs (d - n)"
proof (rule goesI)
  fix s assume n: "n \<le> d" "sv_ok sv (d - n)" and p: "place g0 cs d sv t ls s"
  let ?s = "s\<lparr>cur_stack := cur_stack s - n\<rparr>"
  have "place g0 cs (d - n) sv t ls ?s" using p n by (auto simp: place_def)
  moreover have "cur_stack s = d" using p by (simp add: place_def)
  ultimately show "\<exists>s'. pop_stack n s = Some s' \<and> place g0 cs (d - n) sv t ls s'" using n by (simp add: pop_stack_def)
qed

lemma place_saved: "sv_ok sv1 d \<Longrightarrow> place g0 cs d sv t ls s \<Longrightarrow> place g0 cs d sv1 t ls (s\<lparr>saved_stack := sv1\<rparr>)"
  by (simp add: place_def)

lemma goes_with:
  assumes "0 < d" "d \<le> d'" and "goes g0 cs d (Some (d - 1)) t ls G cs' d'"
  shows "goes g0 cs d sv t ls (with_stack_top G) cs' d'"
proof (rule goesI)
  fix s assume p: "place g0 cs d sv t ls s"
  have d: "cur_stack s = d" "saved_stack s = sv" using p by (auto simp: place_def)
  have "place g0 cs d (Some (d - 1)) t ls (s\<lparr>saved_stack := Some (d - 1)\<rparr>)"
    by (rule place_saved [OF _ p]) (use assms(1) in simp)
  from goesD [OF assms(3) this] obtain s1 where s1: "G (s\<lparr>saved_stack := Some (d - 1)\<rparr>) = Some s1"
    "place g0 cs' d' (Some (d - 1)) t ls s1" by blast
  have "place g0 cs' d' sv t ls (s1\<lparr>saved_stack := sv\<rparr>)"
    by (rule place_saved [OF _ s1(2)]) (rule sv_ok_mono [OF place_sv [OF p] assms(2)])
  with s1 d assms(1) show "\<exists>s'. with_stack_top G s = Some s' \<and> place g0 cs' d' sv t ls s'"
    by (simp add: with_stack_top_def)
qed

lemma place_try: "place g0 cs d sv t ls s \<Longrightarrow> place g0 cs d sv t1 ls (s\<lparr>try_depth := t1\<rparr>)"
  by (simp add: place_def)

lemma goes_try:
  assumes "goes g0 cs d sv (t + 1) ls G cs' d'"
  shows "goes g0 cs d sv t ls (in_try G) cs' d'"
proof (rule goesI)
  fix s assume p: "place g0 cs d sv t ls s"
  have d: "try_depth s = t" using p by (simp add: place_def)
  from goesD [OF assms place_try [OF p]] obtain s1 where s1: "G (s\<lparr>try_depth := t + 1\<rparr>) = Some s1"
    "place g0 cs' d' sv (t + 1) ls s1" by blast
  have "try_depth s1 - 1 = t" using s1(2) by (simp add: place_def)
  with s1 d place_try [OF s1(2), of t] show "\<exists>s'. in_try G s = Some s' \<and> place g0 cs' d' sv t ls s'"
    by (simp add: in_try_def)
qed

section \<open>Literals\<close>

lemma scalar_equal:
  assumes "scalar v" "scalar w" "type_of v = type_of w"
  shows "\<exists>e. equality v w True = Some e"
  using assms by (cases v; cases w) (auto simp: scalar_def equality.simps)

lemma literal_index_ok:
  assumes "scalar v" "\<forall>w \<in> set ws. scalar w"
  shows "\<exists>i. literal_index v ws = Some i \<and> i \<le> length ws \<and> (i < length ws \<longrightarrow> same_literal v (ws ! i))"
  using assms(2)
proof (induction ws)
  case (Cons w ws)
  then obtain i where "literal_index v ws = Some i" "i \<le> length ws" "i < length ws \<longrightarrow> same_literal v (ws ! i)" by auto
  then show ?case using scalar_equal [OF assms(1), of w] Cons.prems by (auto simp: same_literal_def split: option.split)
qed simp

lemma goes_literal:
  assumes v: "scalar v"
  shows "goes g0 cs d sv t ls (add_literal v) (cs @ [fx t (FLit v)]) d"
proof (rule goesI)
  fix s assume p: "place g0 cs d sv t ls s"
  let ?ws = "g_literals (the_gstate s)"
  note q = place_simple [OF p] and lo = place_loops [OF p]
  obtain i where i: "literal_index v ?ws = Some i" "i \<le> length ?ws" "i < length ?ws \<longrightarrow> same_literal v (?ws ! i)"
    using literal_index_ok [OF v] q by blast
  obtain s' where s': "add_literal v s = Some s'" using i by (simp add: add_literal_def emit_defs)
  have "place g0 (cs @ [fx t (FLit v)]) d sv t ls s'"
    by (rule place_fix [OF p, where f = "new_fixup FIXUP_LITERAL i None s"])
      (use s' q i v in \<open>auto simp: add_literal_def emit_defs value_ok_def bounded_def tag_ok_def is_operand_defs gext_def
         same_literal_def nth_append split: operand_sym.splits fixup_kind.splits if_splits intro!: loop_ok_snoc lo\<close>)
  with s' show "\<exists>s'. add_literal v s = Some s' \<and> place g0 (cs @ [fx t (FLit v)]) d sv t ls s'" by blast
qed

section \<open>Forks\<close>

lemma place_init: "\<forall>v \<in> set (g_literals g). scalar v \<Longrightarrow> place g [] 0 None 0 [] (init_state g)"
  by (simp add: place_def init_state_def fixes_of_def count_ops_def sane_def gext_refl)

lemma code_of_goes:
  assumes "\<And>g. goes g [] 0 None 0 [] G c 0" and "\<forall>v \<in> set (g_literals g). scalar v"
  shows "\<exists>s bc. steps [G, emit_ending_op OP_DONE] (init_state g) = Some s \<and>
    place g (c @ [marked 0 OP_DONE OP_DONE]) 0 None 0 [] s \<and> code_of G g = Some (bc, the_gstate s) \<and>
    bc = (choose_widths s)\<lparr>bc_vector := expand (choose_widths s) (fixups s) 0 (reduce_refs s)\<rparr>"
proof -
  have "goes g [] 0 None 0 [] (steps [G, emit_ending_op OP_DONE]) (c @ [marked 0 OP_DONE OP_DONE]) 0"
    unfolding emit_ending_op_def
    by (rule goes_step [OF assms(1)], rule goes_step [OF goes_mark], rule goes_nil)
  from goesD [OF this place_init [OF assms(2)]] obtain s where s: "steps [G, emit_ending_op OP_DONE] (init_state g) = Some s"
    "place g (c @ [marked 0 OP_DONE OP_DONE]) 0 None 0 [] s" by blast
  moreover have "cur_stack s = 0" "saved_stack s = None" using s(2) by (auto simp: place_def)
  ultimately show ?thesis by (simp add: code_of_def finish_code_def Let_def)
qed

lemma goes_fork:
  assumes body: "\<And>g. goes g [] 0 None 0 [] (generate_stmts body) c 0"
  shows "goes g0 cs d sv t ls (fork_code i (generate_stmts body))
    (cs @ [fx t (FFork body)] @ (case i of None \<Rightarrow> [] | Some v \<Rightarrow> [fx t (FVar v)])) d"
proof (rule goesI)
  fix s assume p: "place g0 cs d sv t ls s"
  note q = place_simple [OF p]
  obtain s0 bc where s0: "place (the_gstate s) (c @ [marked 0 OP_DONE OP_DONE]) 0 None 0 [] s0"
    "code_of (generate_stmts body) (the_gstate s) = Some (bc, the_gstate s0)"
    using code_of_goes [OF body] q by blast
  let ?g = "the_gstate s0"
  let ?s1 = "s\<lparr>the_gstate := ?g\<rparr>"
  have ge: "gext (the_gstate s) ?g" "\<forall>v \<in> set (g_literals ?g). scalar v" using s0(1) by (auto simp: place_def)
  have "place g0 cs d sv t ls ?s1"
    using p ge gext_trans [of g0 "the_gstate s" ?g] value_ok_gext [OF ge(1)] by (auto simp: place_def)
  note q1 = place_simple [OF this] and p1 = this and lo = place_loops [OF p]
  have m: "made_from (?g\<lparr>g_fork_vectors := g_fork_vectors ?g @ [bc]\<rparr>) body bc"
    unfolding made_from_def stmt_to_code_def using s0(2) q by (auto simp: gext_def)
  obtain s2 where s2: "add_fork bc ?s1 = Some s2" by (simp add: add_fork_def emit_defs Let_def)
  have p2: "place g0 (cs @ [fx t (FFork body)]) d sv t ls s2"
    by (rule place_fix [OF p1, where f = "new_fixup FIXUP_FORK (length (g_fork_vectors ?g)) None ?s1"])
      (use s2 q1 ge m in \<open>auto simp: add_fork_def Let_def emit_defs value_ok_def bounded_def tag_ok_def is_operand_defs gext_def
         split: operand_sym.splits fixup_kind.splits intro!: loop_ok_snoc lo\<close>)
  show "\<exists>s'. fork_code i (generate_stmts body) s = Some s' \<and>
      place g0 (cs @ [fx t (FFork body)] @ (case i of None \<Rightarrow> [] | Some v \<Rightarrow> [fx t (FVar v)])) d sv t ls s'"
  proof (cases i)
    case None
    then show ?thesis using p2 s0(2) s2 by (simp add: fork_code_def)
  next
    case (Some v)
    obtain s3 where "add_var_ref v s2 = Some s3" "place g0 ((cs @ [fx t (FFork body)]) @ [fx t (FVar v)]) d sv t ls s3"
      using goesD [OF goes_var_ref p2] by blast
    then show ?thesis using Some s0(2) s2 by (simp add: fork_code_def)
  qed
qed

section \<open>Loops\<close>

lemma goes_top:
  assumes "\<And>f. f_kind f = FIXUP_LABEL \<Longrightarrow> target_ok cs (length cs) f \<Longrightarrow> goes g0 cs d sv t ls (G f) cs' d'"
  shows "goes g0 cs d sv t ls (at_top G) cs' d'"
proof (rule goesI)
  fix s assume p: "place g0 cs d sv t ls s"
  then have "target_ok cs (length cs) (capture_label s)" "f_kind (capture_label s) = FIXUP_LABEL"
    by (simp_all add: target_ok_def capture_label_def new_fixup_def place_def)
  from goesD [OF assms [OF this(2,1)] p] show "\<exists>s'. at_top G s = Some s' \<and> place g0 cs' d' sv t ls s'"
    by (simp add: at_top_def)
qed

text \<open>What the end of a loop does before its label does not depend on the loops.\<close>

lemma mark_loops: "mark_byte m b (s\<lparr>loops := ls\<rparr>) = map_option (\<lambda>s. s\<lparr>loops := ls\<rparr>) (mark_byte m b s)"
  by (simp add: mark_byte_def)

lemma define_loops: "define_chain n l (s\<lparr>loops := ls\<rparr>) = map_option (\<lambda>s. s\<lparr>loops := ls\<rparr>) (define_chain n l s)"
proof (induction n l s rule: define_chain.induct)
  case (3 fuel label s)
  let ?f = "\<lambda>s :: state. s\<lparr>fixups := (fixups s)[label := point_here s (fixups s ! label)]\<rparr>"
  have e: "?f (s\<lparr>loops := ls\<rparr>) = (?f s)\<lparr>loops := ls\<rparr>" by (cases s) (simp add: point_here_def)
  have e1: "fixups (s\<lparr>loops := ls\<rparr>) = fixups s" by simp
  show ?case
  proof (cases "label < length (fixups s)")
    case True
    have "define_chain (Suc fuel) (Some label) (s\<lparr>loops := ls\<rparr>) =
        define_chain fuel (f_next (fixups s ! label)) (?f (s\<lparr>loops := ls\<rparr>))"
      using True by (simp only: define_chain.simps e1 if_True)
    also have "\<dots> = map_option (\<lambda>s. s\<lparr>loops := ls\<rparr>) (define_chain fuel (f_next (fixups s ! label)) (?f s))"
      unfolding e by (rule 3 [OF True])
    finally show ?thesis using True by (simp only: define_chain.simps if_True)
  qed (simp only: define_chain.simps e1 if_False option.map)
qed simp_all

lemma end_loops:
  "steps [emit_byte OP_JUMP, add_known_label f, define_label l] (s\<lparr>loops := ls\<rparr>) =
   map_option (\<lambda>s. s\<lparr>loops := ls\<rparr>) (steps [emit_byte OP_JUMP, add_known_label f, define_label l] s)"
proof -
  let ?F = "\<lambda>s :: state. s\<lparr>bytes := bytes s @ [140], pushmap := pushmap s @ [0], trymap := trymap s @ [try_depth s mod 256]\<rparr>"
  let ?G = "\<lambda>s :: state. s\<lparr>fixups := fixups s @ [f\<lparr>f_pc := length (bytes s)\<rparr>], bytes := bytes s @ [0],
    pushmap := pushmap s @ [0], trymap := trymap s @ [try_depth s mod 256], num_labels := num_labels s + 1\<rparr>"
  have 1: "steps [emit_byte OP_JUMP, add_known_label f, define_label l] s =
      define_chain (length (fixups (?G (?F s)))) l (?G (?F s))" for s :: state
    by (simp add: emit_defs add_known_label_def define_label_def split: option.split)
  have 2: "?G (?F (s\<lparr>loops := ls\<rparr>)) = (?G (?F s))\<lparr>loops := ls\<rparr>" by (cases s) simp
  have 3: "fixups ((?G (?F s))\<lparr>loops := ls\<rparr>) = fixups (?G (?F s))" by (cases s) simp
  show ?thesis unfolding 1 2 3 by (rule define_loops)
qed

end
