(* ===== verification/CodeExprs.thy ===== *)
theory CodeExprs
  imports CodeRules
begin

text \<open>
  The generator emits the documented sequence of every expression, and leaves one value more
  on the stack.
\<close>

section \<open>No label of an expression stays open\<close>

lemma open_var_op [simp]: "FOpen g \<notin> set (operands (var_op t b n))"
  by (simp add: var_op_def)

lemma open_binary [simp]: "FOpen g \<notin> set (operands (binary_op k t))"
  by (cases k) simp_all

lemma open_unary [simp]: "FOpen g \<notin> set (operands (unary_op k t))"
  by (cases k) simp_all

lemma open_code_var [simp]: "FOpen g \<notin> set (operands (code_var v t))"
  by (simp add: code_var_def split: var.split)

lemma open_arg [simp]: "operands [arg_op first kind t] = []" "operands (arg_op first kind t # cs) = operands cs"
  by (simp_all add: arg_op_def)

lemma open_store [simp]: "FOpen g \<notin> set (operands (code_store b e t))"
  by (induction b e t rule: code_store.induct) simp_all

lemma open_scatter_head [simp]: "FOpen g \<notin> set (operands (code_scatter_head sc t))"
  by (simp add: code_scatter_head_def split: prod.split)

lemma open_expr_all:
  "\<forall>k d sv t. FOpen g \<notin> set (operands (code_expr e k d sv t))"
  "\<forall>k d sv t. FOpen g \<notin> set (operands (code_args first as k d sv t))"
  "\<forall>k d sv t. FOpen g \<notin> set (operands (code_codes as k d sv t))"
  "\<forall>k d sv t. FOpen g \<notin> set (operands (code_maps ms k d sv t))"
  "\<forall>k d sv t. FOpen g \<notin> set (operands (code_lvalue up e k d sv t))"
  "\<forall>k d sv t. FOpen g \<notin> set (operands (fst (code_scatter sc k d sv t))) \<and> FOpen g \<notin> set (operands (snd (code_scatter sc k d sv t)))"
  by (induction e and first as and as and ms and up e and sc
      rule: code_expr_code_args_code_codes_code_maps_code_lvalue_code_scatter.induct)
    (simp_all add: Let_def case_prod_beta split: expr.split option.split args.split)


section \<open>What a generator adds\<close>

text \<open>The generator \<open>G\<close> adds the sequence \<open>C\<close>, and \<open>n\<close> values to the stack.\<close>

definition yields :: "bool \<Rightarrow> gen \<Rightarrow> (nat \<Rightarrow> nat \<Rightarrow> nat option \<Rightarrow> nat \<Rightarrow> sym list) \<Rightarrow> nat \<Rightarrow> bool" where
  "yields ix G C n \<longleftrightarrow> (\<forall>g0 cs d sv t ls. (ix \<longrightarrow> sv \<noteq> None) \<longrightarrow> goes g0 cs d sv t ls G (cs @ C (length cs) d sv t) (d + n))"

lemma goes_sv: "(\<forall>e \<ge> d. sv_ok sv e \<Longrightarrow> goes g0 cs d sv t ls G cs' d') \<Longrightarrow> goes g0 cs d sv t ls G cs' d'"
  unfolding goes_def using place_sv sv_ok_mono by blast

lemma yieldsI:
  "(\<And>g0 cs d sv t ls. (ix \<longrightarrow> sv \<noteq> None) \<Longrightarrow> \<forall>e \<ge> d. sv_ok sv e \<Longrightarrow>
     goes g0 cs d sv t ls G (cs @ C (length cs) d sv t) (d + n)) \<Longrightarrow> yields ix G C n"
  unfolding yields_def by (meson goes_sv)

lemma yieldsD: "yields ix G C n \<Longrightarrow> (ix \<longrightarrow> sv \<noteq> None) \<Longrightarrow> goes g0 cs d sv t ls G (cs @ C (length cs) d sv t) (d + n)"
  by (simp add: yields_def)

text \<open>A label of one operand is defined.\<close>

lemma sane_front: "sane (cs @ ds) n \<Longrightarrow> length (operands cs) \<le> j \<Longrightarrow> FOpen (Inl j) \<notin> set (operands cs)"
proof
  assume s: "sane (cs @ ds) n" and j: "length (operands cs) \<le> j" and "FOpen (Inl j) \<in> set (operands cs)"
  then obtain i where i: "i < length (operands cs)" "operands cs ! i = FOpen (Inl j)" by (auto simp: in_set_conv_nth)
  then have "tag_ok n i (FOpen (Inl j))" using s unfolding sane_def by (auto simp: nth_append dest: spec [of _ i])
  then show False using i(1) j by (simp add: tag_ok_def)
qed

lemma close_one: "FOpen g \<notin> set (operands cs) \<Longrightarrow> close_tag (\<lambda>y. y = g) k cs = cs"
  by (rule close_tag_none) simp

lemma goes_define_one:
  assumes l: "l = length (operands cs)" and r: "FOpen (Inl l) \<notin> set (operands r)"
  shows "goes g0 (cs @ fx u (FOpen (Inl l)) # r) d sv t ls (define_label (Some l))
    (cs @ fx u (FLab (length cs + 1 + length r)) # r) d"
proof (rule goes_sane)
  let ?cs = "cs @ fx u (FOpen (Inl l)) # r"
  assume "sane ?cs (length ls)"
  then have f: "FOpen (Inl l) \<notin> set (operands cs)" using l sane_front by blast
  have "last_open (Inl l) (operands ?cs) = Some l"
    using r f l by (simp add: last_open_append last_open_Cons last_open_None [symmetric])
  from goes_define [OF refl this] show "goes g0 ?cs d sv t ls (define_label (Some l))
      (cs @ fx u (FLab (length cs + 1 + length r)) # r) d"
    by (rule goes_eq) (use f r in \<open>simp_all add: close_tag_append close_one\<close>)
qed

lemma goes_var_op: "goes g0 cs d sv t ls (emit_var_op b n) (cs @ var_op t b n) d"
  unfolding emit_var_op_def var_op_def
  by (cases "n \<ge> 32") (auto intro: goes_mark goes_step [OF goes_emit goes_eq [OF goes_step [OF goes_var_ref goes_nil]]])

lemma goes_binary: "goes g0 cs d sv t ls (binary_code k) (cs @ binary_op k t) d"
  by (cases k) (simp_all only: binary_code.simps binary_op.simps goes_emit goes_emit2)

lemma goes_unary: "goes g0 cs d sv t ls (unary_code k) (cs @ unary_op k t) d"
  by (cases k) (simp_all only: unary_code.simps unary_op.simps goes_emit goes_emit2)


section \<open>The cases\<close>

lemma yields_id: "yields ix (generate_expr (EXPR_ID i)) (code_expr (EXPR_ID i)) 1"
  by (rule yieldsI) (auto intro!: goes_step [OF goes_var_op] goes_step [OF goes_push goes_nil, THEN goes_eq] simp: simp del: One_nat_def)

lemma yields_var: "scalar v \<Longrightarrow> yields ix (generate_expr (EXPR_VAR v)) (code_expr (EXPR_VAR v)) 1"
proof (rule yieldsI)
  fix g0 cs d sv t ls assume v: "scalar v"
  have l: "goes g0 cs d sv t ls (steps [emit_byte OP_IMM, add_literal v]) (cs @ [op t OP_IMM, fx t (FLit v)]) d"
    by (rule goes_eq, rule goes_step [OF goes_emit], rule goes_step [OF goes_literal [OF v]], rule goes_nil) simp_all
  show "goes g0 cs d sv t ls (generate_expr (EXPR_VAR v)) (cs @ code_expr (EXPR_VAR v) (length cs) d sv t) (d + 1)"
    unfolding generate_expr.simps generate_var_def code_expr.simps
    by (rule goes_step [OF _ goes_step [OF goes_push goes_nil]])
      (use l goes_emit in \<open>auto simp: code_var_def split: var.split\<close>)
qed

lemma yields_binary:
  assumes l: "yields ix (generate_expr l) (code_expr l) 1" and r: "yields ix (generate_expr r) (code_expr r) 1"
  shows "yields ix (generate_expr (EXPR_BINARY k l r)) (code_expr (EXPR_BINARY k l r)) 1"
proof (rule yieldsI)
  fix g0 cs d sv t ls assume sv: "ix \<longrightarrow> sv \<noteq> None" "\<forall>e \<ge> d. sv_ok sv e"
  show "goes g0 cs d sv t ls (generate_expr (EXPR_BINARY k l r)) (cs @ code_expr (EXPR_BINARY k l r) (length cs) d sv t) (d + 1)"
    unfolding generate_expr.simps
    by (rule goes_eq, rule goes_step [OF yieldsD [OF l sv(1)]], rule goes_step [OF yieldsD [OF r sv(1)]],
        rule goes_step [OF goes_binary], rule goes_step [OF goes_pop], simp, use sv in simp, rule goes_nil)
      (simp_all add: Let_def add.assoc)
qed

lemma goes_define_at:
  assumes "cs' = cs @ fx u (FOpen (Inl l)) # r" "l = length (operands cs)" "FOpen (Inl l) \<notin> set (operands r)"
  shows "goes g0 cs' d sv t ls (define_label (Some l)) (cs @ fx u (FLab (length cs + 1 + length r)) # r) d"
  using goes_define_one [OF assms(2,3)] assms(1) by simp

lemmas goes_last = goes_step [OF _ goes_nil]
lemmas open_simps [simp] = open_expr_all [rule_format]

lemma goes_and:
  assumes l: "yields ix G C 1" and r: "yields ix H D 1" and ix: "ix \<longrightarrow> sv \<noteq> None" and sv: "\<forall>e \<ge> d. sv_ok sv e"
    and o: "\<And>g k d sv t. FOpen g \<notin> set (operands (D k d sv t))"
  shows "goes g0 cs d sv t ls (steps [G, emit_byte b, next_label (\<lambda>l. steps [add_label, pop_stack 1, H, define_label (Some l)])])
    (cs @ (let cl = C (length cs) d sv t; m = length cs + length cl + 2; cr = D m d sv t in
      cl @ [op t b, fx t (FLab (m + length cr))] @ cr)) (d + 1)"
  by (rule goes_eq, rule goes_step [OF yieldsD [OF l ix]], rule goes_step [OF goes_emit], rule goes_last [OF goes_next],
      rule goes_step [OF goes_label], rule goes_step [OF goes_pop], simp, use sv in simp,
      rule goes_step [OF yieldsD [OF r ix]],
      rule goes_last [OF goes_define_at [where cs = "cs @ C (length cs) d sv t @ [op t b]" and u = t
        and r = "D (length cs + length (C (length cs) d sv t) + 2) d sv t"]])
    (simp_all add: Let_def o)

lemma yields_and:
  assumes l: "yields ix (generate_expr l) (code_expr l) 1" and r: "yields ix (generate_expr r) (code_expr r) 1"
  shows "yields ix (generate_expr (EXPR_AND l r)) (code_expr (EXPR_AND l r)) 1"
    "yields ix (generate_expr (EXPR_OR l r)) (code_expr (EXPR_OR l r)) 1"
  by (rule yieldsI, simp only: generate_expr.simps code_expr.simps, rule goes_and [OF l r], assumption+, simp)+

lemma yields_unary:
  assumes l: "yields ix (generate_expr e) (code_expr e) 1"
  shows "yields ix (generate_expr (EXPR_UNARY k e)) (code_expr (EXPR_UNARY k e)) 1"
  by (rule yieldsI, simp only: generate_expr.simps, rule goes_eq, rule goes_step [OF yieldsD [OF l]], assumption,
      rule goes_last [OF goes_unary]) simp_all

lemma yields_stack_top:
  assumes "b = EOP_FIRST \<and> C = code_expr EXPR_FIRST \<or> b = EOP_LAST \<and> C = code_expr EXPR_LAST"
  shows "yields True (stack_top_code b) C 1"
proof (rule yieldsI)
  fix g0 cs d t ls and sv :: "nat option" assume "True \<longrightarrow> sv \<noteq> None" and ok: "\<forall>e \<ge> d. sv_ok sv e"
  then obtain i where i: "sv = Some i" by auto
  have m: "place g0 (cs @ eop t b) d sv t ls s \<Longrightarrow> i \<le> max_stack s" for s
    using i by (auto simp: place_def)
  have "goes g0 cs d sv t ls (steps [emit_extended_byte b, add_stack_ref i, push_stack 1]) (cs @ C (length cs) d sv t) (d + 1)"
    by (rule goes_eq, rule goes_step [OF goes_emit2], rule goes_step [OF goes_stack_ref [OF m]], assumption,
        rule goes_last [OF goes_push]) (use assms i in auto)
  then show "goes g0 cs d sv t ls (stack_top_code b) (cs @ C (length cs) d sv t) (d + 1)"
    using i by (auto simp: goes_def stack_top_code_def place_def)
qed

text \<open>Arguments: the first makes a list, the others find it on the stack.\<close>

definition yields_list :: "bool \<Rightarrow> bool \<Rightarrow> gen \<Rightarrow> (nat \<Rightarrow> nat \<Rightarrow> nat option \<Rightarrow> nat \<Rightarrow> sym list) \<Rightarrow> bool" where
  "yields_list ix first G C \<longleftrightarrow> (\<forall>g0 cs d sv t ls. (ix \<longrightarrow> sv \<noteq> None) \<longrightarrow> (\<forall>e \<ge> d. sv_ok sv e) \<longrightarrow>
     goes g0 cs (if first then d else d + 1) sv t ls G (cs @ C (length cs) d sv t) (d + 1))"

lemma yields_first: "yields_list ix True G C \<Longrightarrow> yields ix G C 1"
  by (rule yieldsI) (simp add: yields_list_def)

lemma yields_listD: "yields_list ix False G C \<Longrightarrow> (ix \<longrightarrow> sv \<noteq> None) \<Longrightarrow> \<forall>e \<ge> d. sv_ok sv e \<Longrightarrow>
    goes g0 cs (d + 1) sv t ls G (cs @ C (length cs) d sv t) (d + 1)"
  by (simp add: yields_list_def)

lemma yields_nil: "yields_list ix first (generate_args first ANil) (code_args first ANil)"
  unfolding yields_list_def
  by (cases first) (auto intro!: goes_nil goes_step [OF goes_emit] goes_step [OF goes_push goes_nil, THEN goes_eq]
      simp: simp del: One_nat_def)

lemma goes_arg:
  "\<forall>e \<ge> d. sv_ok sv e \<Longrightarrow> goes g0 cs (if first then d + 1 else d + 2) sv t ls (arg_code first k) (cs @ [arg_op first k t]) (d + 1)"
  unfolding arg_code_def arg_op_def
  by (cases first; simp only: if_True if_False goes_emit)
    (rule goes_eq, rule goes_step [OF goes_emit], rule goes_last [OF goes_pop], simp_all)

lemma goes_args:
  assumes e: "yields ix (generate_expr e) (code_expr e) 1"
    and as: "yields_list ix False (generate_args False args) (code_args False args)"
    and ix: "ix \<longrightarrow> sv \<noteq> None" and sv: "\<forall>e \<ge> d. sv_ok sv e"
  shows "goes g0 cs (if first then d else d + 1) sv t ls (steps [generate_expr e, arg_code first k, generate_args False args])
    (cs @ (let ce = code_expr e (length cs) (if first then d else d + 1) sv t in
      ce @ [arg_op first k t] @ code_args False args (length cs + length ce + 1) d sv t)) (d + 1)"
proof -
  let ?e = "code_expr e (length cs) (if first then d else d + 1) sv t"
  have "goes g0 cs (if first then d else d + 1) sv t ls (generate_expr e) (cs @ ?e) (if first then d + 1 else d + 2)"
    by (rule goes_eq [OF yieldsD [OF e ix]]) simp_all
  from goes_step [OF this goes_step [OF goes_arg [OF sv] goes_last [OF yields_listD [OF as ix sv]]]]
  show ?thesis by (rule goes_eq) (simp_all add: Let_def add.assoc)
qed

lemma yields_args:
  assumes e: "yields ix (generate_expr e) (code_expr e) 1"
    and as: "yields_list ix False (generate_args False args) (code_args False args)"
  shows "yields_list ix first (generate_args first (ACons k e args)) (code_args first (ACons k e args))"
    "yields ix (generate_codes (ACons k e args)) (code_codes (ACons k e args)) 1"
  unfolding yields_list_def generate_args.simps code_args.simps
  using goes_args [OF assms]
  by (blast, intro yieldsI, use goes_args [OF assms, where first = True] in simp)

lemma yields_no_codes: "yields ix (generate_codes ANil) (code_codes ANil) 1"
  by (rule yieldsI, simp only: generate_codes.simps args.case, rule goes_eq, rule goes_step [OF goes_emit],
      rule goes_last [OF goes_push]) simp_all

lemma yields_verb:
  assumes o: "yields ix (generate_expr obj) (code_expr obj) 1" and v: "yields ix (generate_expr verb) (code_expr verb) 1"
    and as: "yields ix (generate_args True args) (code_args True args) 1"
  shows "yields ix (generate_expr (EXPR_VERB obj verb args)) (code_expr (EXPR_VERB obj verb args)) 1"
  by (rule yieldsI, simp only: generate_expr.simps emit_call_verb_op_def, rule goes_eq, rule goes_step [OF yieldsD [OF o]], assumption,
      rule goes_step [OF yieldsD [OF v]], assumption, rule goes_step [OF yieldsD [OF as]], assumption,
      rule goes_step [OF goes_mark], rule goes_last [OF goes_pop]) (simp_all add: Let_def add.assoc)

lemma yields_call:
  assumes as: "yields ix (generate_args True args) (code_args True args) 1"
  shows "yields ix (generate_expr (EXPR_CALL f args)) (code_expr (EXPR_CALL f args)) 1"
    "yields ix (generate_expr (EXPR_LIST args)) (code_expr (EXPR_LIST args)) 1"
  by (rule yieldsI, simp only: generate_expr.simps, rule goes_eq, rule goes_step [OF yieldsD [OF as]], assumption,
      rule goes_step [OF goes_emit], rule goes_last [OF goes_emit]) (use as in \<open>simp_all add: Let_def\<close>)

lemma yields_index:
  assumes l: "yields ix (generate_expr l) (code_expr l) 1" and r: "yields True (generate_expr r) (code_expr r) 1"
  shows "yields ix (generate_expr (EXPR_INDEX l r)) (code_expr (EXPR_INDEX l r)) 1"
  by (rule yieldsI, simp only: generate_expr.simps, rule goes_eq, rule goes_step [OF yieldsD [OF l]], assumption,
      rule goes_step [OF goes_with [OF _ _ yieldsD [OF r]]], simp, simp, simp, rule goes_step [OF goes_emit],
      rule goes_last [OF goes_pop]) (simp_all add: Let_def add.assoc)

lemma goes_range:
  assumes f: "yields True (generate_expr from) (code_expr from) 1" and u: "yields True (generate_expr to) (code_expr to) 1"
    and d: "0 < d"
  shows "goes g0 cs d sv t ls (with_stack_top (steps [generate_expr from, generate_expr to]))
    (cs @ (let cf = code_expr from (length cs) d (Some (d - 1)) t in
      cf @ code_expr to (length cs + length cf) (d + 1) (Some (d - 1)) t)) (d + 2)"
  by (rule goes_with [OF d], simp, rule goes_eq, rule goes_step [OF yieldsD [OF f]], simp, rule goes_last [OF yieldsD [OF u]])
    (simp_all add: Let_def add.assoc)

lemma yields_range:
  assumes b: "yields ix (generate_expr base) (code_expr base) 1"
    and f: "yields True (generate_expr from) (code_expr from) 1" and u: "yields True (generate_expr to) (code_expr to) 1"
  shows "yields ix (generate_expr (EXPR_RANGE base from to)) (code_expr (EXPR_RANGE base from to)) 1"
  by (rule yieldsI, simp only: generate_expr.simps, rule goes_eq, rule goes_step [OF yieldsD [OF b]], assumption,
      rule goes_step [OF goes_range [OF f u]], simp, rule goes_step [OF goes_emit],
      rule goes_last [OF goes_pop]) (simp_all add: Let_def add.assoc)

lemma yields_maps:
  assumes v: "yields ix (generate_expr val) (code_expr val) 1" and k: "yields ix (generate_expr key) (code_expr key) 1"
    and m: "yields ix (generate_map_list maps) (code_maps maps) 0"
  shows "yields ix (generate_map_list (MCons key val maps)) (code_maps (MCons key val maps)) 0"
  by (rule yieldsI, simp only: generate_map_list.simps, rule goes_eq, rule goes_step [OF yieldsD [OF v]], assumption,
      rule goes_step [OF yieldsD [OF k]], assumption, rule goes_step [OF goes_emit], rule goes_step [OF goes_pop], simp, simp,
      rule goes_last [OF yieldsD [OF m]]) (simp_all add: Let_def add.assoc)

lemma yields_map:
  assumes m: "yields ix (generate_map_list maps) (code_maps maps) 0"
  shows "yields ix (generate_expr (EXPR_MAP maps)) (code_expr (EXPR_MAP maps)) 1"
  by (rule yieldsI, simp only: generate_expr.simps, rule goes_eq, rule goes_step [OF goes_emit], rule goes_step [OF goes_push],
      rule goes_last [OF yieldsD [OF m]]) (simp_all add: Let_def add.assoc)

lemma yields_cond:
  assumes c: "yields ix (generate_expr c) (code_expr c) 1" and a: "yields ix (generate_expr a) (code_expr a) 1"
    and b: "yields ix (generate_expr b) (code_expr b) 1"
  shows "yields ix (generate_expr (EXPR_COND c a b)) (code_expr (EXPR_COND c a b)) 1"
proof (rule yieldsI)
  fix g0 d sv t ls and cs :: "sym list" assume ix: "ix \<longrightarrow> sv \<noteq> None" and sv: "\<forall>e \<ge> d. sv_ok sv e"
  let ?cc = "code_expr c (length cs) d sv t" let ?m = "length cs + length ?cc + 2"
  let ?ca = "code_expr a ?m d sv t" let ?m2 = "?m + length ?ca + 2" let ?cb = "code_expr b ?m2 d sv t"
  let ?c1 = "cs @ ?cc @ [op t OP_IF_QUES]"
  let ?l = "length (operands ?c1)"
  let ?c2 = "?c1 @ [fx t (FLab ?m2)] @ ?ca @ [op t OP_JUMP]"
  show "goes g0 cs d sv t ls (generate_expr (EXPR_COND c a b)) (cs @ code_expr (EXPR_COND c a b) (length cs) d sv t) (d + 1)"
    unfolding generate_expr.simps
    by (rule goes_eq, rule goes_step [OF yieldsD [OF c ix]], rule goes_step [OF goes_emit], rule goes_last [OF goes_next],
        rule goes_step [OF goes_label], rule goes_step [OF goes_pop], simp, use sv in simp, rule goes_step [OF yieldsD [OF a ix]],
        rule goes_step [OF goes_emit], rule goes_last [OF goes_next], rule goes_step [OF goes_label],
        rule goes_step [OF goes_pop], simp, use sv in simp,
        rule goes_step [OF goes_define_at [where cs = ?c1 and u = t and r = "?ca @ [op t OP_JUMP, fx t (FOpen (Inl (length (operands ?c2))))]"]],
        simp, simp, simp, rule goes_step [OF yieldsD [OF b ix]],
        rule goes_last [OF goes_define_at [where cs = ?c2 and u = t and r = ?cb]])
      (simp_all add: Let_def add.assoc)
qed

lemma add_small [simp]:
  "(n :: nat) + 3 = Suc (Suc (Suc n))" "n + 4 = Suc (Suc (Suc (Suc n)))" "n + 5 = Suc (Suc (Suc (Suc (Suc n))))"
  "(3 :: nat) + n = Suc (Suc (Suc n))" "4 + n = Suc (Suc (Suc (Suc n)))" "5 + n = Suc (Suc (Suc (Suc (Suc n))))"
  by simp_all

lemma yields_catch:
  assumes c: "yields ix (generate_codes codes) (code_codes codes) 1" and e: "yields ix (generate_expr e) (code_expr e) 1"
    and x: "\<And>x. dflt = Some x \<Longrightarrow> yields ix (generate_expr x) (code_expr x) 1"
  shows "yields ix (generate_expr (EXPR_CATCH e codes dflt)) (code_expr (EXPR_CATCH e codes dflt)) 1"
proof (rule yieldsI)
  fix g0 d sv t ls and cs :: "sym list" assume ix: "ix \<longrightarrow> sv \<noteq> None" and sv: "\<forall>e \<ge> d. sv_ok sv e"
  let ?cc = "code_codes codes (length cs) d sv t" let ?m = "length cs + length ?cc + 5"
  let ?ce = "code_expr e ?m (d + 3) sv (t + 1)" let ?m2 = "?m + length ?ce + 3"
  let ?cd = "case dflt of Some x \<Rightarrow> [op t OP_POP] @ code_expr x (?m2 + 1) d sv t
    | None \<Rightarrow> [op t (OPTIM_NUM_TO_OPCODE 1), op t OP_REF]"
  let ?c1 = "cs @ ?cc @ eop t EOP_PUSH_LABEL" let ?l = "length (operands ?c1)"
  let ?c2 = "?c1 @ [fx t (FLab ?m2)] @ eop t EOP_CATCH @ ?ce @ eop t EOP_END_CATCH"
  let ?G = "case dflt of Some d \<Rightarrow> steps [emit_byte OP_POP, pop_stack 1, generate_expr d]
    | None \<Rightarrow> steps [emit_byte (OPTIM_NUM_TO_OPCODE 1), emit_byte OP_REF]"
  have G: "length ks = ?m2 \<Longrightarrow> goes g0 ks (d + 1) sv t ls ?G (ks @ ?cd) (d + 1)" for ks
  proof (cases dflt)
    case None
    show ?thesis unfolding None option.case
      by (rule goes_eq, rule goes_step [OF goes_emit], rule goes_last [OF goes_emit]) simp_all
  next
    case (Some y)
    assume k: "length ks = ?m2"
    show ?thesis unfolding Some option.case
      by (rule goes_eq, rule goes_step [OF goes_emit], rule goes_step [OF goes_pop], simp, use sv in simp,
          rule goes_last [OF yieldsD [OF x [OF Some] ix]]) (simp_all add: k)
  qed
  have o: "FOpen g \<notin> set (operands ?cd)" for g by (simp split: option.split)
  show "goes g0 cs d sv t ls (generate_expr (EXPR_CATCH e codes dflt))
      (cs @ code_expr (EXPR_CATCH e codes dflt) (length cs) d sv t) (d + 1)"
    unfolding generate_expr.simps
    by (rule goes_eq, rule goes_step [OF yieldsD [OF c ix]], rule goes_step [OF goes_emit2], rule goes_last [OF goes_next],
        rule goes_step [OF goes_label], rule goes_step [OF goes_push], rule goes_step [OF goes_emit2],
        rule goes_step [OF goes_eq [OF goes_push, where d' = "d + 3"]], rule refl, simp,
        rule goes_step [OF goes_try [OF yieldsD [OF e ix]]], rule goes_step [OF goes_emit2],
        rule goes_last [OF goes_next], rule goes_step [OF goes_label],
        rule goes_step [OF goes_eq [OF goes_pop, where d' = "d + 1"]], simp, use sv in simp, rule refl, simp,
        rule goes_step [OF goes_define_at [where cs = ?c1 and u = t and r = "eop t EOP_CATCH @ ?ce @ eop t EOP_END_CATCH @ [fx t (FOpen (Inl (length (operands ?c2))))]"]],
        simp add: add.assoc del: code_codes.simps, simp, simp, rule goes_step [OF G], simp add: add.assoc del: code_codes.simps,
        rule goes_last [OF goes_define_at [where cs = ?c2 and u = t and r = ?cd]])
      (simp_all add: Let_def add.assoc o del: code_codes.simps split: option.split)
qed

section \<open>Assignments\<close>

lemma goes_if: "(b \<Longrightarrow> goes g0 cs d sv t ls G (cs @ c) d) \<Longrightarrow> goes g0 cs d sv t ls (if b then G else steps []) (cs @ (if b then c else [])) d"
  by (cases b) (auto intro: goes_nil)

lemma goes_keep: "goes g0 cs d sv t ls (if b then steps [emit_byte OP_POP, emit_byte OP_PUSH_TEMP] else steps [])
    (cs @ (if b then [op t OP_POP, op t OP_PUSH_TEMP] else [])) d"
  by (rule goes_if, rule goes_eq, rule goes_step [OF goes_emit], rule goes_last [OF goes_emit]) simp_all

lemma lvalue_size: "wf_lvalue False ix e \<Longrightarrow> 0 < lvalue_height True e"
  by (cases e) simp_all

lemma goes_store:
  assumes "wf_lvalue r ix e" "r \<longrightarrow> \<not> b" and sv: "\<forall>e \<ge> d. sv_ok sv e"
  shows "goes g0 cs (d + lvalue_height b e + of_bool (\<not> b)) sv t ls (store_back b e) (cs @ code_store b e t) (d + 1)"
  using assms(1,2)
proof (induction b e arbitrary: r cs rule: store_back.induct)
  case (1 b base fr u)
  then have b: "\<not> b" "wf_lvalue False ix base" by auto
  have IH: "goes g0 ks (d + lvalue_height True base) sv t ls (store_back True base) (ks @ code_store True base t) (d + 1)" for ks
    using "1.IH" [OF b(2), of ks] by simp
  show ?case unfolding store_back.simps
    by (rule goes_eq [OF goes_step [OF goes_emit2 goes_step [OF goes_eq [OF goes_pop refl, where d' = "d + lvalue_height True base"] goes_last [OF IH]]]]) (use b sv in simp_all)
next
  case (2 b base index)
  then have b: "wf_lvalue False ix base" by auto
  have IH: "goes g0 ks (d + lvalue_height True base) sv t ls (store_back True base) (ks @ code_store True base t) (d + 1)" for ks
    using "2.IH" [OF b, of ks] by simp
  show ?case unfolding store_back.simps
    by (rule goes_eq [OF goes_step [OF goes_emit goes_step [OF goes_eq [OF goes_pop refl, where d' = "d + lvalue_height True base"] goes_last [OF IH]]]]) (use 2 sv in simp_all)
next
  case (3 b i)
  show ?case unfolding store_back.simps
    by (rule goes_eq, rule goes_step [OF goes_var_op], rule goes_last [OF goes_keep]) simp_all
next
  case (4 b k l r)
  then have k: "k = EXPR_PROP" by simp
  show ?case unfolding store_back.simps k if_True eqTrueI [OF refl]
    by (rule goes_eq, rule goes_step [OF goes_emit], rule goes_step [OF goes_pop], simp, use sv in simp, rule goes_last [OF goes_keep]) simp_all
qed simp_all

lemma yields_lvalue_range:
  assumes b: "yields ix (push_lvalue True base) (code_lvalue True base) (lvalue_height True base)"
    and f: "yields True (generate_expr from) (code_expr from) 1" and u: "yields True (generate_expr to) (code_expr to) 1"
    and h: "0 < lvalue_height True base"
  shows "yields ix (push_lvalue up (EXPR_RANGE base from to)) (code_lvalue up (EXPR_RANGE base from to)) (lvalue_height up (EXPR_RANGE base from to))"
  by (rule yieldsI, simp only: push_lvalue.simps, rule goes_eq, rule goes_step [OF yieldsD [OF b]], assumption,
      rule goes_last [OF goes_range [OF f u]]) (use h in \<open>simp_all add: Let_def add.assoc\<close>)

lemma yields_lvalue_index:
  assumes b: "yields ix (push_lvalue True base) (code_lvalue True base) (lvalue_height True base)"
    and f: "yields True (generate_expr index) (code_expr index) 1"
    and h: "0 < lvalue_height True base"
  shows "yields ix (push_lvalue up (EXPR_INDEX base index)) (code_lvalue up (EXPR_INDEX base index)) (lvalue_height up (EXPR_INDEX base index))"
proof (rule yieldsI)
  fix g0 cs d t ls and sv :: "nat option" assume ix: "ix \<longrightarrow> sv \<noteq> None"
  have IH: "goes g0 ks (d + lvalue_height True base + 1) sv t ls (if up then steps [emit_byte OP_PUSH_REF, push_stack 1] else steps [])
      (ks @ (if up then [op t OP_PUSH_REF] else [])) (d + lvalue_height True base + 1 + of_bool up)" for ks
    by (cases up; simp only: if_True if_False; rule goes_eq, (rule goes_step [OF goes_emit], rule goes_last [OF goes_push] | rule goes_nil)) simp_all
  show "goes g0 cs d sv t ls (push_lvalue up (EXPR_INDEX base index))
      (cs @ code_lvalue up (EXPR_INDEX base index) (length cs) d sv t) (d + lvalue_height up (EXPR_INDEX base index))"
    unfolding push_lvalue.simps
    by (rule goes_eq [OF goes_step [OF yieldsD [OF b ix] goes_step [OF goes_with [OF _ _ yieldsD [OF f]] goes_last [OF IH]]]]) (use h in \<open>simp_all add: Let_def add.assoc\<close>)
qed

lemma yields_lvalue_prop:
  assumes l: "yields ix (generate_expr l) (code_expr l) 1" and r: "yields ix (generate_expr r) (code_expr r) 1"
  shows "yields ix (push_lvalue up (EXPR_BINARY EXPR_PROP l r)) (code_lvalue up (EXPR_BINARY EXPR_PROP l r))
    (lvalue_height up (EXPR_BINARY EXPR_PROP l r))"
proof (rule yieldsI)
  fix g0 cs d t ls and sv :: "nat option" assume ix: "ix \<longrightarrow> sv \<noteq> None"
  have g: "goes g0 ks (d + 1 + 1) sv t ls (if up then steps [emit_byte OP_PUSH_GET_PROP, push_stack 1] else steps [])
      (ks @ (if up then [op t OP_PUSH_GET_PROP] else [])) (d + 1 + 1 + of_bool up)" for ks
    by (cases up; simp only: if_True if_False; rule goes_eq, (rule goes_step [OF goes_emit], rule goes_last [OF goes_push] | rule goes_nil)) simp_all
  show "goes g0 cs d sv t ls (push_lvalue up (EXPR_BINARY EXPR_PROP l r))
      (cs @ code_lvalue up (EXPR_BINARY EXPR_PROP l r) (length cs) d sv t) (d + lvalue_height up (EXPR_BINARY EXPR_PROP l r))"
    unfolding push_lvalue.simps if_True eqTrueI [OF refl]
    by (rule goes_eq [OF goes_step [OF yieldsD [OF l ix] goes_step [OF yieldsD [OF r ix] goes_last [OF g]]]])
      (simp_all add: Let_def add.assoc)
qed

lemma yields_lvalue_id: "yields ix (push_lvalue up (EXPR_ID i)) (code_lvalue up (EXPR_ID i)) (lvalue_height up (EXPR_ID i))"
  by (rule yieldsI, cases up; simp only: push_lvalue.simps code_lvalue.simps if_True if_False;
      rule goes_eq, (rule goes_step [OF goes_var_op], rule goes_last [OF goes_push] | rule goes_nil)) simp_all

text \<open>The targets of a scattering assignment, with the labels of their defaults still open.\<close>

fun scatter_open :: "scatter \<Rightarrow> nat \<Rightarrow> nat \<Rightarrow> sym list" where
  "scatter_open SNil t n = []"
| "scatter_open (SCons kind i dflt sc) t n =
     [fx t (FVar i), fx t (if kind \<noteq> SCAT_OPTIONAL then FPseudo 0 else if dflt = None then FPseudo 1 else FOpen (Inl (n + 1)))] @
     scatter_open sc t (n + 2)"

lemma length_scatter_open [simp]: "length (scatter_open sc t n) = 2 * scatter_size sc"
  by (induction sc arbitrary: n rule: scatter_size.induct) simp_all

lemma operands_scatter_open [simp]: "length (operands (scatter_open sc t n)) = 2 * scatter_size sc"
  by (induction sc arbitrary: n rule: scatter_size.induct) simp_all

lemma scatter_open_tags: "FOpen g \<in> set (operands (scatter_open sc t n)) \<Longrightarrow> \<exists>j. g = Inl j \<and> n < j \<and> j < n + 2 * scatter_size sc"
proof (induction sc arbitrary: n rule: scatter_size.induct)
  case (2 kind i dflt sc)
  from "2.prems" have "g = Inl (n + 1) \<or> FOpen g \<in> set (operands (scatter_open sc t (n + 2)))" by (auto split: if_splits)
  then show ?case
  proof
    assume "FOpen g \<in> set (operands (scatter_open sc t (n + 2)))"
    from "2.IH" [OF this] show ?thesis by force
  qed simp
qed simp

lemma length_code_scatter [simp]: "length (fst (code_scatter sc p d sv t)) = 2 * scatter_size sc"
  by (induction sc arbitrary: p rule: scatter_size.induct) (simp_all add: Let_def case_prod_beta)

lemma operands_code_scatter [simp]: "length (operands (fst (code_scatter sc p d sv t))) = 2 * scatter_size sc"
  by (induction sc arbitrary: p rule: scatter_size.induct) (simp_all add: Let_def case_prod_beta)

lemma goes_scatter_refs: "goes g0 cs d sv t ls (scatter_refs sc) (cs @ scatter_open sc t (length (operands cs))) d"
proof (induction sc arbitrary: cs rule: scatter_size.induct)
  case 1
  show ?case unfolding scatter_refs.simps scatter_open.simps append_Nil2 by (rule goes_nil)
next
  case (2 kind i dflt sc)
  let ?x = "if kind \<noteq> SCAT_OPTIONAL then FPseudo 0 else if dflt = None then FPseudo 1 else FOpen (Inl (length (operands cs) + 1))"
  let ?cs = "cs @ [fx t (FVar i)]"
  have x: "goes g0 ?cs d sv t ls (if kind \<noteq> SCAT_OPTIONAL then add_pseudo_label 0 else if dflt = None then add_pseudo_label 1 else add_label)
      (?cs @ [fx t ?x]) d"
    using goes_label [of g0 ?cs] goes_pseudo [of g0 ?cs] by auto
  show ?case unfolding scatter_refs.simps
    by (rule goes_eq, rule goes_step [OF goes_var_ref], rule goes_step [OF x], rule goes_last [OF 2]) simp_all
qed

lemma goes_scatter_head: "goes g0 cs d sv t ls (scatter_head sc) (cs @ code_scatter_head sc t) d"
proof -
  obtain nargs nreq rest where c: "scatter_counts 0 0 None sc = (nargs, nreq, rest)" by (metis prod_cases3)
  show ?thesis unfolding scatter_head_def code_scatter_head_def c prod.case
    by (rule goes_eq, rule goes_step [OF goes_emit2], rule goes_step [OF goes_emit], rule goes_step [OF goes_emit],
        rule goes_last [OF goes_emit]) simp_all
qed

definition yields_scatter :: "bool \<Rightarrow> scatter \<Rightarrow> bool" where
  "yields_scatter ix sc \<longleftrightarrow> (\<forall>g0 a b d sv t ls. (ix \<longrightarrow> sv \<noteq> None) \<longrightarrow> (\<forall>e \<ge> d. sv_ok sv e) \<longrightarrow>
     (\<forall>j > length (operands a). j < length (operands a) + 2 * scatter_size sc \<longrightarrow> FOpen (Inl j) \<notin> set (operands b)) \<longrightarrow>
     goes g0 (a @ scatter_open sc t (length (operands a)) @ b) d sv t ls (scatter_defaults (length (operands a) + 1) sc)
       (a @ fst (code_scatter sc (length a + 2 * scatter_size sc + length b) d sv t) @ b @
        snd (code_scatter sc (length a + 2 * scatter_size sc + length b) d sv t)) d)"

lemma yields_scatterD:
  "yields_scatter ix sc \<Longrightarrow> (ix \<longrightarrow> sv \<noteq> None) \<Longrightarrow> \<forall>e \<ge> d. sv_ok sv e \<Longrightarrow> n = length (operands a) \<Longrightarrow> p = length a + 2 * scatter_size sc + length b \<Longrightarrow>
     (\<And>j. n < j \<Longrightarrow> j < n + 2 * scatter_size sc \<Longrightarrow> FOpen (Inl j) \<notin> set (operands b)) \<Longrightarrow>
     goes g0 (a @ scatter_open sc t n @ b) d sv t ls (scatter_defaults (n + 1) sc)
       (a @ fst (code_scatter sc p d sv t) @ b @ snd (code_scatter sc p d sv t)) d"
  unfolding yields_scatter_def by blast

lemma yields_scatter_cons:
  assumes e: "\<And>e. dflt = Some e \<Longrightarrow> yields ix (generate_expr e) (code_expr e) 1" and sc: "yields_scatter ix sc"
  shows "yields_scatter ix (SCons kind i dflt sc)"
  unfolding yields_scatter_def
proof (intro allI impI)
  fix g0 d t ls and a b :: "sym list" and sv :: "nat option"
  assume ix: "ix \<longrightarrow> sv \<noteq> None" and sv: "\<forall>e \<ge> d. sv_ok sv e"
  let ?n = "length (operands a)"
  assume "\<forall>j > ?n. j < ?n + 2 * scatter_size (SCons kind i dflt sc) \<longrightarrow> FOpen (Inl j) \<notin> set (operands b)"
  then have b: "FOpen (Inl j) \<notin> set (operands b)" if "?n < j" "j < ?n + 2 + 2 * scatter_size sc" for j using that by simp
  let ?p = "length a + 2 * scatter_size (SCons kind i dflt sc) + length b"
  let ?cd = "case dflt of Some e \<Rightarrow> if kind = SCAT_OPTIONAL then code_expr e ?p d sv t @ var_op t OP_PUT i @ [op t OP_POP] else []
    | None \<Rightarrow> []"
  let ?x = "if kind \<noteq> SCAT_OPTIONAL then FPseudo 0 else if dflt = None then FPseudo 1 else FLab ?p"
  let ?a = "a @ [fx t (FVar i), fx t ?x]"
  let ?G = "case dflt of Some e \<Rightarrow>
      (if kind = SCAT_OPTIONAL then
         steps [define_label (Some (?n + 1)), generate_expr e, emit_var_op OP_PUT i, emit_byte OP_POP, pop_stack 1]
       else steps []) | None \<Rightarrow> steps []"
  have G: "goes g0 (a @ scatter_open (SCons kind i dflt sc) t ?n @ b) d sv t ls ?G (?a @ scatter_open sc t (?n + 2) @ b @ ?cd) d"
  proof (cases "\<exists>e. dflt = Some e \<and> kind = SCAT_OPTIONAL")
    case False
    then show ?thesis using goes_nil [of g0 "?a @ scatter_open sc t (?n + 2) @ b"] by (auto split: option.split)
  next
    case True
    then obtain y where y: "dflt = Some y" "kind = SCAT_OPTIONAL" by blast
    have o: "FOpen (Inl (?n + 1)) \<notin> set (operands (scatter_open sc t (?n + 2) @ b))"
      using scatter_open_tags [of _ sc t "?n + 2"] b [of "?n + 1"] by fastforce
    show ?thesis unfolding y option.case if_True eqTrueI [OF refl]
      by (rule goes_eq, rule goes_step [OF goes_define_at [where cs = "a @ [fx t (FVar i)]" and u = t and r = "scatter_open sc t (?n + 2) @ b"]],
          simp, simp, rule o, rule goes_step [OF yieldsD [OF e [OF y(1)] ix]], rule goes_step [OF goes_var_op], rule goes_step [OF goes_emit],
          rule goes_last [OF goes_pop], simp, use sv in simp) (simp_all add: y add.assoc)
  qed
  have o: "FOpen g \<notin> set (operands ?cd)" for g by (simp split: option.split)
  have IH: "goes g0 (?a @ scatter_open sc t (?n + 2) @ b @ ?cd) d sv t ls (scatter_defaults (?n + 1 + 2) sc)
     (?a @ fst (code_scatter sc (?p + length ?cd) d sv t) @ (b @ ?cd) @ snd (code_scatter sc (?p + length ?cd) d sv t)) d"
    using yields_scatterD [OF sc ix sv, of "?n + 2" ?a "?p + length ?cd" "b @ ?cd" g0 t ls] b o by simp
  show "goes g0 (a @ scatter_open (SCons kind i dflt sc) t ?n @ b) d sv t ls (scatter_defaults (?n + 1) (SCons kind i dflt sc))
     (a @ fst (code_scatter (SCons kind i dflt sc) ?p d sv t) @ b @ snd (code_scatter (SCons kind i dflt sc) ?p d sv t)) d"
    unfolding scatter_defaults.simps
    by (rule goes_eq [OF goes_step [OF G goes_last [OF IH]]])
      (simp_all add: Let_def case_prod_beta split: option.split)
qed

lemma yields_assign:
  assumes l: "yields ix (push_lvalue False l) (code_lvalue False l) (lvalue_height False l)" and wf: "wf_lvalue True ix l"
    and r: "yields ix (generate_expr r) (code_expr r) 1"
  shows "yields ix (generate_expr (EXPR_ASGN l r)) (code_expr (EXPR_ASGN l r)) 1"
proof (rule yieldsI)
  fix g0 cs d t ls and sv :: "nat option" assume ix: "ix \<longrightarrow> sv \<noteq> None" and sv: "\<forall>e \<ge> d. sv_ok sv e"
  have n: "\<forall>sc. l \<noteq> EXPR_SCATTER sc" using wf by auto
  then have e: "generate_expr (EXPR_ASGN l r) =
      steps [push_lvalue False l, generate_expr r, if is_indexing l then emit_byte OP_PUT_TEMP else steps [], store_back False l]"
    "code_expr (EXPR_ASGN l r) = (\<lambda>k d sv t.
       (let cl = code_lvalue False l k d sv t; cr = code_expr r (k + length cl) (d + lvalue_height False l) sv t in
        cl @ cr @ (if is_indexing l then [op t OP_PUT_TEMP] else []) @ code_store False l t))"
    by (cases l; simp)+
  have st: "goes g0 ks (d + lvalue_height False l + 1) sv t ls (store_back False l) (ks @ code_store False l t) (d + 1)" for ks
    using goes_store [OF wf _ sv, of False g0 ks t ls] by simp
  show "goes g0 cs d sv t ls (generate_expr (EXPR_ASGN l r)) (cs @ code_expr (EXPR_ASGN l r) (length cs) d sv t) (d + 1)"
    unfolding e
    by (rule goes_eq [OF goes_step [OF yieldsD [OF l ix] goes_step [OF yieldsD [OF r ix]
          goes_step [OF goes_if [OF goes_emit] goes_last [OF st]]]]])
      (simp_all add: Let_def add.assoc)
qed

lemma yields_scatter_assign:
  assumes sc: "yields_scatter ix sc" and r: "yields ix (generate_expr r) (code_expr r) 1"
  shows "yields ix (generate_expr (EXPR_ASGN (EXPR_SCATTER sc) r)) (code_expr (EXPR_ASGN (EXPR_SCATTER sc) r)) 1"
proof (rule yieldsI)
  fix g0 d t ls and cs :: "sym list" and sv :: "nat option" assume ix: "ix \<longrightarrow> sv \<noteq> None" and sv: "\<forall>e \<ge> d. sv_ok sv e"
  let ?a = "cs @ code_expr r (length cs) d sv t @ code_scatter_head sc t"
  let ?n = "length (operands ?a)" and ?p = "length ?a + 2 * scatter_size sc + 1"
  let ?l = "?n + 2 * scatter_size sc"
  let ?refs = "fst (code_scatter sc ?p (d + 1) sv t)" and ?ds = "snd (code_scatter sc ?p (d + 1) sv t)"
  let ?b = "[fx t (FOpen (Inl ?l))]"
  have sv1: "\<forall>e \<ge> d + 1. sv_ok sv e" using sv by simp
  have df: "goes g0 (?a @ scatter_open sc t ?n @ ?b) (d + 1) sv t ls (scatter_defaults (?n + 1) sc)
      (?a @ ?refs @ ?b @ ?ds) (d + 1)"
    by (rule yields_scatterD [OF sc ix sv1 refl]) (auto simp: add.assoc)
  have lab: "goes g0 (?a @ scatter_open sc t ?n) (d + 1) sv t ls add_label (?a @ scatter_open sc t ?n @ ?b) (d + 1)"
    by (rule goes_eq [OF goes_label]) simp_all
  have fin: "goes g0 (?a @ ?refs @ ?b @ ?ds) (d + 1) sv t ls (define_label (Some ?l))
      (?a @ ?refs @ fx t (FLab (?p + length ?ds)) # ?ds) (d + 1)"
    by (rule goes_eq [OF goes_define_at [where cs = "?a @ ?refs" and u = t and r = ?ds]]) simp_all
  have k: "length (operands (?a @ scatter_open sc t ?n)) = ?l" by simp
  have last: "goes g0 ?a (d + 1) sv t ls (next_label (\<lambda>first.
            steps [scatter_refs sc, next_label (\<lambda>done_label.
              steps [add_label, scatter_defaults (first + 1) sc, define_label (Some done_label)])]))
      (?a @ ?refs @ fx t (FLab (?p + length ?ds)) # ?ds) (d + 1)"
    by (rule goes_next, rule goes_step [OF goes_scatter_refs], rule goes_last [OF goes_next], unfold k,
        rule goes_step [OF lab], rule goes_step [OF df], rule goes_last [OF fin])
  show "goes g0 cs d sv t ls (generate_expr (EXPR_ASGN (EXPR_SCATTER sc) r))
      (cs @ code_expr (EXPR_ASGN (EXPR_SCATTER sc) r) (length cs) d sv t) (d + 1)"
    unfolding generate_expr.simps expr.case
    by (rule goes_eq, rule goes_step [OF yieldsD [OF r ix]], rule goes_step [OF goes_eq [OF goes_scatter_head]], rule append_assoc, rule refl,
        rule goes_last [OF last])
      (simp_all add: Let_def case_prod_beta add.assoc)
qed

lemma yields_end: "yields ix (generate_map_list MNil) (code_maps MNil) 0" "yields_scatter ix SNil"
  unfolding yields_scatter_def generate_map_list.simps scatter_defaults.simps
  by (rule yieldsI, rule goes_eq [OF goes_nil]) (auto intro: goes_eq [OF goes_nil])

section \<open>Every expression\<close>

declare generate_expr.simps [simp del] generate_args.simps [simp del] generate_codes.simps [simp del]
  generate_map_list.simps [simp del] push_lvalue.simps [simp del] scatter_defaults.simps [simp del]
  code_expr.simps [simp del] code_args.simps [simp del] code_codes.simps [simp del]
  code_maps.simps [simp del] code_lvalue.simps [simp del] code_scatter.simps [simp del] lvalue_height.simps [simp del]

theorem yields_all:
  "(\<forall>ix. wf_expr ix e \<longrightarrow> yields ix (generate_expr e) (code_expr e) 1) \<and>
   (\<forall>rng ix up. wf_lvalue rng ix e \<longrightarrow> yields ix (push_lvalue up e) (code_lvalue up e) (lvalue_height up e)) \<and>
   (\<forall>ix sc. e = EXPR_SCATTER sc \<longrightarrow> wf_scatter ix sc \<longrightarrow> yields_scatter ix sc)"
  "\<forall>ix. wf_args ix as \<longrightarrow> (\<forall>first. yields_list ix first (generate_args first as) (code_args first as)) \<and>
     yields ix (generate_codes as) (code_codes as) 1"
  "\<forall>ix. wf_maps ix ms \<longrightarrow> yields ix (generate_map_list ms) (code_maps ms) 0"
  "\<forall>ix. wf_scatter ix sc \<longrightarrow> yields_scatter ix sc"
proof (induction e and as and ms and sc)
  case (EXPR_ASGN l r)
  show ?case
  proof (intro conjI allI impI)
    fix ix assume wf: "wf_expr ix (EXPR_ASGN l r)"
    then have r: "yields ix (generate_expr r) (code_expr r) 1" using EXPR_ASGN by simp
    show "yields ix (generate_expr (EXPR_ASGN l r)) (code_expr (EXPR_ASGN l r)) 1"
    proof (cases "\<exists>sc. l = EXPR_SCATTER sc")
      case True
      then show ?thesis using EXPR_ASGN wf yields_scatter_assign [OF _ r] by auto
    next
      case False
      then have l: "wf_lvalue True ix l" using wf by (cases l) auto
      then show ?thesis using yields_assign [OF _ l r] EXPR_ASGN by blast
    qed
  qed simp_all
next
  case (EXPR_INDEX l r)
  then show ?case by (auto intro!: yields_index yields_lvalue_index lvalue_size simp del: One_nat_def)
next
  case (EXPR_RANGE base fr u)
  then show ?case by (auto intro!: yields_range yields_lvalue_range lvalue_size simp del: One_nat_def)
next
  case (EXPR_CATCH e codes dflt)
  then show ?case by (auto intro!: yields_catch split: option.splits simp del: One_nat_def)
next
  case (SCons kind i dflt sc)
  then show ?case by (auto intro!: yields_scatter_cons split: option.splits simp del: One_nat_def)
next
  case (EXPR_BINARY b l r)
  then show ?case using yields_binary yields_lvalue_prop by (simp del: One_nat_def)
next
  case (EXPR_VERB obj verb args)
  then show ?case by (auto intro!: yields_verb intro: yields_first simp del: One_nat_def)
next
  case EXPR_FIRST
  then show ?case using yields_stack_top [of EOP_FIRST] by (auto simp: generate_expr.simps simp del: One_nat_def steps.simps)
next
  case EXPR_LAST
  then show ?case using yields_stack_top [of EOP_LAST] by (auto simp: generate_expr.simps simp del: One_nat_def steps.simps)
qed (auto intro: yields_id yields_var yields_unary yields_and yields_first yields_call yields_maps yields_map yields_end
  yields_args yields_no_codes yields_nil yields_cond yields_lvalue_id simp del: One_nat_def)

end
