(* ===== verification/CodeLoops.thy ===== *)
theory CodeLoops
  imports CodeExprs
begin

text \<open>
  Loops: how they are entered and left, and the exits of \<^verbatim>\<open>break\<close> and
  \<^verbatim>\<open>continue\<close>.
\<close>

section \<open>Entering a loop\<close>

lemma target_ok_append: "target_ok cs l f \<Longrightarrow> target_ok (cs @ ds) l f"
  by (simp add: target_ok_def)

lemma take_retag:
  "is_lab x = is_lab y \<Longrightarrow> is_lit x = is_lit y \<Longrightarrow> is_fork x = is_fork y \<Longrightarrow> is_var x = is_var y \<Longrightarrow>
   target_ok (cs @ [SFix t x]) l f = target_ok (cs @ [SFix t y]) l f"
  by (cases "l \<le> length cs") (auto simp: target_ok_def count_append take_Cons')

lemma value_ok_retag:
  "i \<le> length (operands cs) \<Longrightarrow> value_ok g (cs @ [SFix t (FOpen a)]) i f x = value_ok g (cs @ [SFix t (FOpen b)]) i f x"
  using take_retag [of "FOpen a" "FOpen b"] by (auto simp: value_ok_def is_operand_defs split: operand_sym.split)

lemma sane_new_level: "sane cs n \<Longrightarrow> last_open (Inr n) (operands cs) = None"
  unfolding last_open_None sane_def by (auto simp: in_set_conv_nth tag_ok_def)

text \<open>The label of the end, that no other has the tag of, becomes that of the loop.\<close>

lemma place_enter:
  assumes p: "place g0 (cs @ [fx t (FOpen (Inl n))]) d sv t ls s" and n: "n = length (operands cs)"
    and k0: "target_ok cs k0 f" "f_kind f = FIXUP_LABEL" and h: "h1 \<le> d" "h2 \<le> d"
  shows "\<exists>s'. enter_loop i index f h1 n h2 s = Some s' \<and>
    place g0 (cs @ [fx t (FOpen (Inr (length ls)))]) d sv t
      (\<lparr>x_id = i, x_index = index, x_top = k0, x_top_stack = h1, x_bottom_stack = h2\<rparr> # ls) s'"
proof -
  let ?a = "cs @ [fx t (FOpen (Inl n))]" and ?b = "cs @ [fx t (FOpen (Inr (length ls)))]"
  let ?x = "\<lparr>x_id = i, x_index = index, x_top = k0, x_top_stack = h1, x_bottom_stack = h2\<rparr>"
  let ?l = "\<lparr>l_id = i, l_index = index, l_top_label = f, l_top_stack = h1, l_bottom_label = n, l_bottom_stack = h2\<rparr>"
  let ?s = "s\<lparr>loops := ?l # loops s\<rparr>"
  have sane: "sane ?a (length ls)" using p by (simp add: place_def)
  then have sane_cs: "sane cs (length ls)" by (auto simp: sane_def nth_append split: if_splits)
  have v: "value_ok (the_gstate s) ?b i (fixups s ! i) (operands ?b ! i) \<and> bounded ?s (fixups s ! i)"
    if i: "i < length (operands ?b)" for i
  proof -
    have o: "value_ok (the_gstate s) ?a i (fixups s ! i) (operands ?a ! i)" "bounded s (fixups s ! i)"
      using p i by (auto simp: place_def)
    show ?thesis
    proof (cases "i < n")
      case True
      then have "operands ?a ! i = operands ?b ! i" using n by (simp add: nth_append)
      then show ?thesis
          using o True n value_ok_retag [where i = i and cs = cs and a = "Inl n" and b = "Inr (length ls)"] by (simp del: operands_append)
    next
      case False
      then have "i = n" using i n by simp
      then show ?thesis
        using o n sane_new_level [OF sane_cs] sane_new_tag [OF sane_cs, of n] by (simp add: value_ok_def)
    qed
  qed
  moreover have "sane ?b (Suc (length ls))"
    using sane_cs by (auto simp: sane_def nth_append less_Suc_eq tag_ok_def split: operand_sym.splits sum.splits)
  moreover have "loop_ok ?b (length (?x # ls) - Suc j) (loops ?s ! j) ((?x # ls) ! j) \<and>
      x_top_stack ((?x # ls) ! j) \<le> max_stack s \<and> x_bottom_stack ((?x # ls) ! j) \<le> max_stack s" if j: "j < length (?x # ls)" for j
  proof (cases j)
    case 0
    have "target_ok ?b k0 f" by (rule target_ok_append [OF k0(1)])
    moreover have "d \<le> max_stack s" using p by (simp add: place_def)
    ultimately show ?thesis using 0 k0(2) n h by (simp add: loop_ok_def)
  next
    case (Suc k)
    then have k: "k < length ls" using j by simp
    have "loop_ok ?a (length ls - Suc k) (loops s ! k) (ls ! k)" using place_loops [OF p k] .
    then have "loop_ok ?b (length ls - Suc k) (loops s ! k) (ls ! k)"
      using take_retag [of "FOpen (Inl n)" "FOpen (Inr (length ls))" cs] k by (auto simp: loop_ok_def is_operand_defs)
    then show ?thesis using p k Suc by (auto simp: place_def)
  qed
  ultimately have "place g0 ?b d sv t (?x # ls) ?s"
    using p by (simp add: place_def fixes_snoc count_append is_operand_defs)
  then show ?thesis by (simp add: enter_loop_def)
qed

lemma sane_close_level: "sane cs (Suc n) \<Longrightarrow> sane (close_tag (\<lambda>g. g = Inr n) k cs) n"
  unfolding sane_def
proof (intro allI impI)
  fix i assume a: "\<forall>i<length (operands cs). tag_ok (Suc n) i (operands cs ! i)"
    and i: "i < length (operands (close_tag (\<lambda>g. g = Inr n) k cs))"
  then have "tag_ok (Suc n) i (operands cs ! i)" by (simp add: close_tag_operands)
  moreover have "tag_ok (Suc n) i x \<Longrightarrow> tag_ok n i (closing (\<lambda>g. g = Inr n) k x)" for x
    by (cases x) (auto simp: tag_ok_def closing_def split: sum.splits)
  ultimately show "tag_ok n i (operands (close_tag (\<lambda>g. g = Inr n) k cs) ! i)"
    using i by (simp add: close_tag_operands)
qed

lemma steps_third: "steps [f1, f2] s = Some s1 \<Longrightarrow> steps [f1, f2, f3] s = f3 s1"
  by (auto split: option.splits)

lemma place_leave:
  assumes p: "place g0 cs d sv t (x # ls) s" and f: "target_ok cs k0 f" "f_kind f = FIXUP_LABEL"
  shows "\<exists>s'. loop_end f s = Some s' \<and>
    place g0 (close_tag (\<lambda>g. g = Inr (length ls)) (length cs + 2) (cs @ [op t OP_JUMP, fx t (FLab k0)])) d sv t ls s'"
proof -
  obtain l lt where lt: "loops s = l # lt" "length lt = length ls" using p by (cases "loops s") (auto simp: place_def)
  let ?cs = "cs @ [op t OP_JUMP, fx t (FLab k0)]"
  have bottom: "Some (l_bottom_label l) = last_open (Inr (length ls)) (operands cs)"
    using place_loops [OF p, of 0] lt by (simp add: loop_ok_def)
  have "goes g0 cs d sv t (x # ls) (steps [emit_byte OP_JUMP, add_known_label f]) ?cs d"
    by (rule goes_eq, rule goes_step [OF goes_emit], rule goes_last [OF goes_known_label [OF target_ok_append [OF f(1)] f(2)]]) simp_all
  from goesD [OF this p] obtain s1 where s1: "steps [emit_byte OP_JUMP, add_known_label f] s = Some s1"
    "place g0 ?cs d sv t (x # ls) s1" by blast
  have ls1: "loops s1 = l # lt" using s1(1) lt by (auto simp: emit_defs add_known_label_def)
  have sane: "sane (close_tag (\<lambda>g. g = Inr (length ls)) (length ?cs) ?cs) (length ls)"
    by (rule sane_close_level) (use s1(2) in \<open>simp add: place_def\<close>)
  from place_define [of g0 ?cs d sv t "[x]" ls s1 "Inr (length ls)", simplified append.simps, OF s1(2) refl _ sane] bottom
  obtain s2 where s2: "define_label (Some (l_bottom_label l)) s1 = Some s2"
    "place g0 (close_tag (\<lambda>g. g = Inr (length ls)) (length ?cs) ?cs) d sv t ls (s2\<lparr>loops := lt\<rparr>)"
    using ls1 by auto
  have e: "steps [emit_byte OP_JUMP, add_known_label f, define_label (Some (l_bottom_label l))] s = Some s2"
    using steps_third [OF s1(1)] s2(1) by (rule trans)
  have "loop_end f s = steps [emit_byte OP_JUMP, add_known_label f, define_label (Some (l_bottom_label l))] (s\<lparr>loops := lt\<rparr>)"
    unfolding loop_end_def exit_loop_def lt by (rule list.case)
  also have "\<dots> = Some (s2\<lparr>loops := lt\<rparr>)"
    unfolding end_loops e by (rule option.map)
  finally have "loop_end f s = Some (s2\<lparr>loops := lt\<rparr>)" .
  with s2(2) show ?thesis by simp
qed

section \<open>A loop\<close>

text \<open>The rest of a loop, from the label of its end, given its body.\<close>

lemma goes_loop:
  assumes k0: "target_ok cs k0 f" "f_kind f = FIXUP_LABEL" and below: "below \<le> d" and n: "n = length (operands cs)"
    and body: "\<And>ks. length ks = length cs + 1 \<Longrightarrow>
      goes g0 ks d sv t (\<lparr>x_id = i, x_index = index, x_top = k0, x_top_stack = d, x_bottom_stack = d - below\<rparr> # ls) B (ks @ cb) d"
    and below1: "below1 = below"
  shows "goes g0 (cs @ [fx t (FOpen (Inl n))]) d sv t ls
      (steps [\<lambda>s. enter_loop i index f (cur_stack s) n (cur_stack s - below1) s, B, loop_end f])
      (close_tag (\<lambda>g. g = Inr (length ls)) (length cs + 1 + length cb + 2)
        (cs @ [fx t (FOpen (Inr (length ls)))] @ cb @ [op t OP_JUMP, fx t (FLab k0)])) d"
proof (rule goesI)
  fix s assume p: "place g0 (cs @ [fx t (FOpen (Inl n))]) d sv t ls s"
  let ?x = "\<lparr>x_id = i, x_index = index, x_top = k0, x_top_stack = d, x_bottom_stack = d - below\<rparr>"
  let ?cs = "cs @ [fx t (FOpen (Inr (length ls)))]"
  have d: "cur_stack s = d" using p by (simp add: place_def)
  obtain s1 where s1: "enter_loop i index f d n (d - below) s = Some s1" "place g0 ?cs d sv t (?x # ls) s1"
    using place_enter [OF p n k0 order.refl diff_le_self, of i index below] by blast
  have "length ?cs = length cs + 1" by simp
  from goesD [OF body [OF this] s1(2)] obtain s2 where s2: "B s1 = Some s2" "place g0 (?cs @ cb) d sv t (?x # ls) s2" by blast
  have "target_ok (?cs @ cb) k0 f" using k0(1) by (simp add: target_ok_append)
  from place_leave [OF s2(2) this k0(2)] obtain s3 where s3: "loop_end f s2 = Some s3"
    "place g0 (close_tag (\<lambda>g. g = Inr (length ls)) (length (?cs @ cb) + 2) ((?cs @ cb) @ [op t OP_JUMP, fx t (FLab k0)])) d sv t ls s3"
    by blast
  show "\<exists>s'. steps [\<lambda>s. enter_loop i index f (cur_stack s) n (cur_stack s - below1) s, B, loop_end f] s = Some s' \<and>
    place g0 (close_tag (\<lambda>g. g = Inr (length ls)) (length cs + 1 + length cb + 2)
        (cs @ [fx t (FOpen (Inr (length ls)))] @ cb @ [op t OP_JUMP, fx t (FLab k0)])) d sv t ls s'"
    using s1(1) s2(1) s3 d below1 by simp
qed

section \<open>Exits\<close>

lemma loop_at_ctx:
  "length Ls = length ls \<Longrightarrow> \<forall>j < length ls. l_id (Ls ! j) = x_id (ls ! j) \<and> l_index (Ls ! j) = x_index (ls ! j) \<Longrightarrow>
   ctx_at exit ls = Some (level, l) \<Longrightarrow> \<exists>i < length ls. loop_at exit Ls = Some i \<and> level = length ls - Suc i \<and> l = ls ! i"
proof (induction ls arbitrary: Ls)
  case (Cons x ls)
  then obtain y Lt where y: "Ls = y # Lt" "length Lt = length ls" by (cases Ls) auto
  have h: "l_id y = x_id x" "l_index y = x_index x" using Cons.prems(2) y by (auto dest: spec [of _ 0])
  show ?case
  proof (cases "exit = None \<or> x_id x = exit \<or> x_index x = exit")
    case True
    then show ?thesis using Cons.prems(3) y h by auto
  next
    case False
    have "\<forall>j < length ls. l_id (Lt ! j) = x_id (ls ! j) \<and> l_index (Lt ! j) = x_index (ls ! j)"
      using Cons.prems(2) y by (auto dest: spec [of _ "Suc _"])
    moreover have "ctx_at exit ls = Some (level, l)" using Cons.prems(3) False by simp
    ultimately obtain i where "i < length ls" "loop_at exit Lt = Some i" "level = length ls - Suc i" "l = ls ! i"
      using Cons.IH [OF y(2)] by blast
    then show ?thesis using y h False by (intro exI [of _ "Suc i"]) auto
  qed
qed simp

lemma goes_exit_head: "goes g0 cs d sv t ls (case exit of None \<Rightarrow> emit_extended_byte EOP_EXIT
    | Some v \<Rightarrow> steps [emit_extended_byte EOP_EXIT_ID, add_var_ref v]) (cs @ exit_head exit t) d"
proof (cases exit)
  case None
  show ?thesis unfolding None option.case exit_head_def by (rule goes_emit2)
next
  case (Some v)
  show ?thesis unfolding Some option.case exit_head_def
    by (rule goes_eq, rule goes_step [OF goes_emit2], rule goes_last [OF goes_var_ref]) simp_all
qed

lemma place_exit_loop:
  assumes "place g0 cs d sv t ls s" "ctx_at exit ls = Some (level, l)"
  obtains i where "i < length ls" "loop_at exit (loops s) = Some i" "level = length ls - Suc i" "l = ls ! i"
    "loop_ok cs level (loops s ! i) l" "x_top_stack l \<le> max_stack s" "x_bottom_stack l \<le> max_stack s"
proof -
  have "\<forall>j < length ls. l_id (loops s ! j) = x_id (ls ! j) \<and> l_index (loops s ! j) = x_index (ls ! j)"
    using place_loops [OF assms(1)] by (simp add: loop_ok_def)
  moreover have "length (loops s) = length ls" using place_simple [OF assms(1)] by simp
  ultimately obtain i where i: "i < length ls" "loop_at exit (loops s) = Some i" "level = length ls - Suc i" "l = ls ! i"
    using loop_at_ctx assms(2) by blast
  moreover have "x_top_stack l \<le> max_stack s \<and> x_bottom_stack l \<le> max_stack s"
    using assms(1) i unfolding place_def by blast
  ultimately show ?thesis using that place_loops [OF assms(1) i(1)] by blast
qed

lemma goes_exit:
  assumes e: "ctx_at exit ls \<noteq> None"
  shows "goes g0 cs d sv t ls (exit_code is_continue exit) (cs @ code_exit is_continue exit t ls) d"
proof -
  obtain level l where c: "ctx_at exit ls = Some (level, l)" using e by auto
  let ?cs = "cs @ exit_head exit t"
  let ?G = "\<lambda>s. case loop_at exit (loops s) of
              None \<Rightarrow> None
            | Some i \<Rightarrow>
                (let l = loops s ! i in
                 if is_continue then steps [add_stack_ref (l_top_stack l), add_known_label (l_top_label l)] s
                 else
                   steps
                     [add_stack_ref (l_bottom_stack l),
                      next_label (\<lambda>new_bottom. steps
                        [add_linked_label (Some (l_bottom_label l)),
                         \<lambda>s. Some (s\<lparr>loops := (loops s)[i := l\<lparr>l_bottom_label := new_bottom\<rparr>]\<rparr>)])] s)"
  let ?c = "if is_continue then [fx t (FStk (x_top_stack l)), fx t (FLab (x_top l))]
      else [fx t (FStk (x_bottom_stack l)), fx t (FOpen (Inr level))]"
  have "goes g0 ?cs d sv t ls ?G (?cs @ ?c) d"
  proof (rule goesI)
    fix s assume p: "place g0 ?cs d sv t ls s"
    from p c obtain i where i: "i < length ls" "loop_at exit (loops s) = Some i" "level = length ls - Suc i" "l = ls ! i"
      "loop_ok ?cs level (loops s ! i) l" by (rule place_exit_loop)
    show "\<exists>s'. ?G s = Some s' \<and> place g0 (?cs @ ?c) d sv t ls s'"
    proof (cases is_continue)
      case True
      have m: "x_top_stack l \<le> max_stack s'" if "place g0 ?cs d sv t ls s'" for s'
        using that c by (rule place_exit_loop)
      have "goes g0 ?cs d sv t ls (steps [add_stack_ref (x_top_stack l), add_known_label (l_top_label (loops s ! i))]) (?cs @ ?c) d"
        by (rule goes_eq, rule goes_step [OF goes_stack_ref [OF m]], assumption,
            rule goes_last [OF goes_known_label [OF target_ok_append, where l = "x_top l"]])
          (use i(5) True in \<open>simp_all add: loop_ok_def\<close>)
      from goesD [OF this p] show ?thesis using i(2,5) True by (simp add: Let_def loop_ok_def)
    next
      case False
      have m: "x_bottom_stack l \<le> max_stack s'" if "place g0 ?cs d sv t ls s'" for s'
        using that c by (rule place_exit_loop)
      let ?cs1 = "?cs @ [fx t (FStk (x_bottom_stack l))]"
      obtain s1 where s1: "add_stack_ref (x_bottom_stack l) s = Some s1" "place g0 ?cs1 d sv t ls s1"
        using goesD [OF goes_stack_ref [OF m] p] by blast
      have ls1: "loops s1 = loops s" using s1(1) by (auto simp: add_stack_ref_def emit_defs)
      have bottom: "Some (l_bottom_label (loops s ! i)) = last_open (Inr level) (operands ?cs1)"
        using i(5) by (simp add: loop_ok_def last_open_append last_open_Cons)
      let ?n = "length (operands ?cs1)"
      let ?l = "(loops s ! i)\<lparr>l_bottom_label := ?n\<rparr>"
      let ?F = "steps [add_linked_label (Some (l_bottom_label (loops s ! i))), \<lambda>s. Some (s\<lparr>loops := (loops s)[i := ?l]\<rparr>)]"
      obtain s2 where s2: "?F s1 = Some s2" by (simp add: add_linked_label_def emit_defs)
      have lo: "loop_ok (?cs1 @ [fx t (FOpen (Inr level))]) (length ls - Suc j) ((loops s)[i := ?l] ! j) (ls ! j)"
        if j: "j < length ls" for j
      proof (cases "j = i")
        case True
        have "target_ok (?cs1 @ [fx t (FOpen (Inr level))]) (x_top l) (l_top_label (loops s ! i))"
          using i(5) unfolding loop_ok_def by (metis target_ok_append append_assoc)
        then show ?thesis using i j True place_simple [OF p] by (simp add: loop_ok_def last_open_append last_open_Cons)
      next
        case False
        then have "length ls - Suc j \<noteq> level" using i(1,3) j by simp
        then show ?thesis using loop_ok_snoc [OF place_loops [OF s1(2) j], of "FOpen (Inr level)"] False ls1 by auto
      qed
      have "place g0 (?cs1 @ [fx t (FOpen (Inr level))]) d sv t ls s2"
        by (rule place_fix [OF s1(2), where f = "new_fixup FIXUP_LABEL 0 (Some (l_bottom_label (loops s ! i))) s1"])
          (use s2 place_simple [OF s1(2)] bottom i(1,3) lo ls1 in
            \<open>auto simp: add_linked_label_def emit_defs value_ok_def bounded_def tag_ok_def is_operand_defs gext_def
              split: operand_sym.splits fixup_kind.splits\<close>)
      moreover have "?G s = Some s2"
        using i s1(1) s2 False place_fixups [OF s1(2)] by (simp add: Let_def loop_ok_def next_label_def)
      ultimately show ?thesis using False by auto
    qed
  qed
  from goes_step [OF goes_exit_head goes_last [OF this]] show ?thesis
    unfolding exit_code_def code_exit_def c by (rule goes_eq) simp_all
qed

end
