(* ===== verification/CodeStmts.thy ===== *)
theory CodeStmts
  imports CodeLoops
begin

text \<open>
  The generator emits the documented sequence of every statement, and leaves the stack as it
  was.
\<close>

section \<open>Only exits stay open\<close>

definition open_below :: "nat \<Rightarrow> sym list \<Rightarrow> bool" where
  "open_below n cs \<longleftrightarrow> (\<forall>g. FOpen g \<in> set (operands cs) \<longrightarrow> (\<exists>lv < n. g = Inr lv))"

lemma open_below_append [simp]: "open_below n (a @ b) \<longleftrightarrow> open_below n a \<and> open_below n b"
  by (auto simp: open_below_def)

lemma open_below_simps [simp]:
  "open_below n []" "open_below n (SByte m t b # cs) \<longleftrightarrow> open_below n cs"
  "(\<And>g. x \<noteq> FOpen g) \<Longrightarrow> open_below n (SFix t x # cs) \<longleftrightarrow> open_below n cs"
  "open_below n (SFix t (FOpen (Inr lv)) # cs) \<longleftrightarrow> lv < n \<and> open_below n cs"
  by (auto simp: open_below_def)

lemma open_below_none: "(\<And>g. FOpen g \<notin> set (operands cs)) \<Longrightarrow> open_below n cs"
  by (auto simp: open_below_def)

lemma open_below_tag: "open_below n cs \<Longrightarrow> FOpen (Inl j) \<notin> set (operands cs)"
  by (auto simp: open_below_def)

lemma open_below_exprs [simp]: "open_below n (code_expr e k d sv t)" "open_below n (code_codes as k d sv t)" "open_below n (var_op t b i)"
  by (simp_all add: open_below_none)

lemma open_below_except [simp]: "open_below n (code_except_codes ex hs k d t)"
  by (induction ex hs k d t rule: code_except_codes.induct) (simp_all add: Let_def)

lemma open_below_heads [simp]: "open_below n (list_head i index t)" "open_below n (while_head v t)" "open_below n (exit_head e t)"
  by (simp_all add: list_head_def while_head_def exit_head_def split: option.split)

lemma open_below_close: "open_below (Suc n) cs \<Longrightarrow> open_below n (close_tag (\<lambda>g. g = Inr n) k cs)"
  unfolding open_below_def close_tag_operands
proof (intro allI impI)
  fix g assume a: "\<forall>g. FOpen g \<in> set (operands cs) \<longrightarrow> (\<exists>lv<Suc n. g = Inr lv)"
    and "FOpen g \<in> set (map (closing (\<lambda>g. g = Inr n) k) (operands cs))"
  then obtain x where x: "x \<in> set (operands cs)" "closing (\<lambda>g. g = Inr n) k x = FOpen g" by force
  from x(2) have "x = FOpen g \<and> g \<noteq> Inr n" by (cases x) (auto simp: closing_def split: if_splits)
  then show "\<exists>lv<n. g = Inr lv" using a x(1) by (auto simp: less_Suc_eq)
qed

lemma open_below_cycle: "open_below n head \<Longrightarrow> (\<And>m. open_below (Suc n) (body m)) \<Longrightarrow> open_below n (code_cycle head k0 body n k t)"
  unfolding code_cycle_def Let_def
  by (rule open_below_close) (auto simp: open_below_def)

lemma ctx_at_level: "ctx_at exit ls = Some (level, l) \<Longrightarrow> level < length ls"
  by (induction ls) (auto split: if_splits)

lemma open_below_exit [simp]: "open_below (length ls) (code_exit c e t ls)"
  by (auto simp: code_exit_def ctx_at_level split: option.split)

lemma open_below_loop:
  "\<forall>k d t ls. open_below (length ls) (code_stmts body k d t ls) \<Longrightarrow> open_below (Suc (length ls)) (code_stmts body k d t (x # ls))"
  by (metis length_Cons)

lemma open_below_stmts:
  "\<forall>k d t ls. open_below (length ls) (code_stmt st k d t ls)"
  "\<forall>k d t ls. open_below (length ls) (code_stmts sts k d t ls)"
  "\<forall>b code_else k d t ls. (\<forall>k. open_below (length ls) (code_else k)) \<longrightarrow> open_below (length ls) (code_arms b arms code_else k d t ls)"
  "\<forall>k d t ls. open_below (length ls) (snd (code_handlers ex k d t ls))"
proof (induction st and sts and arms and ex)
  case (STMT_LIST i index e body)
  then show ?case by (auto simp: Let_def intro!: open_below_cycle open_below_loop)
next
  case (STMT_RANGE i a b body)
  then show ?case by (auto simp: Let_def intro!: open_below_cycle open_below_loop)
next
  case (STMT_WHILE i c body)
  then show ?case by (auto simp: Let_def intro!: open_below_cycle open_below_loop)
qed (simp_all add: Let_def case_prod_beta split: option.split)

lemmas open_below_stmt [simp] = open_below_stmts(1,2,4) [rule_format]
lemmas no_tag [simp] = open_below_tag [OF open_below_stmt(1)] open_below_tag [OF open_below_stmt(2)] open_below_tag [OF open_below_stmt(3)]

lemma no_tag_arms: "(\<And>k. open_below (length ls) (code_else k)) \<Longrightarrow> FOpen (Inl j) \<notin> set (operands (code_arms b arms code_else k d t ls))"
  using open_below_stmts(3) open_below_tag by blast

section \<open>Simple statements and loops\<close>

definition loop_names :: "loop_ctx list \<Rightarrow> (nat option \<times> nat option) list" where
  "loop_names ls = map (\<lambda>x. (x_id x, x_index x)) ls"

lemma loop_names_Cons [simp]: "loop_names (x # ls) = (x_id x, x_index x) # loop_names ls" "loop_names [] = []"
  by (simp_all add: loop_names_def)

lemma exits_ctx: "exits exit (loop_names ls) \<Longrightarrow> ctx_at exit ls \<noteq> None"
  by (induction ls) auto

text \<open>Inside loops of these names, \<open>G\<close> adds the sequence \<open>C\<close>.\<close>

definition runs :: "(nat option \<times> nat option) list \<Rightarrow> gen \<Rightarrow> (nat \<Rightarrow> nat \<Rightarrow> nat \<Rightarrow> loop_ctx list \<Rightarrow> sym list) \<Rightarrow> bool" where
  "runs names G C \<longleftrightarrow> (\<forall>g0 cs d t ls. loop_names ls = names \<longrightarrow> goes g0 cs d None t ls G (cs @ C (length cs) d t ls) d)"

lemma runsI:
  "(\<And>g0 cs d t ls. loop_names ls = names \<Longrightarrow> goes g0 cs d None t ls G (cs @ C (length cs) d t ls) d) \<Longrightarrow> runs names G C"
  by (simp add: runs_def)

lemma runsD: "runs names G C \<Longrightarrow> loop_names ls = names \<Longrightarrow> goes g0 cs d None t ls G (cs @ C (length cs) d t ls) d"
  by (simp add: runs_def)

lemma goes_expr: "wf_expr False e \<Longrightarrow> goes g0 cs d None t ls (generate_expr e) (cs @ code_expr e (length cs) d None t) (d + 1)"
  by (rule yieldsD [OF yields_all(1) [THEN conjunct1, rule_format, of False e]]) simp_all

lemma goes_codes: "wf_args False as \<Longrightarrow> goes g0 cs d None t ls (generate_codes as) (cs @ code_codes as (length cs) d None t) (d + 1)"
  by (rule yieldsD [OF yields_all(2) [rule_format, of False as, THEN conjunct2]]) simp_all

lemma runs_cons:
  assumes "runs names (generate_stmt st) (code_stmt st)" "runs names (generate_stmts sts) (code_stmts sts)"
  shows "runs names (generate_stmts (StCons st sts)) (code_stmts (StCons st sts))"
  by (rule runsI, simp only: generate_stmts.simps, rule goes_eq, rule goes_step [OF runsD [OF assms(1)]], assumption,
      rule goes_last [OF runsD [OF assms(2)]]) (simp_all add: Let_def)

lemma runs_nil: "runs names (generate_stmts StNil) (code_stmts StNil)"
  unfolding generate_stmts.simps by (rule runsI, rule goes_eq [OF goes_nil]) simp_all

lemma runs_expr: "wf_expr False e \<Longrightarrow> runs names (generate_stmt (STMT_EXPR e)) (code_stmt (STMT_EXPR e))"
  by (rule runsI, simp only: generate_stmt.simps, rule goes_eq, rule goes_step [OF goes_expr], assumption,
      rule goes_step [OF goes_emit], rule goes_last [OF goes_pop]) simp_all

lemma runs_return:
  "(case e of None \<Rightarrow> True | Some v \<Rightarrow> wf_expr False v) \<Longrightarrow> runs names (generate_stmt (STMT_RETURN e)) (code_stmt (STMT_RETURN e))"
proof (rule runsI, cases e)
  case (Some v)
  assume "case e of None \<Rightarrow> True | Some v \<Rightarrow> wf_expr False v"
  then have "wf_expr False v" using Some by simp
  then show "goes g0 cs d None t ls (generate_stmt (STMT_RETURN e)) (cs @ code_stmt (STMT_RETURN e) (length cs) d t ls) d"
    for g0 cs d t ls
    unfolding generate_stmt.simps Some option.case emit_ending_op_def
    by (intro goes_eq [OF goes_step [OF goes_expr goes_step [OF goes_mark goes_last [OF goes_pop]]]]) simp_all
qed (use goes_mark [where m = 143 and b = 142] in \<open>simp_all add: emit_ending_op_def\<close>)

lemma runs_exit:
  assumes "exits exit names"
  shows "runs names (generate_stmt (STMT_BREAK exit)) (code_stmt (STMT_BREAK exit))"
    "runs names (generate_stmt (STMT_CONTINUE exit)) (code_stmt (STMT_CONTINUE exit))"
  using assms by (auto intro!: runsI goes_exit exits_ctx)

lemma open_heads [simp]: "FOpen g \<notin> set (operands (list_head i index t))" "FOpen g \<notin> set (operands (while_head v t))"
  by (simp_all add: list_head_def while_head_def split: option.split)

lemma goes_two: "goes g0 cs d sv t ls (steps [G, H]) cs1 d1 \<Longrightarrow> goes g0 cs1 d1 sv t ls (steps Gs) cs2 d2 \<Longrightarrow>
    goes g0 cs d sv t ls (steps (G # H # Gs)) cs2 d2"
  unfolding goes_def by (fastforce split: option.splits)

lemma goes_body:
  assumes B: "runs ((i, index) # names) B C" and ls: "loop_names ls = names"
    and k0: "target_ok cs k0 f" "f_kind f = FIXUP_LABEL" and below: "below \<le> d" and x: "x = \<lparr>x_id = i, x_index = index, x_top = k0, x_top_stack = d, x_bottom_stack = d - below\<rparr>"
  shows "goes g0 cs d None t ls (loop_body i index f below B)
    (let cb = C (length cs + 1) d t (x # ls) in
     close_tag (\<lambda>g. g = Inr (length ls)) (length cs + 1 + length cb + 2)
      (cs @ [fx t (FOpen (Inr (length ls)))] @ cb @ [op t OP_JUMP, fx t (FLab k0)])) d"
proof -
  let ?cb = "C (length cs + 1) d t (x # ls)"
  have b: "goes g0 ks d None t (\<lparr>x_id = i, x_index = index, x_top = k0, x_top_stack = d, x_bottom_stack = d - below\<rparr> # ls) B (ks @ ?cb) d"
    if "length ks = length cs + 1" for ks
    using runsD [OF B, of "x # ls" g0 ks d t] ls that by (simp add: x)
  show ?thesis unfolding loop_body_def Let_def
    by (rule goes_next, rule goes_step [OF goes_label], rule goes_loop [OF k0 below refl b refl])
qed

lemma close_front: "FOpen h \<notin> set (operands a) \<Longrightarrow> close_tag (\<lambda>g. g = h) k (a @ b) = a @ close_tag (\<lambda>g. g = h) k b"
  by (simp add: close_tag_append close_one)

lemma sane_level: "sane cs n \<Longrightarrow> FOpen (Inr n) \<notin> set (operands cs)"
  using sane_new_level last_open_None by blast

text \<open>A loop whose head has been emitted: \<open>start\<close> is the sequence before the head.\<close>

lemma goes_cycle:
  assumes B: "runs ((i, index) # names) B C" and ls: "loop_names ls = names"
    and k0: "target_ok cs (length cs) f" "f_kind f = FIXUP_LABEL" and below: "below \<le> d"
    and x: "x = \<lparr>x_id = i, x_index = index, x_top = length cs, x_top_stack = d, x_bottom_stack = d - below\<rparr>"
    and head: "\<And>g. FOpen g \<notin> set (operands head)"
  shows "goes g0 (cs @ head) d None t ls (loop_body i index f below B)
    (cs @ code_cycle head (length cs) (\<lambda>m. C m d t (x # ls)) (length ls) (length cs) t) d"
proof -
  have k: "target_ok (cs @ head) (length cs) f" using k0(1) by (rule target_ok_append)
  show ?thesis
  proof (rule goes_sane)
    assume "sane (cs @ head) (length ls)"
    then have o: "FOpen (Inr (length ls)) \<notin> set (operands cs)" using sane_level by fastforce
    show ?thesis
      by (rule goes_eq [OF goes_body [OF B ls k k0(2) below x]])
        (simp_all add: Let_def code_cycle_def close_front o add.assoc)
  qed
qed

lemma runs_list:
  assumes e: "wf_expr False e" and b: "runs ((Some i, index) # names) (generate_stmts body) (code_stmts body)"
  shows "runs names (generate_stmt (STMT_LIST i index e body)) (code_stmt (STMT_LIST i index e body))"
proof (rule runsI)
  fix g0 cs d t ls assume ls: "loop_names ls = names"
  have head: "goes g0 ks d1 None t ls (case index of
          Some ix \<Rightarrow> steps [emit_extended_byte EOP_FOR_LIST_2, add_var_ref i, add_var_ref ix]
        | None \<Rightarrow> steps [emit_extended_byte EOP_FOR_LIST_1, add_var_ref i]) (ks @ list_head i index t) d1" for ks d1
  proof (cases index)
    case None
    show ?thesis unfolding None option.case list_head_def
      by (rule goes_eq, rule goes_step [OF goes_emit2], rule goes_last [OF goes_var_ref]) simp_all
  next
    case (Some ix)
    show ?thesis unfolding Some option.case list_head_def
      by (rule goes_eq, rule goes_step [OF goes_emit2], rule goes_step [OF goes_var_ref], rule goes_last [OF goes_var_ref]) simp_all
  qed
  have v: "scalar VNONE" by (simp add: scalar_def)
  show "goes g0 cs d None t ls (generate_stmt (STMT_LIST i index e body)) (cs @ code_stmt (STMT_LIST i index e body) (length cs) d t ls) d"
    unfolding generate_stmt.simps
    by (rule goes_eq, rule goes_step [OF goes_expr [OF e]], rule goes_step [OF goes_emit], rule goes_step [OF goes_literal [OF v]],
        rule goes_step [OF goes_eq [OF goes_push refl, where d' = "d + 2"]], simp, rule goes_last [OF goes_top], rule goes_step [OF head],
        rule goes_step [OF goes_cycle [OF b ls _ _ _ refl]], assumption+, simp, simp, rule goes_last [OF goes_pop], simp, simp)
      (simp_all add: Let_def add.assoc)
qed

lemma runs_range:
  assumes e: "wf_expr False e1" "wf_expr False e2" and b: "runs ((Some i, None) # names) (generate_stmts body) (code_stmts body)"
  shows "runs names (generate_stmt (STMT_RANGE i e1 e2 body)) (code_stmt (STMT_RANGE i e1 e2 body))"
proof (rule runsI)
  fix g0 cs d t ls assume ls: "loop_names ls = names"
  have head: "goes g0 ks d1 None t ls (steps [emit_byte OP_FOR_RANGE, add_var_ref i]) (ks @ [op t OP_FOR_RANGE, fx t (FVar i)]) d1" for ks d1
    by (rule goes_eq, rule goes_step [OF goes_emit], rule goes_last [OF goes_var_ref]) simp_all
  show "goes g0 cs d None t ls (generate_stmt (STMT_RANGE i e1 e2 body)) (cs @ code_stmt (STMT_RANGE i e1 e2 body) (length cs) d t ls) d"
    unfolding generate_stmt.simps
    by (rule goes_eq, rule goes_step [OF goes_expr [OF e(1)]], rule goes_step [OF goes_eq [OF goes_expr [OF e(2)] refl, where d' = "d + 2"]], simp,
        rule goes_last [OF goes_top], rule goes_two [OF head],
        rule goes_step [OF goes_cycle [OF b ls _ _ _ refl]], assumption+, simp, simp, rule goes_last [OF goes_pop], simp, simp)
      (simp_all add: Let_def add.assoc)
qed

text \<open>The end of a \<^verbatim>\<open>while\<close> loop has its label before the value is popped.\<close>

lemma runs_while:
  assumes e: "wf_expr False c" and b: "runs ((i, None) # names) (generate_stmts body) (code_stmts body)"
  shows "runs names (generate_stmt (STMT_WHILE i c body)) (code_stmt (STMT_WHILE i c body))"
proof (rule runsI)
  fix g0 d t ls and cs :: "sym list" assume ls: "loop_names ls = names"
  let ?head = "code_expr c (length cs) d None t @ while_head i t"
  let ?x = "\<lparr>x_id = i, x_index = None, x_top = length cs, x_top_stack = d, x_bottom_stack = d - 0\<rparr>"
  let ?cb = "code_stmts body (length (cs @ ?head) + 1) d t (?x # ls)"
  have head: "goes g0 ks d1 None t ls (case i of None \<Rightarrow> emit_byte OP_WHILE
      | Some v \<Rightarrow> steps [emit_extended_byte EOP_WHILE_ID, add_var_ref v]) (ks @ while_head i t) d1" for ks d1
  proof (cases i)
    case None
    show ?thesis unfolding None option.case while_head_def by (rule goes_emit)
  next
    case (Some v)
    show ?thesis unfolding Some option.case while_head_def
      by (rule goes_eq, rule goes_step [OF goes_emit2], rule goes_last [OF goes_var_ref]) simp_all
  qed
  let ?h = "(cs @ code_expr c (length cs) d None t) @ while_head i t"
  have body: "goes g0 (?h @ [fx t (FOpen (Inl (length (operands ?h))))]) d None t ls
      (steps [\<lambda>s. enter_loop i None f (cur_stack s) (length (operands ?h)) (cur_stack s) s, generate_stmts body, loop_end f])
      (cs @ code_cycle ?head (length cs) (\<lambda>m. code_stmts body m d t (?x # ls)) (length ls) (length cs) t) d"
    if f: "target_ok cs (length cs) f" "f_kind f = FIXUP_LABEL" for f
  proof (rule goes_sane)
    let ?n = "length (operands ?h)"
    assume "sane (?h @ [fx t (FOpen (Inl ?n))]) (length ls)"
    then have o: "FOpen (Inr (length ls)) \<notin> set (operands cs)" using sane_level by fastforce
    have g: "goes g0 ks d None t (?x # ls) (generate_stmts body) (ks @ ?cb) d" if "length ks = length (cs @ ?head) + 1" for ks
      using runsD [OF b, of "?x # ls" g0 ks d t] ls that by simp
    have m: "(\<lambda>s. enter_loop i None f (cur_stack s) ?n (cur_stack s) s) = (\<lambda>s. enter_loop i None f (cur_stack s) ?n (cur_stack s - 0) s)"
      by simp
    have "goes g0 (?h @ [fx t (FOpen (Inl ?n))]) d None t ls
      (steps [\<lambda>s. enter_loop i None f (cur_stack s) ?n (cur_stack s) s, generate_stmts body, loop_end f])
      (close_tag (\<lambda>g. g = Inr (length ls)) (length ?h + 1 + length ?cb + 2)
        (?h @ [fx t (FOpen (Inr (length ls)))] @ ?cb @ [op t OP_JUMP, fx t (FLab (length cs))])) d"
      unfolding m
      by (rule goes_loop [OF target_ok_append [OF target_ok_append [OF f(1)]] f(2) le0 refl g refl]) simp
    then show ?thesis
      by (simp add: Let_def code_cycle_def close_front o add.assoc)
  qed
  show "goes g0 cs d None t ls (generate_stmt (STMT_WHILE i c body)) (cs @ code_stmt (STMT_WHILE i c body) (length cs) d t ls) d"
    unfolding generate_stmt.simps
    by (rule goes_top, rule goes_eq, rule goes_step [OF goes_expr [OF e]], rule goes_step [OF head], rule goes_last [OF goes_next],
        rule goes_step [OF goes_label], rule goes_step [OF goes_eq [OF goes_pop, where d' = d]], simp, simp, rule refl, simp,
        rule body, assumption+)
      (simp_all add: Let_def add.assoc)
qed

section \<open>Forks and conditions\<close>

lemma runs_fork:
  assumes e: "wf_expr False e" and b: "runs [] (generate_stmts body) (code_stmts body)"
  shows "runs names (generate_stmt (STMT_FORK i e body)) (code_stmt (STMT_FORK i e body))"
proof (rule runsI)
  fix g0 d t and ls :: "loop_ctx list" and cs :: "sym list"
  have g: "goes g [] 0 None 0 [] (generate_stmts body) (code_stmts body 0 0 0 []) 0" for g
    using runsD [OF b, of "[]" g "[]" 0 0] by simp
  show "goes g0 cs d None t ls (generate_stmt (STMT_FORK i e body)) (cs @ code_stmt (STMT_FORK i e body) (length cs) d t ls) d"
    unfolding generate_stmt.simps
    by (rule goes_eq, rule goes_step [OF goes_expr [OF e]], rule goes_step [OF goes_emit], rule goes_step [OF goes_fork [OF g]],
        rule goes_last [OF goes_pop], simp, simp) (simp_all split: option.split)
qed

text \<open>
  The arms of a condition, whose jumps to the end are a chain of labels with the tag of the
  first.
\<close>

definition runs_arms :: "(nat option \<times> nat option) list \<Rightarrow> arms \<Rightarrow> bool" where
  "runs_arms names arms \<longleftrightarrow> (\<forall>g0 cs d t ls b j end_label gen_else code_else.
     loop_names ls = names \<longrightarrow> (\<forall>ks. goes g0 ks d None t ls gen_else (ks @ code_else (length ks)) d) \<longrightarrow>
     (\<forall>k. open_below (length ls) (code_else k)) \<longrightarrow> last_open (Inl j) (operands cs) = Some end_label \<longrightarrow> j < length (operands cs) \<longrightarrow>
     goes g0 cs d None t ls (generate_arms b (Some end_label) arms gen_else)
       (let ca = code_arms b arms code_else (length cs) d t ls in
        close_tag (\<lambda>g. g = Inl j) (length cs + length ca) cs @ ca) d)"

lemma runs_armsD:
  "runs_arms names arms \<Longrightarrow> loop_names ls = names \<Longrightarrow> (\<And>ks. goes g0 ks d None t ls gen_else (ks @ code_else (length ks)) d) \<Longrightarrow>
     (\<And>k. open_below (length ls) (code_else k)) \<Longrightarrow> last_open (Inl j) (operands cs) = Some end_label \<Longrightarrow> j < length (operands cs) \<Longrightarrow>
     goes g0 cs d None t ls (generate_arms b (Some end_label) arms gen_else)
       (let ca = code_arms b arms code_else (length cs) d t ls in
        close_tag (\<lambda>g. g = Inl j) (length cs + length ca) cs @ ca) d"
  unfolding runs_arms_def by blast

lemma runs_no_arms: "runs_arms names IfNil"
  unfolding runs_arms_def
proof (intro allI impI)
  fix g0 cs d t ls b j end_label gen_else code_else
  assume e: "\<forall>ks. goes g0 ks d None t ls gen_else (ks @ code_else (length ks)) d" and o: "\<forall>k. open_below (length ls) (code_else k)"
    and l: "last_open (Inl j) (operands cs) = Some end_label"
  let ?c = "code_else (length cs)"
  have n: "FOpen (Inl j) \<notin> set (operands ?c)" using o open_below_tag by blast
  then have "last_open (Inl j) (operands (cs @ ?c)) = Some end_label"
    using l by (simp add: last_open_append last_open_None [symmetric])
  from goes_step [OF spec [OF e] goes_last [OF goes_define [OF refl this]]]
  show "goes g0 cs d None t ls (generate_arms b (Some end_label) IfNil gen_else)
       (let ca = code_arms b IfNil code_else (length cs) d t ls in close_tag (\<lambda>g. g = Inl j) (length cs + length ca) cs @ ca) d"
    unfolding generate_arms.simps by (rule goes_eq) (simp_all add: Let_def close_tag_append close_one n)
qed

lemma last_open_keep: "FOpen g \<notin> set ys \<Longrightarrow> last_open g (xs @ ys) = last_open g xs"
  by (simp add: last_open_append last_open_None [symmetric])

text \<open>One arm, up to the label of its jump, that is new or linked to the one before.\<close>

lemma goes_arm:
  assumes c: "wf_expr False c" and b: "runs names (generate_stmts body) (code_stmts body)" and ls: "loop_names ls = names"
    and cc: "cc = code_expr c (length cs) d None t" and cb: "cb = code_stmts body (length cs + length cc + 2) d t ls"
    and pre: "pre = cs @ cc @ [op t if_op, fx t (FOpen (Inl l))] @ cb @ [op t OP_JUMP]" and l: "l = length (operands (cs @ cc))"
    and J: "J \<noteq> l" "J \<le> length (operands pre)" "last_open (Inl J) (operands pre) = end_label"
    and rest: "goes g0 (cs @ cc @ [op t if_op, fx t (FLab (length cs + length cc + 2 + length cb + 2))] @ cb @ [op t OP_JUMP, fx t (FOpen (Inl J))])
      d None t ls (generate_arms OP_EIF (Some (length (operands pre))) arms gen_else) cs2 d"
  shows "goes g0 cs d None t ls (generate_arms if_op end_label (IfCons c body arms) gen_else) cs2 d"
proof -
  have b1: "goes g0 (cs @ cc @ [op t if_op, fx t (FOpen (Inl l))]) d None t ls (generate_stmts body)
      (cs @ cc @ [op t if_op, fx t (FOpen (Inl l))] @ cb) d"
    by (rule goes_eq [OF runsD [OF b ls]]) (simp_all add: cb add.assoc)
  have b2: "goes g0 pre d None t ls (add_linked_label end_label) (pre @ [fx t (FOpen (Inl J))]) d"
    by (rule goes_linked_label [OF refl J(2,3)])
  have b3: "goes g0 (pre @ [fx t (FOpen (Inl J))]) d None t ls (define_label (Some l))
      (cs @ cc @ [op t if_op, fx t (FLab (length cs + length cc + 2 + length cb + 2))] @ cb @ [op t OP_JUMP, fx t (FOpen (Inl J))]) d"
    by (rule goes_eq [OF goes_define_at [where cs = "cs @ cc @ [op t if_op]" and u = t and r = "cb @ [op t OP_JUMP, fx t (FOpen (Inl J))]"]])
      (use J(1) in \<open>simp_all add: pre l cb\<close>)
  have b4: "goes g0 (cs @ cc @ [op t if_op, fx t (FOpen (Inl l))]) d None t ls (steps [generate_stmts body, emit_byte OP_JUMP]) pre d"
    by (rule goes_eq [OF goes_step [OF b1 goes_last [OF goes_emit]]]) (simp_all add: pre)
  have b5: "goes g0 (cs @ cc @ [op t if_op]) (d + 1) None t ls (steps [add_label, pop_stack 1]) (cs @ cc @ [op t if_op, fx t (FOpen (Inl l))]) d"
    by (rule goes_eq, rule goes_step [OF goes_label], rule goes_last [OF goes_pop]) (simp_all add: l)
  have b6: "goes g0 cs d None t ls (steps [generate_expr c, emit_byte if_op]) (cs @ cc @ [op t if_op]) (d + 1)"
    by (rule goes_eq, rule goes_step [OF goes_expr [OF c]], rule goes_last [OF goes_emit]) (simp_all add: cc)
  have lo: "length (operands (cs @ cc @ [op t if_op])) = l" by (simp add: l)
  show ?thesis unfolding generate_arms.simps
    by (rule goes_two [OF b6], rule goes_last [OF goes_next], unfold lo, rule goes_two [OF b5], rule goes_two [OF b4],
        rule goes_last [OF goes_next], rule goes_step [OF b2], rule goes_step [OF b3], rule goes_last [OF rest])
qed

lemma runs_arm:
  assumes c: "wf_expr False c" and b: "runs names (generate_stmts body) (code_stmts body)" and arms: "runs_arms names arms"
  shows "runs_arms names (IfCons c body arms)"
  unfolding runs_arms_def
proof (intro allI impI)
  fix g0 d t b j end_label gen_else code_else and ls :: "loop_ctx list" and cs :: "sym list"
  assume ls: "loop_names ls = names" and e: "\<forall>ks. goes g0 ks d None t ls gen_else (ks @ code_else (length ks)) d"
    and o: "\<forall>k. open_below (length ls) (code_else k)"
    and l: "last_open (Inl j) (operands cs) = Some end_label" and j: "j < length (operands cs)"
  let ?cc = "code_expr c (length cs) d None t"
  let ?cb = "code_stmts body (length cs + length ?cc + 2) d t ls"
  let ?l = "length (operands (cs @ ?cc))"
  let ?pre = "cs @ ?cc @ [op t b, fx t (FOpen (Inl ?l))] @ ?cb @ [op t OP_JUMP]"
  let ?k2 = "length cs + length ?cc + 2 + length ?cb + 2"
  let ?cs1 = "cs @ ?cc @ [op t b, fx t (FLab ?k2)] @ ?cb @ [op t OP_JUMP, fx t (FOpen (Inl j))]"
  have p: "last_open (Inl j) (operands ?pre) = Some end_label"
    using l j by (simp add: last_open_append last_open_Cons last_open_None [THEN iffD2])
  have q: "last_open (Inl j) (operands ?cs1) = Some (length (operands ?pre))"
    by (simp add: last_open_append last_open_Cons)
  have r: "goes g0 ?cs1 d None t ls (generate_arms OP_EIF (Some (length (operands ?pre))) arms gen_else)
       (let ca = code_arms OP_EIF arms code_else (length ?cs1) d t ls in
        close_tag (\<lambda>g. g = Inl j) (length ?cs1 + length ca) ?cs1 @ ca) d"
    by (rule runs_armsD [OF arms ls _ _ q]) (use e o j in auto)
  from goes_arm [OF c b ls refl refl refl refl _ _ p r] j
  show "goes g0 cs d None t ls (generate_arms b (Some end_label) (IfCons c body arms) gen_else)
       (let ca = code_arms b (IfCons c body arms) code_else (length cs) d t ls in
        close_tag (\<lambda>g. g = Inl j) (length cs + length ca) cs @ ca) d"
    by (auto simp: Let_def close_tag_append close_one add.assoc elim!: goes_eq)
qed

lemma runs_first_arm:
  assumes c: "wf_expr False c" and b: "runs names (generate_stmts body) (code_stmts body)" and arms: "runs_arms names arms"
    and e: "runs names (generate_stmts els) (code_stmts els)"
  shows "runs names (generate_stmt (STMT_COND (IfCons c body arms) els)) (code_stmt (STMT_COND (IfCons c body arms) els))"
proof (rule runsI)
  fix g0 d t and ls :: "loop_ctx list" and cs :: "sym list"
  assume ls: "loop_names ls = names"
  let ?cc = "code_expr c (length cs) d None t"
  let ?cb = "code_stmts body (length cs + length ?cc + 2) d t ls"
  let ?l = "length (operands (cs @ ?cc))"
  let ?pre = "cs @ ?cc @ [op t OP_IF, fx t (FOpen (Inl ?l))] @ ?cb @ [op t OP_JUMP]"
  let ?k2 = "length cs + length ?cc + 2 + length ?cb + 2" and ?j = "length (operands ?pre)"
  let ?cs1 = "cs @ ?cc @ [op t OP_IF, fx t (FLab ?k2)] @ ?cb @ [op t OP_JUMP, fx t (FOpen (Inl ?j))]"
  let ?else = "\<lambda>k. code_stmts els k d t ls"
  show "goes g0 cs d None t ls (generate_stmt (STMT_COND (IfCons c body arms) els))
      (cs @ code_stmt (STMT_COND (IfCons c body arms) els) (length cs) d t ls) d"
  proof (rule goes_sane)
    assume s: "sane cs (length ls)"
    have cs: "FOpen (Inl ?j) \<notin> set (operands cs)" using sane_new_tag [OF s, of ?j] last_open_None by simp
    have p: "last_open (Inl ?j) (operands ?pre) = None"
      using cs by (simp add: last_open_None)
    have q: "last_open (Inl ?j) (operands ?cs1) = Some (length (operands ?pre))"
      by (simp add: last_open_append last_open_Cons)
    have r: "goes g0 ?cs1 d None t ls (generate_arms OP_EIF (Some (length (operands ?pre))) arms (generate_stmts els))
         (let ca = code_arms OP_EIF arms ?else (length ?cs1) d t ls in
          close_tag (\<lambda>g. g = Inl ?j) (length ?cs1 + length ca) ?cs1 @ ca) d"
      by (rule runs_armsD [OF arms ls _ _ q]) (use runsD [OF e ls] in auto)
    from goes_arm [OF c b ls refl refl refl refl _ _ p r] cs
    show ?thesis unfolding generate_stmt.simps
      by (auto simp: Let_def close_tag_append close_one add.assoc elim!: goes_eq)
  qed
qed

lemma goes_define_none: "goes g0 cs d sv t ls (define_label None) cs d"
  by (simp add: goes_def define_label_def)

lemma runs_no_arm:
  assumes e: "runs names (generate_stmts els) (code_stmts els)"
  shows "runs names (generate_stmt (STMT_COND IfNil els)) (code_stmt (STMT_COND IfNil els))"
  by (rule runsI, simp only: generate_stmt.simps generate_arms.simps, rule goes_eq, rule goes_step [OF runsD [OF e]], assumption,
      rule goes_last [OF goes_define_none]) simp_all

section \<open>Handlers\<close>

lemma runs_finally:
  assumes b: "runs names (generate_stmts body) (code_stmts body)" and h: "runs names (generate_stmts handler) (code_stmts handler)"
  shows "runs names (generate_stmt (STMT_TRY_FINALLY body handler)) (code_stmt (STMT_TRY_FINALLY body handler))"
proof (rule runsI)
  fix g0 d t and ls :: "loop_ctx list" and cs :: "sym list"
  assume ls: "loop_names ls = names"
  let ?cb = "code_stmts body (length cs + 3) (d + 1) (t + 1) ls"
  show "goes g0 cs d None t ls (generate_stmt (STMT_TRY_FINALLY body handler))
      (cs @ code_stmt (STMT_TRY_FINALLY body handler) (length cs) d t ls) d"
    unfolding generate_stmt.simps
    by (rule goes_eq, rule goes_step [OF goes_emit2], rule goes_last [OF goes_next], rule goes_step [OF goes_label],
        rule goes_step [OF goes_push], rule goes_step [OF goes_try [OF runsD [OF b ls]]], rule goes_step [OF goes_emit2],
        rule goes_step [OF goes_eq [OF goes_pop, where d' = d]], simp, simp, rule refl, simp,
        rule goes_step [OF goes_define_at [where cs = "cs @ eop t EOP_TRY_FINALLY" and u = t and r = "?cb @ eop t EOP_END_FINALLY"]],
        simp, simp, simp, rule goes_step [OF goes_push], rule goes_step [OF runsD [OF h ls]], rule goes_step [OF goes_emit2],
        rule goes_last [OF goes_pop], simp, simp)
      (simp_all add: Let_def add.assoc)
qed

text \<open>
  The labels of the handlers are open while the body is generated; each has a tag of its own.
\<close>

fun except_open :: "excepts \<Rightarrow> nat \<Rightarrow> nat \<Rightarrow> nat \<Rightarrow> nat \<Rightarrow> sym list" where
  "except_open ExNil n k d t = []"
| "except_open (ExCons i codes body ex) n k d t =
     (let cc = code_codes codes k d None t; n1 = n + length (operands cc) in
      cc @ eop t EOP_PUSH_LABEL @ [fx t (FOpen (Inl n1))] @ except_open ex (n1 + 1) (k + length cc + 3) (d + 2) t)"

fun except_labels :: "excepts \<Rightarrow> nat \<Rightarrow> nat \<Rightarrow> nat \<Rightarrow> nat \<Rightarrow> nat list" where
  "except_labels ExNil n k d t = []"
| "except_labels (ExCons i codes body ex) n k d t =
     (let cc = code_codes codes k d None t; n1 = n + length (operands cc) in
      n1 # except_labels ex (n1 + 1) (k + length cc + 3) (d + 2) t)"

lemma length_except_labels [simp]: "length (except_labels ex n k d t) = except_count ex"
  by (induction ex n k d t rule: except_labels.induct) (simp_all add: Let_def)

lemma length_except_open: "length (code_except_codes ex hs k d t) = length (except_open ex n k d t)"
  by (induction ex n k d t arbitrary: hs rule: except_open.induct) (simp_all add: Let_def)

lemma except_labels_bound: "l \<in> set (except_labels ex n k d t) \<Longrightarrow> n \<le> l \<and> l < n + length (operands (except_open ex n k d t))"
  by (induction ex n k d t rule: except_labels.induct) (fastforce simp: Let_def)+

lemma except_labels_distinct: "distinct (except_labels ex n k d t)"
  by (induction ex n k d t rule: except_labels.induct) (auto simp: Let_def dest: except_labels_bound)

lemma except_open_tags: "FOpen g \<in> set (operands (except_open ex n k d t)) \<Longrightarrow> \<exists>l \<in> set (except_labels ex n k d t). g = Inl l"
  by (induction ex n k d t rule: except_labels.induct) (auto simp: Let_def)

lemma except_open_label:
  "l \<in> set (except_labels ex n k d t) \<Longrightarrow> last_open (Inl l) (operands (except_open ex n k d t)) = Some (l - n)"
proof (induction ex n k d t rule: except_labels.induct)
  case (2 i codes body ex n k d t)
  let ?cc = "code_codes codes k d None t" let ?n1 = "n + length (operands ?cc)"
  let ?o = "operands (except_open ex (?n1 + 1) (k + length ?cc + 3) (d + 2) t)"
  have e: "operands (except_open (ExCons i codes body ex) n k d t) = operands ?cc @ FOpen (Inl ?n1) # ?o" by (simp add: Let_def)
  show ?case
  proof (cases "l = ?n1")
    case True
    then have "FOpen (Inl l) \<notin> set ?o" using except_open_tags except_labels_bound by fastforce
    then have "last_open (Inl l) ?o = None" by (simp add: last_open_None)
    then show ?thesis using True unfolding e by (simp add: last_open_append last_open_Cons)
  next
    case False
    then have l: "l \<in> set (except_labels ex (?n1 + 1) (k + length ?cc + 3) (d + 2) t)" using "2.prems" by (simp add: Let_def)
    from "2.IH" [OF refl refl l] have "last_open (Inl l) ?o = Some (l - (?n1 + 1))" .
    moreover have "?n1 < l" using except_labels_bound [OF l] by simp
    ultimately show ?thesis unfolding e by (auto simp: last_open_append last_open_Cons)
  qed
qed simp

fun close_all :: "nat list \<Rightarrow> nat list \<Rightarrow> sym list \<Rightarrow> sym list" where
  "close_all (l # labels) (h # hs) cs = close_all labels hs (close_tag (\<lambda>g. g = Inl l) h cs)"
| "close_all _ _ cs = cs"

lemma close_all_append: "close_all labels hs (a @ b) = close_all labels hs a @ close_all labels hs b"
  by (induction labels hs a arbitrary: b rule: close_all.induct) (simp_all add: close_tag_append)

lemma close_all_four:
  "close_all labels hs (a @ b @ c @ e) = close_all labels hs a @ close_all labels hs b @ close_all labels hs c @ close_all labels hs e"
  by (simp add: close_all_append)

lemma close_all_none: "\<forall>l \<in> set labels. FOpen (Inl l) \<notin> set (operands cs) \<Longrightarrow> close_all labels hs cs = cs"
  by (induction labels hs cs rule: close_all.induct) (simp_all add: close_one)

lemma length_close_all [simp]: "length (close_all labels hs cs) = length cs"
  by (induction labels hs cs rule: close_all.induct) simp_all

lemma except_closed:
  "length hs = except_count ex \<Longrightarrow> close_all (except_labels ex n k d t) hs (except_open ex n k d t) = code_except_codes ex hs k d t"
proof (induction ex n k d t arbitrary: hs rule: except_labels.induct)
  case (2 i codes body ex n k d t)
  let ?cc = "code_codes codes k d None t" let ?n1 = "n + length (operands ?cc)"
  let ?o = "except_open ex (?n1 + 1) (k + length ?cc + 3) (d + 2) t" and ?l = "except_labels ex (?n1 + 1) (k + length ?cc + 3) (d + 2) t"
  obtain h hs1 where h: "hs = h # hs1" "length hs1 = except_count ex" using "2.prems" by (cases hs) auto
  have f: "FOpen (Inl ?n1) \<notin> set (operands ?o)" using except_open_tags except_labels_bound by fastforce
  have "close_all ?l hs1 (?cc @ eop t EOP_PUSH_LABEL @ [fx t (FLab h)] @ ?o) = ?cc @ eop t EOP_PUSH_LABEL @ [fx t (FLab h)] @ close_all ?l hs1 ?o"
    by (subst append_assoc [symmetric], subst append_assoc [symmetric], subst close_all_append, simp add: close_all_none)
  then show ?case using h "2.IH" [OF refl refl h(2)] f by (simp add: Let_def close_tag_append close_one)
qed simp

lemma goes_except_codes:
  assumes "wf_codes ex"
    and "goes g0 (cs @ except_open ex (length (operands cs)) (length cs) d t) (d + 2 * except_count ex) None t ls
      (f (labels @ except_labels ex (length (operands cs)) (length cs) d t)) cs2 d2"
  shows "goes g0 cs d None t ls (except_codes ex labels f) cs2 d2"
  using assms
proof (induction ex arbitrary: cs d labels rule: except_count.induct)
  case 1
  then show ?case by simp
next
  case (2 i codes body ex)
  let ?cc = "code_codes codes (length cs) d None t"
  let ?cs = "cs @ ?cc @ eop t EOP_PUSH_LABEL @ [fx t (FOpen (Inl (length (operands (cs @ ?cc)))))]"
  have wf: "wf_args False codes" "wf_codes ex" using "2.prems"(1) by auto
  have "goes g0 (?cs @ except_open ex (length (operands ?cs)) (length ?cs) (d + 2) t) (d + 2 + 2 * except_count ex) None t ls
      (f ((labels @ [length (operands (cs @ ?cc))]) @ except_labels ex (length (operands ?cs)) (length ?cs) (d + 2) t)) cs2 d2"
    using "2.prems"(2) by (simp add: Let_def add.assoc)
  from "2.IH" [OF wf(2) this]
  have IH: "goes g0 ?cs (d + 2) None t ls (except_codes ex (labels @ [length (operands (cs @ ?cc))]) f) cs2 d2" .
  have n: "length (operands ((cs @ ?cc) @ eop t EOP_PUSH_LABEL)) = length (operands (cs @ ?cc))" by simp
  have push: "goes g0 ((cs @ ?cc) @ eop t EOP_PUSH_LABEL) (d + 1) None t ls (steps [add_label, push_stack 1]) ?cs (d + 2)"
    by (rule goes_eq, rule goes_step [OF goes_label], rule goes_last [OF goes_push]) simp_all
  show ?case unfolding except_codes.simps
    by (rule goes_step [OF goes_codes [OF wf(1)]], rule goes_step [OF goes_emit2], rule goes_last [OF goes_next], unfold n,
        rule goes_two [OF push], rule goes_last [OF IH])
qed

text \<open>
  The handlers define their labels as they come; the jumps to the end are a chain.
\<close>

definition runs_handlers :: "(nat option \<times> nat option) list \<Rightarrow> excepts \<Rightarrow> bool" where
  "runs_handlers names ex \<longleftrightarrow> (\<forall>g0 cs d t ls labels j end_label.
     loop_names ls = names \<longrightarrow> length labels = except_count ex \<longrightarrow> distinct labels \<longrightarrow> j \<notin> set labels \<longrightarrow>
     (\<forall>l \<in> set labels. last_open (Inl l) (operands cs) = Some l) \<longrightarrow>
     last_open (Inl j) (operands cs) = Some end_label \<longrightarrow> j < length (operands cs) \<longrightarrow>
     goes g0 cs d None t ls (generate_handlers ex labels end_label)
       (let hs = fst (code_handlers ex (length cs) d t ls); ch = snd (code_handlers ex (length cs) d t ls) in
        close_tag (\<lambda>g. g = Inl j) (length cs + length ch) (close_all labels hs cs) @ ch) d)"

lemma runs_handlersD:
  "runs_handlers names ex \<Longrightarrow> loop_names ls = names \<Longrightarrow> length labels = except_count ex \<Longrightarrow> distinct labels \<Longrightarrow> j \<notin> set labels \<Longrightarrow>
     (\<And>l. l \<in> set labels \<Longrightarrow> last_open (Inl l) (operands cs) = Some l) \<Longrightarrow>
     last_open (Inl j) (operands cs) = Some end_label \<Longrightarrow> j < length (operands cs) \<Longrightarrow>
     goes g0 cs d None t ls (generate_handlers ex labels end_label)
       (let hs = fst (code_handlers ex (length cs) d t ls); ch = snd (code_handlers ex (length cs) d t ls) in
        close_tag (\<lambda>g. g = Inl j) (length cs + length ch) (close_all labels hs cs) @ ch) d"
  unfolding runs_handlers_def by blast

lemma runs_no_handlers: "runs_handlers names ExNil"
  unfolding runs_handlers_def
  by (auto simp: generate_handlers.simps Let_def intro!: goes_eq [OF goes_define])

lemma last_open_close:
  "h \<noteq> g \<Longrightarrow> last_open h (operands (close_tag (\<lambda>y. y = g) k cs)) = last_open h (operands cs)"
  by (simp add: close_tag_operands last_open_closing)

lemma goes_append:
  "goes g0 cs d sv t ls (steps Gs) cs1 d1 \<Longrightarrow> goes g0 cs1 d1 sv t ls (steps Hs) cs2 d2 \<Longrightarrow> goes g0 cs d sv t ls (steps (Gs @ Hs)) cs2 d2"
proof -
  have "steps Gs s = Some s1 \<Longrightarrow> steps (Gs @ Hs) s = steps Hs s1" for s s1 :: state
    by (induction Gs arbitrary: s) (auto split: option.splits)
  then show "goes g0 cs d sv t ls (steps Gs) cs1 d1 \<Longrightarrow> goes g0 cs1 d1 sv t ls (steps Hs) cs2 d2 \<Longrightarrow> ?thesis"
    unfolding goes_def by metis
qed

lemma runs_handler:
  assumes b: "runs names (generate_stmts body) (code_stmts body)" and ex: "runs_handlers names ex"
  shows "runs_handlers names (ExCons i codes body ex)"
  unfolding runs_handlers_def
proof (intro allI impI)
  fix g0 d t j end_label and ls :: "loop_ctx list" and cs :: "sym list" and labels :: "nat list"
  assume ls: "loop_names ls = names" and n: "length labels = except_count (ExCons i codes body ex)" and ds: "distinct labels"
    and j: "j \<notin> set labels" "last_open (Inl j) (operands cs) = Some end_label" "j < length (operands cs)"
    and lab: "\<forall>l \<in> set labels. last_open (Inl l) (operands cs) = Some l"
  obtain l labels1 where l: "labels = l # labels1" "length labels1 = except_count ex" using n by (cases labels) auto
  let ?cs = "close_tag (\<lambda>g. g = Inl l) (length cs) cs"
  let ?c1 = "(case i of Some v \<Rightarrow> var_op t OP_PUT v | None \<Rightarrow> []) @ [op t OP_POP]"
  let ?cb = "code_stmts body (length cs + length ?c1) d t ls"
  have put: "goes g0 ks (d + 1) None t ls (case i of Some v \<Rightarrow> emit_var_op OP_PUT v | None \<Rightarrow> steps [])
      (ks @ (case i of Some v \<Rightarrow> var_op t OP_PUT v | None \<Rightarrow> [])) (d + 1)" for ks
    using goes_var_op goes_nil [of g0 ks "d + 1" None t ls] by (cases i) auto
  have first: "goes g0 cs d None t ls (steps [define_label (Some l), push_stack 1, case i of Some v \<Rightarrow> emit_var_op OP_PUT v | None \<Rightarrow> steps [],
             emit_byte OP_POP, pop_stack 1, generate_stmts body]) (?cs @ ?c1 @ ?cb) d"
    by (rule goes_eq, rule goes_step [OF goes_define [where j = l, OF refl]], use lab l in simp, rule goes_step [OF goes_push], rule goes_step [OF put],
        rule goes_step [OF goes_emit], rule goes_step [OF goes_eq [OF goes_pop, where d' = d]], simp, simp, rule refl, simp,
        rule goes_last [OF runsD [OF b ls]]) (simp_all add: add.assoc)
  have o: "FOpen (Inl m) \<notin> set (operands (?c1 @ ?cb))" for m by (simp split: option.split)
  have jl: "j \<noteq> l" "j \<notin> set labels1" using j l by auto
  let ?G = "[define_label (Some l), push_stack 1, case i of Some v \<Rightarrow> emit_var_op OP_PUT v | None \<Rightarrow> steps [],
             emit_byte OP_POP, pop_stack 1, generate_stmts body]"
  have e1: "last_open (Inl m) (operands (?cs @ ?c1 @ ?cb)) = last_open (Inl m) (operands cs)" if "m \<noteq> l" for m
  proof -
    have "last_open (Inl m) (operands (?cs @ ?c1 @ ?cb)) = last_open (Inl m) (operands ?cs)"
      unfolding operands_append [of ?cs] by (rule last_open_keep [OF o])
    then show ?thesis using that by (simp add: last_open_close)
  qed
  let ?R = "\<lambda>c2. goes g0 cs d None t ls (generate_handlers (ExCons i codes body ex) labels end_label) c2 d"
  show "?R (let hs = fst (code_handlers (ExCons i codes body ex) (length cs) d t ls);
            ch = snd (code_handlers (ExCons i codes body ex) (length cs) d t ls) in
        close_tag (\<lambda>g. g = Inl j) (length cs + length ch) (close_all labels hs cs) @ ch)"
  proof (cases "ex = ExNil")
    case True
    have "last_open (Inl j) (operands (?cs @ ?c1 @ ?cb)) = Some end_label" using e1 [OF jl(1)] j(2) by simp
    from goes_append [OF first goes_last [OF goes_define [OF refl this]]]
    have "?R (close_tag (\<lambda>y. y = Inl j) (length (?cs @ ?c1 @ ?cb)) (?cs @ ?c1 @ ?cb))"
      using True l by simp
    then show ?thesis
      by (rule goes_eq) (use True l o in \<open>simp_all add: Let_def close_tag_append close_one add.assoc split: option.split\<close>)
  next
    case False
    let ?pre = "?cs @ ?c1 @ ?cb @ [op t OP_JUMP]" let ?cs3 = "?pre @ [fx t (FOpen (Inl j))]"
    let ?hs = "fst (code_handlers ex (length ?cs3) d t ls)" and ?ch = "snd (code_handlers ex (length ?cs3) d t ls)"
    have m: "last_open (Inl m) (operands ?pre) = last_open (Inl m) (operands (?cs @ ?c1 @ ?cb))" for m by simp
    have jump: "goes g0 (?cs @ ?c1 @ ?cb) d None t ls (emit_byte OP_JUMP) ?pre d"
      by (rule goes_eq [OF goes_emit]) simp_all
    have link: "goes g0 ?pre d None t ls (add_linked_label (Some end_label)) ?cs3 d"
      by (rule goes_linked_label [OF refl]) (use j m [of j] e1 [OF jl(1)] in \<open>auto simp: close_tag_operands\<close>)
    have three: "last_open (Inl j) (operands ?cs3) = Some (length (operands ?pre))" by (simp add: last_open_append last_open_Cons)
    have "last_open (Inl m) (operands ?cs3) = Some m" if mm: "m \<in> set labels1" for m
    proof -
      have ne: "m \<noteq> l" "m \<noteq> j" using mm l ds j by auto
      have "last_open (Inl m) (operands ?cs3) = last_open (Inl m) (operands ?pre)"
        unfolding operands_append [of ?pre] by (rule last_open_keep) (use ne in simp)
      also have "\<dots> = last_open (Inl m) (operands cs)" unfolding m by (rule e1 [OF ne(1)])
      finally show ?thesis using lab l mm by simp
    qed
    then have rest: "goes g0 ?cs3 d None t ls (generate_handlers ex labels1 (length (operands ?pre)))
       (let hs = ?hs; ch = ?ch in close_tag (\<lambda>g. g = Inl j) (length ?cs3 + length ch) (close_all labels1 hs ?cs3) @ ch) d"
      by (intro runs_handlersD [OF ex ls l(2) _ jl(2) _ three]) (use ds l j(3) in \<open>simp_all add: close_tag_operands\<close>)
    have "goes g0 (?cs @ ?c1 @ ?cb) d None t ls (steps [steps [emit_byte OP_JUMP, next_label (\<lambda>new_end. steps
                 [add_linked_label (Some end_label), generate_handlers ex labels1 new_end])]])
       (let hs = ?hs; ch = ?ch in close_tag (\<lambda>g. g = Inl j) (length ?cs3 + length ch) (close_all labels1 hs ?cs3) @ ch) d"
      by (rule goes_last, rule goes_step [OF jump], rule goes_last [OF goes_next],
          rule goes_step [OF link], rule goes_last [OF rest])
    from goes_append [OF first this]
    have "?R (let hs = ?hs; ch = ?ch in close_tag (\<lambda>g. g = Inl j) (length ?cs3 + length ch) (close_all labels1 hs ?cs3) @ ch)"
      using False l by simp
    moreover have "close_all labels1 ?hs ?cs3 = close_all labels1 ?hs ?cs @ ?c1 @ ?cb @ [op t OP_JUMP, fx t (FOpen (Inl j))]"
    proof -
      have "close_all labels1 ?hs (?c1 @ ?cb @ [op t OP_JUMP, fx t (FOpen (Inl j))]) = ?c1 @ ?cb @ [op t OP_JUMP, fx t (FOpen (Inl j))]"
        by (rule close_all_none) (use o jl in auto)
      then show ?thesis using close_all_append [of labels1 ?hs ?cs "?c1 @ ?cb @ [op t OP_JUMP, fx t (FOpen (Inl j))]"] by simp
    qed
    moreover have "close_tag (\<lambda>g. g = Inl j) k (?c1 @ ?cb) = ?c1 @ ?cb" for k by (rule close_one [OF o])
    ultimately show ?thesis
      by (elim goes_eq) (use False l in \<open>simp_all add: Let_def case_prod_beta close_tag_append add.assoc\<close>)
  qed
qed

lemma length_handlers: "length (fst (code_handlers ex k d t ls)) = except_count ex"
proof (induction ex arbitrary: k rule: except_count.induct)
  case (2 i codes body ex)
  then show ?case by (auto simp: Let_def case_prod_beta)
qed simp

lemma runs_except:
  assumes b: "runs names (generate_stmts body) (code_stmts body)" and wf: "wf_codes ex" and ex: "runs_handlers names ex"
  shows "runs names (generate_stmt (STMT_TRY_EXCEPT body ex)) (code_stmt (STMT_TRY_EXCEPT body ex))"
proof (rule runsI)
  fix g0 d t and ls :: "loop_ctx list" and cs :: "sym list"
  assume ls: "loop_names ls = names"
  let ?n = "except_count ex"
  let ?O = "except_open ex (length (operands cs)) (length cs) d t" and ?L = "except_labels ex (length (operands cs)) (length cs) d t"
  let ?k1 = "length cs + length ?O + 3"
  let ?cb = "code_stmts body ?k1 (d + 2 * ?n + 1) (t + 1) ls"
  let ?b = "eop t EOP_TRY_EXCEPT @ [op t ?n] @ ?cb @ eop t EOP_END_EXCEPT"
  let ?pre = "cs @ ?O @ ?b" and ?j = "length (operands (cs @ ?O @ ?b))" let ?cs1 = "?pre @ [fx t (FOpen (Inl ?j))]"
  let ?hs = "fst (code_handlers ex (length ?cs1) d t ls)" and ?ch = "snd (code_handlers ex (length ?cs1) d t ls)"
  have bd: "length (operands cs) \<le> l \<and> l < length (operands cs) + length (operands ?O)" if "l \<in> set ?L" for l
    using except_labels_bound [OF that] .
  have o: "FOpen (Inl m) \<notin> set (operands ?b)" for m by simp
  have jL: "?j \<notin> set ?L" using bd by fastforce
  have h: "goes g0 ?cs1 d None t ls (generate_handlers ex ?L ?j)
      (let hs = ?hs; ch = ?ch in close_tag (\<lambda>g. g = Inl ?j) (length ?cs1 + length ch) (close_all ?L hs ?cs1) @ ch) d"
  proof (rule runs_handlersD [OF ex ls _ except_labels_distinct jL])
    fix l assume l: "l \<in> set ?L"
    have "last_open (Inl l) (operands ?cs1) = last_open (Inl l) (operands cs @ operands ?O)"
    proof -
      have "operands ?cs1 = (operands cs @ operands ?O) @ (operands ?b @ [FOpen (Inl ?j)])" by simp
      moreover have "FOpen (Inl l) \<notin> set (operands ?b @ [FOpen (Inl ?j)])" using l jL o by auto
      ultimately show ?thesis using last_open_keep by metis
    qed
    then show "last_open (Inl l) (operands ?cs1) = Some l"
      using except_open_label [OF l] bd [OF l] by (simp add: last_open_append)
  qed (simp_all add: last_open_append last_open_Cons)
  have body: "goes g0 (cs @ ?O) (d + 2 * ?n) None t ls (steps [emit_extended_byte EOP_TRY_EXCEPT, emit_byte ?n, push_stack 1,
        in_try (generate_stmts body), emit_extended_byte EOP_END_EXCEPT]) ?pre (d + 2 * ?n + 1)"
    by (rule goes_eq, rule goes_step [OF goes_emit2], rule goes_step [OF goes_emit], rule goes_step [OF goes_push],
        rule goes_step [OF goes_try [OF runsD [OF b ls]]], rule goes_last [OF goes_emit2]) (simp_all add: add.assoc)
  have pop: "goes g0 ?cs1 (d + 2 * ?n + 1) None t ls (pop_stack (2 * ?n + 1)) ?cs1 d"
    by (rule goes_eq [OF goes_pop]) simp_all
  have all: "goes g0 (cs @ ?O) (d + 2 * ?n) None t ls (steps ([emit_extended_byte EOP_TRY_EXCEPT, emit_byte ?n, push_stack 1,
        in_try (generate_stmts body), emit_extended_byte EOP_END_EXCEPT] @ [next_label (\<lambda>end_label. steps
          [add_label, pop_stack (2 * ?n + 1), generate_handlers ex ?L end_label])]))
      (let hs = ?hs; ch = ?ch in close_tag (\<lambda>g. g = Inl ?j) (length ?cs1 + length ch) (close_all ?L hs ?cs1) @ ch) d"
    by (rule goes_append [OF body], rule goes_last [OF goes_next], rule goes_step [OF goes_label], rule goes_step [OF pop], rule goes_last [OF h])
  show "goes g0 cs d None t ls (generate_stmt (STMT_TRY_EXCEPT body ex))
      (cs @ code_stmt (STMT_TRY_EXCEPT body ex) (length cs) d t ls) d"
  proof (rule goes_sane)
    assume s: "sane cs (length ls)"
    have cs: "FOpen (Inl m) \<notin> set (operands cs)" if "length (operands cs) \<le> m" for m
      using sane_new_tag [OF s that] last_open_None by blast
    have len: "length (code_except_codes ex hs (length cs) d t) = length ?O" for hs by (rule length_except_open)
    have hs: "length ?hs = ?n" by (rule length_handlers)
    have c1: "close_all ?L ?hs cs = cs" by (rule close_all_none) (use cs bd in blast)
    have c2: "close_all ?L ?hs ?O = code_except_codes ex ?hs (length cs) d t" by (rule except_closed [OF hs])
    have c3: "close_all ?L ?hs ?b = ?b" by (rule close_all_none) (use o in blast)
    have c4: "close_all ?L ?hs [fx t (FOpen (Inl ?j))] = [fx t (FOpen (Inl ?j))]" by (rule close_all_none) (use jL in auto)
    have c: "close_all ?L ?hs ?cs1 = cs @ code_except_codes ex ?hs (length cs) d t @ ?b @ [fx t (FOpen (Inl ?j))]"
      using close_all_four [of ?L ?hs cs ?O ?b "[fx t (FOpen (Inl ?j))]", unfolded c1 c2 c3 c4] by simp
    have t1: "close_tag (\<lambda>g. g = Inl ?j) k (cs @ code_except_codes ex ?hs (length cs) d t @ ?b @ [fx t (FOpen (Inl ?j))]) =
        cs @ code_except_codes ex ?hs (length cs) d t @ ?b @ [fx t (FLab k)]" for k
    proof -
      have "FOpen (Inl ?j) \<notin> set (operands (cs @ code_except_codes ex ?hs (length cs) d t @ ?b))"
        using cs [of ?j] o open_below_tag [OF open_below_except] by simp
      from close_front [OF this, of k "[fx t (FOpen (Inl ?j))]"] show ?thesis by simp
    qed
    have k2: "length ?cs1 = ?k1 + length ?cb + 3" by simp
    have r: "(let hs = ?hs; ch = ?ch in close_tag (\<lambda>g. g = Inl ?j) (length ?cs1 + length ch) (close_all ?L hs ?cs1) @ ch) =
        cs @ code_stmt (STMT_TRY_EXCEPT body ex) (length cs) d t ls"
      unfolding Let_def c unfolding t1 unfolding k2 code_stmt.simps Let_def len case_prod_beta by (simp only: append_assoc append.simps)
    show ?thesis unfolding generate_stmt.simps
      by (rule goes_except_codes [OF wf], unfold append_Nil, rule all [unfolded r, unfolded append_Cons append_Nil])
  qed
qed

section \<open>Every statement\<close>

declare generate_stmt.simps [simp del] generate_stmts.simps [simp del] generate_arms.simps [simp del]
  generate_handlers.simps [simp del] code_stmt.simps [simp del] code_stmts.simps [simp del]
  code_arms.simps [simp del] code_handlers.simps [simp del]

theorem runs_all:
  "\<forall>names. wf_stmt names st \<longrightarrow> runs names (generate_stmt st) (code_stmt st)"
  "\<forall>names. wf_stmts names sts \<longrightarrow> runs names (generate_stmts sts) (code_stmts sts)"
  "\<forall>names. wf_arms names arms \<longrightarrow> runs_arms names arms \<and>
     (\<forall>els. runs names (generate_stmts els) (code_stmts els) \<longrightarrow> runs names (generate_stmt (STMT_COND arms els)) (code_stmt (STMT_COND arms els)))"
  "\<forall>names. wf_handlers names ex \<longrightarrow> runs_handlers names ex"
proof (induction st and sts and arms and ex)
  case (IfCons c body arms)
  then show ?case using runs_arm runs_first_arm by auto
qed (auto intro: runs_list runs_range runs_while runs_fork runs_expr runs_return runs_except runs_finally runs_exit runs_nil runs_cons
  runs_no_arms runs_no_arm runs_no_handlers runs_handler)

end
