(* ===== verification/CodeVector.thy ===== *)
theory CodeVector
  imports CodeStmts
begin

text \<open>
  The byte vector of a program: the sequence with each operand in the width chosen for its
  kind, and each label turned into the position of its target.
\<close>

section \<open>Vectors\<close>

definition op_width :: "bytecodes \<Rightarrow> operand_sym \<Rightarrow> nat" where
  "op_width bc x =
     (case x of
        FLit v \<Rightarrow> numbytes_literal bc
      | FFork b \<Rightarrow> numbytes_fork bc
      | FVar i \<Rightarrow> numbytes_var_name bc
      | FStk i \<Rightarrow> numbytes_stack bc
      | _ \<Rightarrow> numbytes_label bc)"

fun sym_width :: "bytecodes \<Rightarrow> sym \<Rightarrow> nat" where
  "sym_width bc (SByte m t b) = 1"
| "sym_width bc (SFix t x) = op_width bc x"

text \<open>Where the code of a sequence after its first \<open>l\<close> symbols starts.\<close>

definition position :: "bytecodes \<Rightarrow> sym list \<Rightarrow> nat \<Rightarrow> nat" where
  "position bc cs l = sum_list (map (sym_width bc) (take l cs))"

text \<open>The bytes and operands of a sequence put together.\<close>

fun assemble :: "bytecodes \<Rightarrow> sym list \<Rightarrow> nat list \<Rightarrow> nat list \<Rightarrow> nat list" where
  "assemble bc (SByte m t b # cs) (b1 # bs) ns = b1 # assemble bc cs bs ns"
| "assemble bc (SFix t x # cs) (b1 # bs) (n # ns) = operand (op_width bc x) n @ assemble bc cs bs ns"
| "assemble bc _ _ _ = []"

text \<open>A push of a variable may also clear it.\<close>

definition kept :: "sym \<Rightarrow> nat \<Rightarrow> bool" where
  "kept x b \<longleftrightarrow> b = sym_byte x \<or> sym_mark x = OP_PUSH \<and> b = sym_byte x + (OP_PUSH_CLEAR - OP_PUSH)"

definition encodes :: "gstate \<Rightarrow> bytecodes \<Rightarrow> sym list \<Rightarrow> operand_sym \<Rightarrow> nat \<Rightarrow> bool" where
  "encodes G bc cs x n \<longleftrightarrow>
     (case x of
        FLit v \<Rightarrow> n < length (g_literals G) \<and> same_literal v (g_literals G ! n)
      | FFork body \<Rightarrow> n < length (g_fork_vectors G) \<and> made_from G body (g_fork_vectors G ! n)
      | FVar i \<Rightarrow> n = i
      | FStk i \<Rightarrow> n = i
      | FPseudo i \<Rightarrow> n = i
      | FLab l \<Rightarrow> l < length cs \<and> n = position bc cs l
      | FOpen g \<Rightarrow> False)"

section \<open>Expanding\<close>

lemma expand_assemble:
  assumes "map f_pc fs = map fst (fixes_from k cs)" "length bs = length cs"
    and "\<And>f x. (f, x) \<in> set (zip fs (operands cs)) \<Longrightarrow> fixup_size bc f = op_width bc x"
  shows "expand bc fs k bs = assemble bc cs bs (map (fixup_value bc) fs)"
  using assms
proof (induction cs arbitrary: fs k bs)
  case (Cons c cs)
  obtain b bs1 where bs: "bs = b # bs1" "length bs1 = length cs" using Cons.prems(2) by (cases bs) auto
  show ?case
  proof (cases c)
    case (SByte m t y)
    have later: "\<forall>p \<in> set (map f_pc fs). Suc k \<le> p" using Cons.prems(1) SByte fixes_from_bound [of _ _ "Suc k" cs] by auto
    have IH: "expand bc fs (Suc k) bs1 = assemble bc cs bs1 (map (fixup_value bc) fs)"
      by (rule Cons.IH) (use Cons.prems SByte bs in auto)
    show ?thesis
    proof (cases fs)
      case (Cons f fs1)
      then have "f_pc f \<noteq> k" using later by auto
      then show ?thesis using IH SByte bs Cons by simp
    qed (use IH SByte bs in simp)
  next
    case (SFix t x)
    obtain f fs1 where fs: "fs = f # fs1" "f_pc f = k" "map f_pc fs1 = map fst (fixes_from (Suc k) cs)"
      using Cons.prems(1) SFix by (cases fs) auto
    have "expand bc fs1 (Suc k) bs1 = assemble bc cs bs1 (map (fixup_value bc) fs1)"
      by (rule Cons.IH) (use Cons.prems(3) SFix bs fs in auto)
    moreover have "fixup_size bc f = op_width bc x" using Cons.prems(3) [of f x] SFix fs by simp
    ultimately show ?thesis using SFix bs fs by simp
  qed
qed simp

lemma kind_simps [simp]:
  "is_lit (FLit v)" "\<not> is_lit (FFork b)" "\<not> is_lit (FVar i)" "\<not> is_lit (FStk i)" "\<not> is_lit (FPseudo i)" "\<not> is_lit (FLab i)" "\<not> is_lit (FOpen g)"
  "\<not> is_fork (FLit v)" "is_fork (FFork b)" "\<not> is_fork (FVar i)" "\<not> is_fork (FStk i)" "\<not> is_fork (FPseudo i)" "\<not> is_fork (FLab i)" "\<not> is_fork (FOpen g)"
  "\<not> is_var (FLit v)" "\<not> is_var (FFork b)" "is_var (FVar i)" "\<not> is_var (FStk i)" "\<not> is_var (FPseudo i)" "\<not> is_var (FLab i)" "\<not> is_var (FOpen g)"
  "\<not> is_stk (FLit v)" "\<not> is_stk (FFork b)" "\<not> is_stk (FVar i)" "is_stk (FStk i)" "\<not> is_stk (FPseudo i)" "\<not> is_stk (FLab i)" "\<not> is_stk (FOpen g)"
  "\<not> is_lab (FLit v)" "\<not> is_lab (FFork b)" "\<not> is_lab (FVar i)" "\<not> is_lab (FStk i)" "is_lab (FPseudo i)" "is_lab (FLab i)" "is_lab (FOpen g)"
  by (simp_all add: is_operand_defs)

lemma position_sum:
  assumes "numbytes_literal bc = Suc a" "numbytes_fork bc = Suc b" "numbytes_var_name bc = Suc c" "numbytes_label bc = Suc e" "numbytes_stack bc = Suc f"
  shows "sum_list (map (sym_width bc) cs) = length cs + count_ops is_lit cs * a +
    count_ops is_fork cs * b + count_ops is_var cs * c + count_ops is_lab cs * e + count_ops is_stk cs * f"
proof (induction cs)
  case (Cons x cs)
  show ?case
  proof (cases x)
    case (SFix t y)
    then show ?thesis using Cons assms by (cases y) (simp_all add: op_width_def)
  qed (use Cons in simp)
qed simp

section \<open>Jumps land\<close>

lemma operand_length: "w \<in> {1, 2, 4} \<Longrightarrow> length (operand w n) = w"
  by (auto simp: operand_def)

lemma assemble_drop:
  assumes "list_all2 P cs bs" "list_all2 Q (operands cs) ns" "\<And>x. op_width bc x \<in> {1, 2, 4}" "l \<le> length cs"
  shows "drop (position bc cs l) (assemble bc cs bs ns) = assemble bc (drop l cs) (drop l bs) (drop (length (operands (take l cs))) ns)"
  using assms(1,2,4)
proof (induction cs arbitrary: bs ns l)
  case (Cons x cs)
  obtain b bs1 where bs: "bs = b # bs1" "list_all2 P cs bs1" using Cons.prems(1) by (cases bs) auto
  show ?case
  proof (cases l)
    case 0
    then show ?thesis by (simp add: position_def)
  next
    case (Suc m)
    then have m: "m \<le> length cs" using Cons.prems(3) by simp
    show ?thesis
    proof (cases x)
      case (SByte mk t y)
      then show ?thesis using Cons.IH [OF bs(2) _ m] Cons.prems(2) Suc bs by (simp add: position_def)
    next
      case (SFix t y)
      then obtain n ns1 where ns: "ns = n # ns1" "list_all2 Q (operands cs) ns1" using Cons.prems(2) by (cases ns) auto
      show ?thesis using Cons.IH [OF bs(2) ns(2) m] Suc bs ns SFix operand_length [OF assms(3)] by (simp add: position_def)
    qed
  qed
qed simp

lemma assemble_length:
  assumes "list_all2 P cs bs" "list_all2 Q (operands cs) ns" "\<And>x. op_width bc x \<in> {1, 2, 4}"
  shows "length (assemble bc cs bs ns) = sum_list (map (sym_width bc) cs)"
  using assms(1,2)
proof (induction cs arbitrary: bs ns)
  case (Cons x cs)
  obtain b bs1 where bs: "bs = b # bs1" "list_all2 P cs bs1" using Cons.prems(1) by (cases bs) auto
  show ?case
  proof (cases x)
    case (SByte mk t y)
    then show ?thesis using Cons.IH [OF bs(2)] Cons.prems(2) bs by simp
  next
    case (SFix t y)
    then obtain n ns1 where ns: "ns = n # ns1" "list_all2 Q (operands cs) ns1" using Cons.prems(2) by (cases ns) auto
    show ?thesis using Cons.IH [OF bs(2) ns(2)] bs ns SFix operand_length [OF assms(3)] by simp
  qed
qed simp

section \<open>Last uses\<close>

text \<open>Clearing pushes keeps the rest.\<close>

lemma reduce_block_kept:
  "list_all2 (\<lambda>(p, t, b) b1. b1 = b \<or> p = OP_PUSH \<and> b1 = b + (OP_PUSH_CLEAR - OP_PUSH)) xs (snd (reduce_block xs))"
proof (induction xs rule: reduce_block.induct)
  case (2 p t b xs)
  then show ?case by (auto simp: reduce_byte_def Let_def split: prod.split)
qed simp

lemma reduce_blocks_kept:
  assumes "sorted (i # bs)" "last (i # bs) = i + length xs"
  shows "list_all2 (\<lambda>(p, t, b) b1. b1 = b \<or> p = OP_PUSH \<and> b1 = b + (OP_PUSH_CLEAR - OP_PUSH)) xs (reduce_blocks (i # bs) xs)"
  using assms
proof (induction bs arbitrary: i xs)
  case (Cons j bs)
  let ?P = "\<lambda>(p, t, b) b1. b1 = b \<or> p = OP_PUSH \<and> b1 = b + (OP_PUSH_CLEAR - OP_PUSH)"
  have j: "i \<le> j" "sorted (j # bs)" "j \<le> last (j # bs)" using Cons.prems(1) by (auto simp: last_in_set)
  have "list_all2 ?P (drop (j - i) xs) (reduce_blocks (j # bs) (drop (j - i) xs))"
    by (rule Cons.IH) (use j Cons.prems(2) in auto)
  then have "list_all2 ?P (take (j - i) xs @ drop (j - i) xs) (snd (reduce_block (take (j - i) xs)) @ reduce_blocks (j # bs) (drop (j - i) xs))"
    by (intro list_all2_appendI reduce_block_kept)
  then show ?case by simp
qed simp

lemma sorted_last: "sorted xs \<Longrightarrow> (m :: nat) \<in> set xs \<Longrightarrow> \<forall>x \<in> set xs. x \<le> m \<Longrightarrow> last xs = m"
  by (induction xs) (auto simp: last_in_set intro: antisym)

lemma sort_last: "\<forall>x \<in> set xs. x \<le> (m :: nat) \<Longrightarrow> last (sort (m # xs)) = m"
  by (rule sorted_last) (simp_all del: sort_key_simps)

lemma sort_zero: "sort ((0 :: nat) # xs) = 0 # sort xs"
proof -
  have "insort 0 ys = 0 # ys" for ys :: "nat list" by (cases ys) simp_all
  then show ?thesis by simp
qed

lemma reduce_refs_kept:
  assumes p: "place g0 cs d sv t ls s"
  shows "list_all2 kept cs (reduce_refs s)"
proof -
  let ?L = "length (bytes s) # map f_pc (filter (\<lambda>f. f_kind f = FIXUP_LABEL \<or> f_kind f = FIXUP_FORK) (fixups s))"
  let ?xs = "zip (pushmap s) (zip (trymap s) (bytes s))"
  have len: "length (bytes s) = length cs" and pcs: "map f_pc (fixups s) = map fst (fixes_of cs)" using p by (auto simp: place_def)
  have "f_pc f < length cs" if "f \<in> set (fixups s)" for f
  proof -
    have "f_pc f \<in> set (map fst (fixes_of cs))" using that pcs [symmetric] by auto
    then show ?thesis using fixes_from_bound [of _ _ 0 cs] by (auto simp: fixes_of_def)
  qed
  then have "last (sort ?L) = length cs" unfolding len by (intro sort_last) (auto intro: less_imp_le)
  moreover have "sort ?L \<noteq> []" by (metis list.distinct(1) set_empty set_sort)
  ultimately have "last (0 # sort ?L) = 0 + length ?xs" using p len by (simp add: place_def del: sort_key_simps)
  from reduce_blocks_kept [OF _ this]
  have "list_all2 (\<lambda>(p, t, b) b1. b1 = b \<or> p = OP_PUSH \<and> b1 = b + (OP_PUSH_CLEAR - OP_PUSH)) ?xs (reduce_refs s)"
    unfolding reduce_refs_def block_starts_def sort_zero by (simp del: sort_key_simps)
  moreover have "?xs = map (\<lambda>x. (sym_mark x, sym_try x, sym_byte x)) cs"
    using p by (simp add: place_def zip_map_map [symmetric]) (simp add: list_eq_iff_nth_eq)
  ultimately show ?thesis by (simp add: list_all2_map1 kept_def [abs_def] list_all2_conv_all_nth)
qed

section \<open>The vector of a sequence\<close>

lemma ref_sizes: "ref_size m \<in> {1, 2, 4}"
  by (simp add: ref_size_def)

lemma label_sizes: "numbytes_label (choose_widths s) \<in> {1, 2, 4}"
  by (simp add: choose_widths_def Let_def)

lemma other_sizes:
  "numbytes_literal (choose_widths s) \<in> {1, 2, 4}" "numbytes_fork (choose_widths s) \<in> {1, 2, 4}"
  "numbytes_var_name (choose_widths s) \<in> {1, 2, 4}" "numbytes_stack (choose_widths s) = ref_size (max_stack s)"
  unfolding choose_widths_def Let_def bytecodes.simps by (rule ref_sizes)+ (rule refl)

lemma op_sizes: "op_width (choose_widths s) x \<in> {1, 2, 4}"
  using label_sizes [of s] other_sizes [of s] ref_sizes [of "max_stack s"] by (cases x) (simp_all only: op_width_def operand_sym.case)

lemma vector_update:
  "op_width (bc\<lparr>bc_vector := v\<rparr>) = op_width bc" "fixup_size (bc\<lparr>bc_vector := v\<rparr>) = fixup_size bc"
  "fixup_value (bc\<lparr>bc_vector := v\<rparr>) = fixup_value bc" "sym_width (bc\<lparr>bc_vector := v\<rparr>) = sym_width bc"
  "position (bc\<lparr>bc_vector := v\<rparr>) = position bc"
proof -
  show w: "op_width (bc\<lparr>bc_vector := v\<rparr>) = op_width bc" by (simp add: op_width_def [abs_def] cong: operand_sym.case_cong)
  show "fixup_size (bc\<lparr>bc_vector := v\<rparr>) = fixup_size bc" by (simp add: fixup_size_def [abs_def] cong: fixup_kind.case_cong)
  show "fixup_value (bc\<lparr>bc_vector := v\<rparr>) = fixup_value bc" by (simp add: fixup_value_def [abs_def] cong: if_cong)
  show s: "sym_width (bc\<lparr>bc_vector := v\<rparr>) = sym_width bc"
  proof
    fix c show "sym_width (bc\<lparr>bc_vector := v\<rparr>) c = sym_width bc c" by (cases c) (simp_all add: w)
  qed
  show "position (bc\<lparr>bc_vector := v\<rparr>) = position bc" by (simp add: position_def [abs_def] s)
qed

lemma encodes_update: "encodes G (bc\<lparr>bc_vector := v\<rparr>) cs x n = encodes G bc cs x n"
  by (cases x) (simp_all add: encodes_def vector_update)

lemma assemble_update: "assemble (bc\<lparr>bc_vector := v\<rparr>) cs bs ns = assemble bc cs bs ns"
  by (induction bc cs bs ns rule: assemble.induct) (simp_all add: vector_update)

lemma value_encodes:
  assumes v: "value_ok G cs i f x" "\<And>l. x = FLab l \<Longrightarrow> l < length cs" "\<And>g. x \<noteq> FOpen g"
    and w: "numbytes_literal bc = Suc a1" "numbytes_fork bc = Suc a2" "numbytes_var_name bc = Suc a3" "numbytes_label bc = Suc a4"
      "numbytes_stack bc = Suc a5" "a5 = 0 \<or> \<not> is_lab x"
  shows "encodes G bc cs x (fixup_value bc f)"
proof (cases x)
  case (FLab l)
  have "fixup_value bc f = position bc cs l"
    using v FLab w by (simp add: value_ok_def target_ok_def fixup_value_def position_def position_sum [OF w(1-5)])
  then show ?thesis using v FLab by (simp add: encodes_def)
qed (use v in \<open>auto simp: value_ok_def encodes_def fixup_value_def\<close>)

lemma value_size: "value_ok g cs i f x \<Longrightarrow> fixup_size bc f = op_width bc x"
  by (cases x) (simp_all add: value_ok_def fixup_size_def op_width_def)

text \<open>The bytes that \<open>finish_code\<close> writes.\<close>

lemma finish_vector:
  assumes p: "place g0 cs 0 None 0 [] s" and o: "open_below 0 cs"
    and bc: "bc = (choose_widths s)\<lparr>bc_vector := expand (choose_widths s) (fixups s) 0 (reduce_refs s)\<rparr>"
  shows "bc_vector bc = assemble bc cs (reduce_refs s) (map (fixup_value bc) (fixups s))" "list_all2 kept cs (reduce_refs s)"
    "length (fixups s) = length (operands cs)"
    "i < length (operands cs) \<Longrightarrow> value_ok (the_gstate s) cs i (fixups s ! i) (operands cs ! i) \<and> (\<forall>g. operands cs ! i \<noteq> FOpen g)"
proof -
  let ?w = "choose_widths s"
  show kept: "list_all2 kept cs (reduce_refs s)" by (rule reduce_refs_kept [OF p])
  show lf: "length (fixups s) = length (operands cs)" by (rule place_fixups [OF p])
  have v: "value_ok (the_gstate s) cs i (fixups s ! i) (operands cs ! i) \<and> (\<forall>g. operands cs ! i \<noteq> FOpen g)"
    if "i < length (operands cs)" for i
  proof -
    have "FOpen g \<notin> set (operands cs)" for g using o by (simp add: open_below_def)
    then have "operands cs ! i \<noteq> FOpen g" for g using nth_mem [OF that] by metis
    then show ?thesis using p that by (simp add: place_def)
  qed
  then show "i < length (operands cs) \<Longrightarrow> value_ok (the_gstate s) cs i (fixups s ! i) (operands cs ! i) \<and> (\<forall>g. operands cs ! i \<noteq> FOpen g)" .
  have "fixup_size ?w f = op_width ?w x" if fx: "(f, x) \<in> set (zip (fixups s) (operands cs))" for f x
  proof -
    obtain i where i: "i < length (operands cs)" "f = fixups s ! i" "x = operands cs ! i" using fx lf by (auto simp: in_set_zip)
    show ?thesis using value_size v [OF i(1)] i by blast
  qed
  then have "expand ?w (fixups s) 0 (reduce_refs s) = assemble ?w cs (reduce_refs s) (map (fixup_value ?w) (fixups s))"
    by (intro expand_assemble) (use p list_all2_lengthD [OF kept] in \<open>auto simp: place_def fixes_of_def\<close>)
  then show "bc_vector bc = assemble bc cs (reduce_refs s) (map (fixup_value bc) (fixups s))"
    by (simp add: bc assemble_update vector_update)
qed

text \<open>Labels lead to their targets when stack operands are one byte wide.\<close>

lemma finish_encodes:
  assumes p: "place g0 cs 0 None 0 [] s" and o: "open_below 0 cs" and l: "\<And>l. FLab l \<in> set (operands cs) \<Longrightarrow> l < length cs"
    and bc: "bc = (choose_widths s)\<lparr>bc_vector := expand (choose_widths s) (fixups s) 0 (reduce_refs s)\<rparr>"
    and G: "gext (the_gstate s) G" and m: "max_stack s \<le> 256"
  shows "list_all2 (encodes G bc cs) (operands cs) (map (fixup_value bc) (fixups s))"
proof (rule list_all2_all_nthI)
  note fv = finish_vector [OF p o bc]
  fix i assume i: "i < length (operands cs)"
  have suc: "n \<in> {1, 2, 4} \<Longrightarrow> n = Suc (n - 1)" for n :: nat by auto
  have one: "numbytes_stack (choose_widths s) = Suc 0" using m other_sizes(4) [of s] by (simp add: ref_size_def)
  have "encodes G (choose_widths s) cs (operands cs ! i) (fixup_value (choose_widths s) (fixups s ! i))"
    by (rule value_encodes [OF value_ok_gext [OF G fv(4) [OF i, THEN conjunct1]] _ _ suc [OF other_sizes(1)] suc [OF other_sizes(2)]
          suc [OF other_sizes(3)] suc [OF label_sizes] one])
      (use l nth_mem [OF i] fv(4) [OF i] in simp_all)
  then show "encodes G bc cs (operands cs ! i) (map (fixup_value bc) (fixups s) ! i)"
    using i fv(3) unfolding bc by (simp add: encodes_update vector_update)
qed (simp add: finish_vector(3) [OF p o bc])

text \<open>The memory that is allocated, and the bytes that are written to it.\<close>

lemma finish_size:
  assumes p: "place g0 cs 0 None 0 [] s" and o: "open_below 0 cs"
    and bc: "bc = (choose_widths s)\<lparr>bc_vector := expand (choose_widths s) (fixups s) 0 (reduce_refs s)\<rparr>"
  shows "length (bc_vector bc) = bc_size bc + count_ops is_stk cs * (ref_size (max_stack s) - 1)"
proof -
  note fv = finish_vector [OF p o bc]
  have suc: "n \<in> {1, 2, 4} \<Longrightarrow> n = Suc (n - 1)" for n :: nat by auto
  have w: "op_width bc x \<in> {1, 2, 4}" for x unfolding bc vector_update by (rule op_sizes)
  have "list_all2 (\<lambda>x n. True) (operands cs) (map (fixup_value bc) (fixups s))" using fv(3) by (simp add: list_all2_conv_all_nth)
  from assemble_length [OF fv(2) this w] have "length (bc_vector bc) = sum_list (map (sym_width (choose_widths s)) cs)"
    unfolding fv(1) by (simp add: bc vector_update)
  also have "\<dots> = bc_size bc + count_ops is_stk cs * (ref_size (max_stack s) - 1)"
    unfolding position_sum [OF suc [OF other_sizes(1)] suc [OF other_sizes(2)] suc [OF other_sizes(3)] suc [OF label_sizes]
        suc [OF ref_sizes [of "max_stack s", folded other_sizes(4)]]]
    using p by (simp add: bc place_def choose_widths_def Let_def mult.commute)
  finally show ?thesis .
qed

end
