(* ===== verification/CodeProgram.thy ===== *)
theory CodeProgram
  imports CodeVector
begin

text \<open>Whole programs: what \<open>generate_code\<close> makes of what the parser builds.\<close>

section \<open>Compiling\<close>

text \<open>The sequence of a program or of the body of a fork.\<close>

definition program_code :: "stmts \<Rightarrow> sym list" where
  "program_code body = code_stmts body 0 0 0 [] @ [marked 0 OP_DONE OP_DONE]"

lemma compiles:
  assumes wf: "wf_stmts [] body" and g: "\<forall>v \<in> set (g_literals g). scalar v"
  shows "\<exists>s bc. stmt_to_code body g = Some (bc, the_gstate s) \<and> place g (program_code body) 0 None 0 [] s \<and>
    bc = (choose_widths s)\<lparr>bc_vector := expand (choose_widths s) (fixups s) 0 (reduce_refs s)\<rparr>"
proof -
  have "runs [] (generate_stmts body) (code_stmts body)" using runs_all(2) wf by blast
  from runsD [OF this, of "[]" _ "[]" 0 0] have "goes g [] 0 None 0 [] (generate_stmts body) (code_stmts body 0 0 0 []) 0" for g
    by simp
  from code_of_goes [OF this g] show ?thesis by (auto simp: stmt_to_code_def program_code_def)
qed

lemma program_labels:
  assumes wf: "wf_stmts [] body" and l: "FLab l \<in> set (operands (program_code body))"
  shows "l < length (program_code body)"
proof -
  let ?c = "code_stmts body 0 0 0 []"
  have "runs [] (generate_stmts body) (code_stmts body)" using runs_all(2) wf by blast
  from runsD [OF this, of "[]" init_gstate "[]" 0 0]
  have g: "goes init_gstate [] 0 None 0 [] (generate_stmts body) ?c 0" by simp
  have "\<forall>v \<in> set (g_literals init_gstate). scalar v" by (simp add: init_gstate_def)
  from goesD [OF g place_init [OF this]] obtain s where p: "place init_gstate ?c 0 None 0 [] s" by blast
  obtain i where i: "i < length (operands ?c)" "operands ?c ! i = FLab l" using l by (auto simp: program_code_def in_set_conv_nth)
  then have "value_ok (the_gstate s) ?c i (fixups s ! i) (FLab l)" using p unfolding place_def by metis
  then show ?thesis by (simp add: value_ok_def target_ok_def program_code_def)
qed

lemma program_open: "open_below 0 (program_code body)"
  using open_below_stmt(2) [where ls = "[]"] by (simp add: program_code_def)

text \<open>A vector that was made of a body, and the state it was made in.\<close>

lemma made_state:
  assumes wf: "wf_stmts [] body" and m: "made_from G body bc"
  obtains g s where "place g (program_code body) 0 None 0 [] s" "gext (the_gstate s) G"
    "bc = (choose_widths s)\<lparr>bc_vector := expand (choose_widths s) (fixups s) 0 (reduce_refs s)\<rparr>" "max_stack s = bc_max_stack bc"
proof -
  obtain g g' where g: "stmt_to_code body g = Some (bc, g')" "\<forall>v \<in> set (g_literals g). scalar v" "gext g' G"
    using m by (auto simp: made_from_def)
  from compiles [OF wf g(2)] g(1) obtain s where s: "g' = the_gstate s" "place g (program_code body) 0 None 0 [] s"
    "bc = (choose_widths s)\<lparr>bc_vector := expand (choose_widths s) (fixups s) 0 (reduce_refs s)\<rparr>" by auto
  moreover have "max_stack s = bc_max_stack bc" by (simp add: s(3) choose_widths_def Let_def)
  ultimately show ?thesis using that g(3) by blast
qed

definition program_state :: "moo_program \<Rightarrow> gstate" where
  "program_state p = \<lparr>g_total_var_refs = 0, g_literals = p_literals p, g_fork_vectors = p_fork_vectors p\<rparr>"

lemma generate_code_made:
  assumes wf: "wf_stmts [] body"
  shows "\<exists>p. generate_code body = Some p \<and> made_from (program_state p) body (p_main_vector p)"
proof -
  have s: "\<forall>v \<in> set (g_literals init_gstate). scalar v" by (simp add: init_gstate_def)
  from compiles [OF wf s] obtain s :: state and bc where "stmt_to_code body init_gstate = Some (bc, the_gstate s)" by auto
  moreover have "gext (the_gstate s) (program_state \<lparr>p_main_vector = bc, p_literals = g_literals (the_gstate s), p_fork_vectors = g_fork_vectors (the_gstate s)\<rparr>)"
    by (simp add: gext_def program_state_def)
  ultimately show ?thesis using s by (auto simp: generate_code_def made_from_def)
qed

section \<open>Forks\<close>

definition plain_code :: "sym list \<Rightarrow> bool" where
  "plain_code cs \<longleftrightarrow> (\<forall>b. FFork b \<notin> set (operands cs)) \<and> (\<forall>n. FPseudo n \<in> set (operands cs) \<longrightarrow> n \<le> 1) \<and>
     (\<forall>m t b. SByte m t b \<in> set cs \<longrightarrow> b < 256 \<and> (m = OP_PUSH \<longrightarrow> b < OP_PUSH_CLEAR))"

lemma plain_code_simps [simp]:
  "plain_code []" "plain_code (a @ b) \<longleftrightarrow> plain_code a \<and> plain_code b" "plain_code (SByte m t y # cs) \<longleftrightarrow> y < 256 \<and> (m = OP_PUSH \<longrightarrow> y < OP_PUSH_CLEAR) \<and> plain_code cs"
  "(\<And>b. x \<noteq> FFork b) \<Longrightarrow> plain_code (SFix t x # cs) \<longleftrightarrow> (\<forall>n. x = FPseudo n \<longrightarrow> n \<le> 1) \<and> plain_code cs"
  by (auto simp: plain_code_def)

lemma plain_code_ops [simp]:
  "plain_code (var_op t b n)" "plain_code (code_var v t)"
  "plain_code [arg_op first a t]" "plain_code (arg_op first a t # cs) = plain_code cs" "plain_code (code_scatter_head sc t)"
  by (simp_all add: var_op_def code_var_def arg_op_def code_scatter_head_def split: var.split prod.split)

lemma plain_code_binary [simp]: "plain_code (binary_op k t)"
  by (cases k) simp_all

lemma plain_code_unary [simp]: "plain_code (unary_op u t)"
  by (cases u) simp_all

lemma plain_code_store [simp]: "plain_code (code_store b e t)"
  by (induction b e t rule: code_store.induct) simp_all

lemma plain_code_exprs:
  "\<forall>k d sv t. plain_code (code_expr e k d sv t)"
  "\<forall>k d sv t. plain_code (code_args first as k d sv t)"
  "\<forall>k d sv t. plain_code (code_codes as k d sv t)"
  "\<forall>k d sv t. plain_code (code_maps ms k d sv t)"
  "\<forall>k d sv t. plain_code (code_lvalue up e k d sv t)"
  "\<forall>k d sv t. plain_code (fst (code_scatter sc k d sv t)) \<and> plain_code (snd (code_scatter sc k d sv t))"
  by (induction e and first as and as and ms and up e and sc
      rule: code_expr_code_args_code_codes_code_maps_code_lvalue_code_scatter.induct)
    (simp_all add: Let_def case_prod_beta code_expr.simps code_args.simps code_codes.simps code_maps.simps code_lvalue.simps
      code_scatter.simps split: expr.split option.split args.split)

text \<open>
  The bodies of the forks in a sequence are statements outside every loop; the labels of a
  scattering assignment that are not labels are 0 and 1.
\<close>

definition good_code :: "sym list \<Rightarrow> bool" where
  "good_code cs \<longleftrightarrow> (\<forall>b. FFork b \<in> set (operands cs) \<longrightarrow> wf_stmts [] b) \<and> (\<forall>n. FPseudo n \<in> set (operands cs) \<longrightarrow> n \<le> 1) \<and>
     (\<forall>m t b. SByte m t b \<in> set cs \<longrightarrow> b < 256 \<and> (m = OP_PUSH \<longrightarrow> b < OP_PUSH_CLEAR))"

lemma good_code_free: "plain_code cs \<Longrightarrow> good_code cs"
  by (simp add: plain_code_def good_code_def)

lemma good_code_exprs [simp]: "good_code (code_expr e k d sv t)" "good_code (code_codes as k d sv t)" "good_code (var_op t b n)"
  by (simp_all add: good_code_free plain_code_exprs)

lemma good_code_simps [simp]:
  "good_code []" "good_code (a @ b) \<longleftrightarrow> good_code a \<and> good_code b" "good_code (SByte m t y # cs) \<longleftrightarrow> y < 256 \<and> (m = OP_PUSH \<longrightarrow> y < OP_PUSH_CLEAR) \<and> good_code cs"
  "(\<And>b. x \<noteq> FFork b) \<Longrightarrow> good_code (SFix t x # cs) \<longleftrightarrow> (\<forall>n. x = FPseudo n \<longrightarrow> n \<le> 1) \<and> good_code cs" "good_code (SFix t (FFork z) # cs) \<longleftrightarrow> wf_stmts [] z \<and> good_code cs"
  by (auto simp: good_code_def)

lemma close_bytes: "SByte m t b \<in> set (close_tag P k cs) \<longleftrightarrow> SByte m t b \<in> set cs"
proof (induction cs)
  case (Cons x cs)
  show ?case
  proof (cases x)
    case (SFix t y)
    with Cons show ?thesis by (cases y) auto
  qed (use Cons in simp)
qed simp

lemma good_code_close [simp]: "good_code (close_tag P k cs) = good_code cs"
proof -
  have "FFork b = closing P k x \<longleftrightarrow> x = FFork b" "FPseudo n = closing P k x \<longleftrightarrow> x = FPseudo n" for b n x
    by (cases x; auto simp: closing_def)+
  then have "FFork b \<in> set (operands (close_tag P k cs)) \<longleftrightarrow> FFork b \<in> set (operands cs)"
    "FPseudo n \<in> set (operands (close_tag P k cs)) \<longleftrightarrow> FPseudo n \<in> set (operands cs)" for b n
    unfolding close_tag_operands set_map by (auto simp: image_iff)
  then show ?thesis by (simp add: good_code_def close_bytes)
qed

lemma good_code_except [simp]: "good_code (code_except_codes ex hs k d t)"
  by (induction ex hs k d t rule: code_except_codes.induct) (simp_all add: Let_def)

lemma good_code_parts [simp]: "good_code (list_head i index t)" "good_code (while_head v t)" "good_code (code_exit c e t ls)"
  by (simp_all add: list_head_def while_head_def code_exit_def exit_head_def split: option.split prod.split)

lemma fork_bodies:
  "\<forall>names k d t ls. wf_stmt names st \<longrightarrow> good_code (code_stmt st k d t ls)"
  "\<forall>names k d t ls. wf_stmts names sts \<longrightarrow> good_code (code_stmts sts k d t ls)"
  "\<forall>names b code_else k d t ls. wf_arms names arms \<longrightarrow> (\<forall>k. good_code (code_else k)) \<longrightarrow> good_code (code_arms b arms code_else k d t ls)"
  "\<forall>names k d t ls. wf_handlers names ex \<longrightarrow> good_code (snd (code_handlers ex k d t ls))"
  by (induction st and sts and arms and ex)
    (auto simp: Let_def case_prod_beta code_cycle_def code_stmt.simps code_stmts.simps code_arms.simps code_handlers.simps split: option.splits)

lemma program_forks: "wf_stmts [] body \<Longrightarrow> good_code (program_code body)"
proof -
  assume "wf_stmts [] body"
  then have "good_code (code_stmts body 0 0 0 [])" using fork_bodies(2) by blast
  then show ?thesis by (simp add: program_code_def)
qed

section \<open>Reading operands\<close>

text \<open>\<^verbatim>\<open>READ_BYTES\<close> of \<^verbatim>\<open>execute.cc\<close>: the operand at the start of the bytes.\<close>

definition READ_BYTES :: "nat \<Rightarrow> nat list \<Rightarrow> nat" where
  "READ_BYTES nb bv =
     (if nb = 1 then bv ! 0
      else if nb = 2 then bv ! 0 * 2 ^ 8 + bv ! 1
      else bv ! 0 * 2 ^ 24 + bv ! 1 * 2 ^ 16 + bv ! 2 * 2 ^ 8 + bv ! 3)"

lemma read_operand:
  assumes w: "w \<in> {1, 2, 4}" and n: "n < 256 ^ w"
  shows "READ_BYTES w (operand w n @ rest) = n"
proof -
  have "n div 16777216 mod 256 * 16777216 + n div 65536 mod 256 * 65536 + n div 256 mod 256 * 256 + n mod 256 = n"
    if "n < 4294967296" for n :: nat
  proof -
    let ?a = "n div 256" let ?b = "?a div 256" let ?c = "?b div 256"
    have "?c < 256" using that by (simp add: div_mult2_eq [symmetric] less_mult_imp_div_less)
    then have c: "?c mod 256 = ?c" by simp
    have d: "n div 65536 = ?b" "n div 16777216 = ?c" by (simp_all add: div_mult2_eq [symmetric])
    have "?a * 256 + n mod 256 = n" "?b * 256 + ?a mod 256 = ?a" "?c * 256 + ?b mod 256 = ?b" by (rule div_mult_mod_eq)+
    then show ?thesis unfolding d c by linarith
  qed
  then show ?thesis using w n by (auto simp: READ_BYTES_def operand_def nth_append)
qed

text \<open>
  Within these bounds every operand fits in its width: a stack operand or variable number of
  256 does not fit in one byte, which \<open>ref_size\<close> takes it to.
\<close>

definition in_bounds :: "gstate \<Rightarrow> bytecodes \<Rightarrow> sym list \<Rightarrow> bool" where
  "in_bounds G bc cs \<longleftrightarrow> bc_max_stack bc < 256 \<and> length (g_literals G) \<le> 2 ^ 32 \<and> length (g_fork_vectors G) \<le> 2 ^ 32 \<and>
     bc_size bc \<le> 2 ^ 32 \<and> (\<forall>i. FVar i \<in> set (operands cs) \<longrightarrow> i < 2 ^ 32 \<and> i \<noteq> 256 \<and> i \<noteq> 65536)"

lemma ref_size_fits:
  assumes "n \<le> m" "n \<noteq> 256" "n \<noteq> 65536" "n < 2 ^ 32"
  shows "n < 256 ^ ref_size m"
  using assms by (auto simp: ref_size_def)

lemma ref_size_index: "n < k \<Longrightarrow> k \<le> m \<Longrightarrow> k \<le> 2 ^ 32 \<Longrightarrow> n < 256 ^ ref_size m"
  by (auto simp: ref_size_def)

lemma label_fits:
  assumes "n < bc_size (choose_widths s)" "bc_size (choose_widths s) \<le> 2 ^ 32"
  shows "n < 256 ^ numbytes_label (choose_widths s)"
proof -
  have "\<exists>sz. numbytes_label (choose_widths s) = (if sz \<le> 256 then 1 else if sz + num_labels s \<le> 256 * 256 then 2 else 4) \<and>
      bc_size (choose_widths s) = sz + ((if sz \<le> 256 then 1 else if sz + num_labels s \<le> 256 * 256 then 2 else 4) - 1) * num_labels s"
    unfolding choose_widths_def Let_def bytecodes.simps by blast
  then obtain sz where "numbytes_label (choose_widths s) = (if sz \<le> 256 then 1 else if sz + num_labels s \<le> 256 * 256 then 2 else 4)"
    "bc_size (choose_widths s) = sz + ((if sz \<le> 256 then 1 else if sz + num_labels s \<le> 256 * 256 then 2 else 4) - 1) * num_labels s" by blast
  then show ?thesis using assms by (simp split: if_splits)
qed

lemma position_less:
  assumes "\<And>x. 1 \<le> op_width bc x" "l < length cs"
  shows "position bc cs l < sum_list (map (sym_width bc) cs)"
  using assms(2)
proof (induction cs arbitrary: l)
  case (Cons c cs)
  have c: "1 \<le> sym_width bc c" using assms(1) by (cases c) auto
  show ?case
  proof (cases l)
    case 0
    then show ?thesis using c by (simp add: position_def)
  next
    case (Suc k)
    then show ?thesis using Cons by (simp add: position_def)
  qed
qed simp

text \<open>What is read at each place of the vector.\<close>

definition reads :: "gstate \<Rightarrow> bytecodes \<Rightarrow> sym list \<Rightarrow> bool" where
  "reads G bc cs \<longleftrightarrow>
     (\<forall>i < length cs. case cs ! i of
        SByte m t b \<Rightarrow> kept (cs ! i) (bc_vector bc ! position bc cs i)
      | SFix t x \<Rightarrow> encodes G bc cs x (READ_BYTES (op_width bc x) (drop (position bc cs i) (bc_vector bc))))"

lemma operands_at: "i < length cs \<Longrightarrow> cs ! i = SFix t x \<Longrightarrow>
    length (operands (take i cs)) < length (operands cs) \<and> operands cs ! length (operands (take i cs)) = x"
proof (induction cs arbitrary: i)
  case (Cons c cs)
  show ?case
  proof (cases i)
    case 0
    then show ?thesis using Cons.prems by simp
  next
    case (Suc k)
    then show ?thesis using Cons.IH [of k] Cons.prems by (cases c) simp_all
  qed
qed simp

lemma assembled_reads:
  assumes v: "bc_vector bc = assemble bc cs bs ns" and k: "list_all2 kept cs bs" and e: "list_all2 (encodes G bc cs) (operands cs) ns"
    and w: "\<And>x. op_width bc x \<in> {1, 2, 4}" and f: "\<And>j. j < length ns \<Longrightarrow> ns ! j < 256 ^ op_width bc (operands cs ! j)"
  shows "reads G bc cs"
  unfolding reads_def
proof (intro allI impI)
  fix i assume i: "i < length cs"
  let ?j = "length (operands (take i cs))"
  have dc: "drop i cs = cs ! i # drop (Suc i) cs" using i by (rule Cons_nth_drop_Suc [symmetric])
  have ib: "i < length bs" using i k by (simp add: list_all2_lengthD)
  then have db: "drop i bs = bs ! i # drop (Suc i) bs" by (rule Cons_nth_drop_Suc [symmetric])
  have d: "drop (position bc cs i) (bc_vector bc) = assemble bc (cs ! i # drop (Suc i) cs) (bs ! i # drop (Suc i) bs) (drop ?j ns)"
    unfolding v assemble_drop [OF k e w less_imp_le [OF i]] dc db ..
  show "case cs ! i of SByte m t b \<Rightarrow> kept (cs ! i) (bc_vector bc ! position bc cs i)
      | SFix t x \<Rightarrow> encodes G bc cs x (READ_BYTES (op_width bc x) (drop (position bc cs i) (bc_vector bc)))"
  proof (cases "cs ! i")
    case (SByte m t b)
    then have "drop (position bc cs i) (bc_vector bc) = bs ! i # assemble bc (drop (Suc i) cs) (drop (Suc i) bs) (drop ?j ns)"
      using d by simp
    then have "bc_vector bc ! position bc cs i = bs ! i" by (metis hd_drop_conv_nth list.sel(1) drop_eq_Nil list.distinct(1) not_le_imp_less)
    then show ?thesis using list_all2_nthD [OF k i] SByte by simp
  next
    case (SFix t x)
    note j = operands_at [OF i SFix]
    have jn: "?j < length ns" using j e by (simp add: list_all2_lengthD)
    then have dn: "drop ?j ns = ns ! ?j # drop (Suc ?j) ns" by (rule Cons_nth_drop_Suc [symmetric])
    have "READ_BYTES (op_width bc x) (drop (position bc cs i) (bc_vector bc)) = ns ! ?j"
      unfolding d SFix dn assemble.simps by (rule read_operand [OF w]) (use f [OF jn] j in simp)
    then show ?thesis using list_all2_nthD [OF e, of ?j] j SFix by simp
  qed
qed

section \<open>Made vectors\<close>

lemma made_widths:
  assumes "wf_stmts [] body" "made_from G body bc"
  shows "op_width bc x \<in> {1, 2, 4}"
  by (rule made_state [OF assms]) (simp only: vector_update, rule op_sizes)

lemma made_size:
  assumes "wf_stmts [] body" "made_from G body bc"
  shows "length (bc_vector bc) = bc_size bc + count_ops is_stk (program_code body) * (ref_size (bc_max_stack bc) - 1)"
  by (rule made_state [OF assms]) (use finish_size program_open in metis)

lemma value_fits:
  assumes v: "value_ok (the_gstate s) cs i f x" "bounded s f" and b: "in_bounds G bc cs" and x: "x \<in> set (operands cs)"
    and G: "gext (the_gstate s) G" and m: "max_stack s < 256" and fk: "good_code cs"
    and bc: "bc = (choose_widths s)\<lparr>bc_vector := vec\<rparr>"
    and lab: "\<And>l. x = FLab l \<Longrightarrow> fixup_value bc f < bc_size bc" and o: "\<And>g. x \<noteq> FOpen g"
  shows "fixup_value bc f < 256 ^ op_width bc x"
proof -
  let ?w = "choose_widths s" and ?g = "the_gstate s"
  have w: "numbytes_literal ?w = ref_size (max (max_literal s) (length (g_literals ?g)))"
    "numbytes_fork ?w = ref_size (max (max_fork s) (length (g_fork_vectors ?g)))"
    "numbytes_var_name ?w = ref_size (max (max_var_ref s) (g_total_var_refs ?g))" "numbytes_stack ?w = ref_size (max_stack s)"
    by (simp_all add: choose_widths_def Let_def)
  have len: "length (g_literals ?g) \<le> 2 ^ 32" "length (g_fork_vectors ?g) \<le> 2 ^ 32"
    using b G prefix_length_le unfolding in_bounds_def gext_def by (meson le_trans)+
  have "fixup_value ?w f < 256 ^ op_width ?w x"
  proof (cases x)
    case (FLit y)
    then show ?thesis using v ref_size_index [OF _ _ len(1)] by (auto simp: value_ok_def fixup_value_def op_width_def w)
  next
    case (FFork y)
    then show ?thesis using v ref_size_index [OF _ _ len(2)] by (auto simp: value_ok_def fixup_value_def op_width_def w)
  next
    case (FVar y)
    then have "y < 2 ^ 32" "y \<noteq> 256" "y \<noteq> 65536" using b x by (auto simp: in_bounds_def)
    then show ?thesis using v FVar by (auto simp: value_ok_def fixup_value_def op_width_def w bounded_def intro!: ref_size_fits)
  next
    case (FStk y)
    then show ?thesis using v m by (simp add: value_ok_def fixup_value_def op_width_def w bounded_def ref_size_def)
  next
    case (FPseudo y)
    then have "y \<le> 1" using fk x by (simp add: good_code_def)
    moreover have "256 ^ 1 \<le> (256 :: nat) ^ numbytes_label ?w" using label_sizes [of s] by (intro power_increasing) auto
    ultimately show ?thesis using v FPseudo by (simp add: value_ok_def fixup_value_def op_width_def)
  next
    case (FLab l)
    then show ?thesis using lab [OF FLab] label_fits [of _ s] b by (simp add: bc op_width_def in_bounds_def vector_update)
  qed (use o in simp)
  then show ?thesis by (simp add: bc vector_update)
qed

lemma made_reads:
  assumes wf: "wf_stmts [] body" and m: "made_from G body bc" and b: "in_bounds G bc (program_code body)"
  shows "reads G bc (program_code body)"
proof -
  let ?cs = "program_code body"
  obtain g s where s: "place g ?cs 0 None 0 [] s" "gext (the_gstate s) G"
    "bc = (choose_widths s)\<lparr>bc_vector := expand (choose_widths s) (fixups s) 0 (reduce_refs s)\<rparr>" "max_stack s = bc_max_stack bc"
    by (rule made_state [OF wf m])
  note fv = finish_vector [OF s(1) program_open s(3)]
  have w: "op_width bc x \<in> {1, 2, 4}" for x by (rule made_widths [OF wf m])
  have ms: "max_stack s < 256" using b s(4) by (simp add: in_bounds_def)
  then have e: "list_all2 (encodes G bc ?cs) (operands ?cs) (map (fixup_value bc) (fixups s))"
    by (intro finish_encodes [OF s(1) program_open program_labels [OF wf] s(3) s(2)]) simp_all
  have sz: "bc_size bc = sum_list (map (sym_width bc) ?cs)"
  proof -
    have "length (bc_vector bc) = sum_list (map (sym_width bc) ?cs)"
      unfolding fv(1) by (rule assemble_length [OF fv(2) e w])
    then show ?thesis using made_size [OF wf m] ms s(4) by (simp add: ref_size_def)
  qed
  show ?thesis
  proof (rule assembled_reads [OF fv(1,2) e w])
    fix j assume "j < length (map (fixup_value bc) (fixups s))"
    then have j: "j < length (operands ?cs)" using fv(3) by simp
    have bd: "bounded s (fixups s ! j)" using s(1) j by (simp add: place_def)
    have "fixup_value bc (fixups s ! j) < bc_size bc" if l: "operands ?cs ! j = FLab l" for l
    proof -
      have "encodes G bc ?cs (FLab l) (fixup_value bc (fixups s ! j))" using list_all2_nthD [OF e j] l fv(3) j by simp
      then have l: "l < length ?cs" "fixup_value bc (fixups s ! j) = position bc ?cs l" by (auto simp: encodes_def)
      have "1 \<le> op_width bc x" for x using w [of x] by auto
      from position_less [OF this l(1)] show ?thesis unfolding sz l(2) .
    qed
    from value_fits [OF fv(4) [OF j, THEN conjunct1] bd b nth_mem [OF j] s(2) ms program_forks [OF wf] s(3) this]
    show "map (fixup_value bc) (fixups s) ! j < 256 ^ op_width bc (operands ?cs ! j)"
      using fv(3) fv(4) [OF j] j by simp
  qed
qed

lemma operand_bytes: "b \<in> set (operand w n) \<Longrightarrow> b < 256"
  by (auto simp: operand_def split: if_splits)

lemma assemble_bytes:
  "good_code cs \<Longrightarrow> list_all2 kept cs bs \<Longrightarrow> b \<in> set (assemble bc cs bs ns) \<Longrightarrow> b < 256"
proof (induction bc cs bs ns rule: assemble.induct)
  case (2 bc t x cs b1 bs n ns)
  have "good_code cs" using "2.prems"(1) by (auto simp: good_code_def)
  then show ?case using "2.IH" "2.prems" operand_bytes by auto
qed (auto simp: kept_def)

lemma made_bytes:
  assumes wf: "wf_stmts [] body" and m: "made_from G body bc"
  shows "\<forall>b \<in> set (bc_vector bc). b < 256"
proof -
  obtain g s where s: "place g (program_code body) 0 None 0 [] s" "gext (the_gstate s) G"
    "bc = (choose_widths s)\<lparr>bc_vector := expand (choose_widths s) (fixups s) 0 (reduce_refs s)\<rparr>" "max_stack s = bc_max_stack bc"
    by (rule made_state [OF wf m])
  note fv = finish_vector [OF s(1) program_open s(3)]
  show ?thesis using assemble_bytes [OF program_forks [OF wf] fv(2)] unfolding fv(1) by blast
qed

text \<open>A stack operand is at most the height of the stack.\<close>

lemma made_height:
  assumes wf: "wf_stmts [] body" and m: "made_from G body bc" and n: "FStk n \<in> set (operands (program_code body))"
  shows "n \<le> bc_max_stack bc"
proof -
  obtain g s where s: "place g (program_code body) 0 None 0 [] s" "gext (the_gstate s) G"
    "bc = (choose_widths s)\<lparr>bc_vector := expand (choose_widths s) (fixups s) 0 (reduce_refs s)\<rparr>" "max_stack s = bc_max_stack bc"
    by (rule made_state [OF wf m])
  obtain i where i: "i < length (operands (program_code body))" "operands (program_code body) ! i = FStk n"
    using n by (auto simp: in_set_conv_nth)
  then have "value_ok (the_gstate s) (program_code body) i (fixups s ! i) (FStk n)" "bounded s (fixups s ! i)"
    using s(1) unfolding place_def by metis+
  then show ?thesis using s(4) by (simp add: value_ok_def bounded_def)
qed

end
