(* ===== verification/CodeProps.thy ===== *)
theory CodeProps
  imports CodeProgram
begin

text \<open>The properties of the code generator.\<close>

section \<open>Last uses\<close>

unbundle bit_operations_syntax

text \<open>In a basic block: an operation that makes a variable unneeded, and one that needs it.\<close>

fun kills :: "nat \<times> nat \<times> nat \<Rightarrow> nat \<Rightarrow> bool" where
  "kills (p, t, b) v \<longleftrightarrow> t = 0 \<and> (p = OP_PUT \<and> b - OP_PUT = v \<or> p = OP_DONE)"

fun needs :: "nat \<times> nat \<times> nat \<Rightarrow> nat \<Rightarrow> bool" where
  "needs (p, t, b) v \<longleftrightarrow> p = OP_PUSH \<and> b - OP_PUSH = v \<or> t = 0 \<and> p = OP_CALL_VERB \<and> v \<in> {5, 10, 11, 12, 13, 14, 15}"

lemma bit_mask: "bit NON_VR_VAR_MASK v \<longleftrightarrow> v < 32 \<and> v \<notin> {5, 10, 11, 12, 13, 14, 15}"
  unfolding bit_not_iff bit_or_iff bit_push_bit_iff bit_1_iff by auto

lemma bit_var: "(w :: 32 word) AND push_bit n 1 \<noteq> 0 \<longleftrightarrow> bit w n"
proof
  assume "w AND push_bit n 1 \<noteq> 0"
  then obtain m where "bit (w AND push_bit n 1) m" by (metis bit_eqI bit_0_eq bot_apply bot_bool_def)
  then show "bit w n" by (auto simp: bit_and_iff bit_push_bit_iff bit_1_iff bit_exp_iff)
next
  assume "bit w n"
  moreover from this have "n < 32" using bit_imp_le_length [of w n] by simp
  ultimately have "bit (w AND push_bit n 1) n" by (simp add: bit_and_iff bit_push_bit_iff bit_1_iff bit_exp_iff)
  then show "w AND push_bit n 1 \<noteq> 0" by fastforce
qed

lemma bit_var_pow: "(w :: 32 word) AND 2 ^ n = 0 \<longleftrightarrow> \<not> bit w n"
  using bit_var [of w n] unfolding push_bit_of_1 by blast

lemma varbits_bit: "bit (fst (reduce_byte p t b w)) v \<Longrightarrow> (kills (p, t, b) v \<or> bit w v) \<and> \<not> needs (p, t, b) v"
  by (auto simp: reduce_byte_def Let_def bit_and_iff bit_or_iff bit_not_iff bit_push_bit_iff bit_1_iff bit_exp_iff bit_mask bit_var_pow
      split: if_splits)

text \<open>A variable the scan has in its bits is overwritten, or the code ends, before it is needed.\<close>

lemma varbits_dead:
  "bit (fst (reduce_block xs)) v \<Longrightarrow> \<exists>j < length xs. kills (xs ! j) v \<and> (\<forall>k \<le> j. \<not> needs (xs ! k) v)"
proof (induction xs rule: reduce_block.induct)
  case (2 p t b xs)
  have "bit (fst (reduce_byte p t b (fst (reduce_block xs)))) v" using "2.prems" by (simp add: case_prod_beta)
  note b = varbits_bit [OF this]
  show ?case
  proof (cases "kills (p, t, b) v")
    case True
    then show ?thesis using b by (intro exI [of _ 0]) auto
  next
    case False
    then obtain j where j: "j < length xs" "kills (xs ! j) v" "\<forall>k \<le> j. \<not> needs (xs ! k) v" using b "2.IH" by blast
    have "\<not> needs (((p, t, b) # xs) ! k) v" if "k \<le> Suc j" for k using j(3) b that by (cases k) auto
    then show ?thesis using j by (intro exI [of _ "Suc j"]) auto
  qed
qed simp


section \<open>The code of a program\<close>

text \<open>A program for the witnesses: a loop with an exit, a fork and an assignment of an index.\<close>

definition sample :: stmts where
  "sample =
     StCons (STMT_WHILE None (EXPR_BINARY EXPR_LT (EXPR_ID 40) (EXPR_VAR (VINT 500)))
       (StCons (STMT_BREAK None)
       (StCons (STMT_FORK None (EXPR_VAR (VINT 0)) (StCons (STMT_RETURN None) StNil)) StNil)))
     (StCons (STMT_EXPR (EXPR_ASGN (EXPR_INDEX (EXPR_ID 41) EXPR_LAST) (EXPR_ID 40))) StNil)"

lemma sample_wf: "wf_stmts [] sample"
  by (simp add: sample_def scalar_def)




definition fork_body :: stmts where
  "fork_body = StCons (STMT_RETURN (Some (EXPR_ID 40))) StNil"

definition fork_sample :: stmts where
  "fork_sample = StCons (STMT_FORK None (EXPR_VAR (VINT 0)) fork_body) StNil"

lemma fork_sample_wf: "wf_stmts [] fork_sample"
  by (simp add: fork_sample_def fork_body_def scalar_def)

lemma fork_sample_code: "map_option (\<lambda>p. (bc_max_stack (p_main_vector p), bc_size (p_main_vector p), p_literals p, length (p_fork_vectors p)))
    (generate_code fork_sample) = Some (1, 4, [], 1)"
  by code_simp

lemma fork_sample_ops: "operands (program_code fork_sample) = [FFork fork_body]" "length (program_code fork_sample) = 4"
  "program_code fork_sample ! 2 = SFix 0 (FFork fork_body)"
  by code_simp+


section \<open>The memory of a vector\<close>

text \<open>
  C11: The bytes that are written to a vector are as many as were allocated, as long as the
  stack is at most 256 values high. When an index of the stack above 256 is an operand they are more: its second byte is not
  counted.
\<close>

theorem vector_memory:
  assumes "wf_stmts [] body" "made_from G body bc"
  shows "(bc_max_stack bc \<le> 256 \<longrightarrow> length (bc_vector bc) = bc_size bc) \<and>
    ((\<exists>n > 256. FStk n \<in> set (operands (program_code body))) \<longrightarrow> bc_size bc < length (bc_vector bc))"
proof (intro conjI impI)
  show "length (bc_vector bc) = bc_size bc" if "bc_max_stack bc \<le> 256"
    using made_size [OF assms] that by (simp add: ref_size_def)
next
  assume "\<exists>n > 256. FStk n \<in> set (operands (program_code body))"
  then obtain n where n: "n > 256" "FStk n \<in> set (operands (program_code body))" by blast
  have "2 \<le> ref_size (bc_max_stack bc)" using made_height [OF assms n(2)] n(1) by (simp add: ref_size_def)
  moreover have "0 < count_ops is_stk (program_code body)" using n(2) by (auto simp: count_ops_def filter_empty_conv intro!: bexI [of _ "FStk n"])
  ultimately show "bc_size bc < length (bc_vector bc)" using made_size [OF assms] by simp
qed

text \<open>An index expression below \<open>n\<close> operands that wait on the stack.\<close>

fun deep :: "nat \<Rightarrow> expr" where
  "deep 0 = EXPR_INDEX (EXPR_ID 0) EXPR_LAST"
| "deep (Suc n) = EXPR_BINARY EXPR_PLUS (EXPR_ID 0) (deep n)"

lemma deep_stack: "FStk (d + n) \<in> set (operands (code_expr (deep n) k d sv t))"
proof (induction n arbitrary: k d)
  case 0
  show ?case by (simp add: code_expr.simps Let_def)
next
  case (Suc n)
  show ?case using Suc [of "Suc d"] by (simp add: code_expr.simps Let_def)
qed

lemma deep_wf: "wf_expr ix (deep n)"
  by (induction n) simp_all

theorem vector_memory_witness:
  "\<exists>p. generate_code (StCons (STMT_EXPR (deep 257)) StNil) = Some p \<and>
    bc_size (p_main_vector p) < length (bc_vector (p_main_vector p))"
proof -
  let ?b = "StCons (STMT_EXPR (deep 257)) StNil"
  have wf: "wf_stmts [] ?b" using deep_wf by simp
  obtain p where p: "generate_code ?b = Some p" "made_from (program_state p) ?b (p_main_vector p)"
    using generate_code_made [OF wf] by blast
  have "FStk (0 + 257) \<in> set (operands (program_code ?b))"
    using deep_stack [of 0 257 0 None 0] by (simp add: program_code_def code_stmts.simps code_stmt.simps Let_def del: deep.simps)
  then show ?thesis using vector_memory [OF wf p(2)] p(1) by auto
qed



section \<open>Variables that are cleared\<close>



text \<open>
  A built-in function is no verb call, so the last use of a variable before
  \<^verbatim>\<open>return pass(dobj)\<close> clears it, and the verb that is passed to has no
  \<^verbatim>\<open>dobj\<close>. The marks of verb calls inside \<^verbatim>\<open>try\<close> are not looked at either.
\<close>

lemma pass_clears:
  "map_option (\<lambda>p. bc_vector (p_main_vector p))
    (generate_code (StCons (STMT_RETURN (Some (EXPR_CALL 5 (ACons ARG_NORMAL (EXPR_ID 11) ANil)))) StNil)) =
   Some [OP_PUSH_CLEAR + 11, OP_MAKE_SINGLETON_LIST, OP_BI_FUNC_CALL, 5, OP_RETURN, OP_DONE]"
  by code_simp

lemma try_clears:
  "map_option (\<lambda>p. take 12 (bc_vector (p_main_vector p)))
    (generate_code (StCons (STMT_TRY_FINALLY
       (StCons (STMT_EXPR (EXPR_ASGN (EXPR_ID 40) (EXPR_ID 11)))
       (StCons (STMT_EXPR (EXPR_VERB (EXPR_ID 6) (EXPR_VAR (VSTR ''foo'')) ANil)) StNil))
       (StCons (STMT_EXPR (EXPR_ASGN (EXPR_ID 11) (EXPR_VAR (VINT 1)))) StNil)) StNil)) =
   Some [OP_EXTENDED, EOP_TRY_FINALLY, 15, OP_PUSH_CLEAR + 11, OP_G_PUT, 40, OP_POP, OP_PUSH_CLEAR + 6,
     OP_IMM, 0, OP_MAKE_EMPTY_LIST, OP_CALL_VERB]"
  by code_simp

text \<open>The 257th variable has the number of the first.\<close>

lemma variable_256:
  "map_option (\<lambda>p. bc_vector (p_main_vector p)) (generate_code (StCons (STMT_EXPR (EXPR_ID 256)) StNil)) =
   Some [OP_G_PUSH, 0, OP_POP, OP_DONE]"
  by code_simp

text \<open>The loop of \<^verbatim>\<open>while x (1) endwhile\<close>: no opcode in it is counted with a check of the ticks.\<close>

lemma empty_while_id:
  "map_option (\<lambda>p. bc_vector (p_main_vector p))
    (generate_code (StCons (STMT_WHILE (Some 40) (EXPR_VAR (VINT 1)) StNil) StNil)) =
   Some [159, OP_EXTENDED, EOP_WHILE_ID, 40, 7, OP_JUMP, 0, OP_DONE]"
  by code_simp

end
