(* ===== verification/Floats.thy ===== *)
theory Floats
  imports CLib Values
begin

text \<open>
  Double arithmetic: what the sources use of IEEE-754 binary64, rounding to the nearest double
  and to the even one of two, and the conversions from and to integers and strings. A result
  that is not a number is one fixed pattern, since which one it is cannot be observed.
\<close>

section \<open>Parts of a double\<close>

definition f_negative :: "float64 \<Rightarrow> bool" where
  "f_negative w = (2 ^ 63 \<le> uint w)"

definition f_exponent :: "float64 \<Rightarrow> int" where
  "f_exponent w = uint w div 2 ^ 52 mod 2 ^ 11"

definition f_fraction :: "float64 \<Rightarrow> int" where
  "f_fraction w = uint w mod 2 ^ 52"

definition f_isinf :: "float64 \<Rightarrow> bool" where
  "f_isinf w = (uint w mod 2 ^ 63 = 2047 * 2 ^ 52)"

text \<open>The magnitude of a finite double is \<open>f_mantissa w * 2 ^ f_scale w\<close>.\<close>

definition f_mantissa :: "float64 \<Rightarrow> int" where
  "f_mantissa w = (if f_exponent w = 0 then f_fraction w else f_fraction w + 2 ^ 52)"

definition f_scale :: "float64 \<Rightarrow> int" where
  "f_scale w = max 1 (f_exponent w) - 1075"

definition f_signed :: "float64 \<Rightarrow> int" where
  "f_signed w = (if f_negative w then - f_mantissa w else f_mantissa w)"

text \<open>\<^verbatim>\<open>IS_REAL\<close> of \<^verbatim>\<open>my-math.h\<close>: between \<open>-DBL_MAX\<close> and \<open>DBL_MAX\<close>.\<close>

definition DBL_MAX :: float64 where
  "DBL_MAX = 0x7FEFFFFFFFFFFFFF"

definition f_neg :: "float64 \<Rightarrow> float64" where
  "f_neg w = w XOR push_bit 63 1"

definition IS_REAL :: "float64 \<Rightarrow> bool" where
  "IS_REAL w = ((f_less (f_neg DBL_MAX) w \<or> f_eq (f_neg DBL_MAX) w) \<and> (f_less w DBL_MAX \<or> f_eq w DBL_MAX))"

definition f_abs :: "float64 \<Rightarrow> float64" where
  "f_abs w = w AND mask 63"

section \<open>Rounding\<close>

definition F_NAN :: float64 where
  "F_NAN = 0x7FF8000000000000"

definition f_zero :: "bool \<Rightarrow> float64" where
  "f_zero neg = (if neg then push_bit 63 1 else 0)"

definition f_inf :: "bool \<Rightarrow> float64" where
  "f_inf neg = word_of_int ((if neg then 2 ^ 63 else 0) + 2047 * 2 ^ 52)"

fun ilog2 :: "int \<Rightarrow> int" where
  "ilog2 n = (if n < 2 then 0 else 1 + ilog2 (n div 2))"

declare ilog2.simps [simp del]

text \<open>The largest \<open>e\<close> with \<open>2 ^ e \<le> num / den\<close>.\<close>

definition quotient_log :: "int \<Rightarrow> int \<Rightarrow> int" where
  "quotient_log num den =
     (let e = ilog2 num - ilog2 den
      in if 2 ^ nat e * den \<le> num * 2 ^ nat (- e) then e else e - 1)"

text \<open>The quotient rounded to an integer, half to even.\<close>

definition round_half_even :: "int \<Rightarrow> int \<Rightarrow> int" where
  "round_half_even num den =
     (let q = num div den; r = num mod den
      in if den < 2 * r \<or> den = 2 * r \<and> odd q then q + 1 else q)"

text \<open>
  The double nearest to \<open>num / den\<close>: the mantissa has 53 bits, or fewer at the least
  exponent; one that rounds up to the next power of two carries into the exponent.
\<close>

definition f_round :: "bool \<Rightarrow> int \<Rightarrow> int \<Rightarrow> float64" where
  "f_round neg num den =
     (if num = 0 then f_zero neg
      else
        let e = max (- 1074) (quotient_log num den - 52);
            m = round_half_even (num * 2 ^ nat (- e)) (den * 2 ^ nat e);
            magnitude = (e + 1074) * 2 ^ 52 + m
        in if 2047 * 2 ^ 52 \<le> magnitude then f_inf neg
           else word_of_int ((if neg then 2 ^ 63 else 0) + magnitude))"

text \<open>\<open>n * 2 ^ s\<close>, with the given sign for zero.\<close>

definition f_make :: "bool \<Rightarrow> int \<Rightarrow> int \<Rightarrow> float64" where
  "f_make zero_neg n s =
     f_round (if n = 0 then zero_neg else n < 0) (\<bar>n\<bar> * 2 ^ nat s) (2 ^ nat (- s))"

section \<open>Arithmetic\<close>

text \<open>A signed mantissa at a smaller scale.\<close>

definition f_at :: "int \<Rightarrow> float64 \<Rightarrow> int" where
  "f_at s w = f_signed w * 2 ^ nat (f_scale w - s)"

definition f_add :: "float64 \<Rightarrow> float64 \<Rightarrow> float64" where
  "f_add a b =
     (if f_isnan a \<or> f_isnan b then F_NAN
      else if f_isinf a then (if f_isinf b \<and> f_negative a \<noteq> f_negative b then F_NAN else a)
      else if f_isinf b then b
      else let s = min (f_scale a) (f_scale b)
           in f_make (f_negative a \<and> f_negative b) (f_at s a + f_at s b) s)"

definition f_sub :: "float64 \<Rightarrow> float64 \<Rightarrow> float64" where
  "f_sub a b = (if f_isnan b then F_NAN else f_add a (f_neg b))"

definition f_mul :: "float64 \<Rightarrow> float64 \<Rightarrow> float64" where
  "f_mul a b =
     (let neg = (f_negative a \<noteq> f_negative b)
      in if f_isnan a \<or> f_isnan b then F_NAN
         else if f_isinf a \<or> f_isinf b
              then (if f_mantissa a = 0 \<or> f_mantissa b = 0 then F_NAN else f_inf neg)
         else f_make neg (f_signed a * f_signed b) (f_scale a + f_scale b))"

definition f_div :: "float64 \<Rightarrow> float64 \<Rightarrow> float64" where
  "f_div a b =
     (let neg = (f_negative a \<noteq> f_negative b); s = f_scale a - f_scale b
      in if f_isnan a \<or> f_isnan b \<or> f_isinf a \<and> f_isinf b then F_NAN
         else if f_isinf a then f_inf neg
         else if f_isinf b then f_zero neg
         else if f_mantissa b = 0 then (if f_mantissa a = 0 then F_NAN else f_inf neg)
         else f_round neg (f_mantissa a * 2 ^ nat s) (f_mantissa b * 2 ^ nat (- s)))"

text \<open>\<^verbatim>\<open>fmod\<close>: the remainder with the sign of the dividend, which is always a double.\<close>

definition f_mod :: "float64 \<Rightarrow> float64 \<Rightarrow> float64" where
  "f_mod a b =
     (if f_isnan a \<or> f_isnan b \<or> f_isinf a \<or> f_mantissa b = 0 then F_NAN
      else if f_isinf b then a
      else let s = min (f_scale a) (f_scale b); r = \<bar>f_at s a\<bar> mod \<bar>f_at s b\<bar>
           in f_make (f_negative a) (if f_negative a then - r else r) s)"

section \<open>Integers\<close>

definition f_of_int :: "int \<Rightarrow> float64" where
  "f_of_int n = f_make False n 0"

text \<open>The integer part, towards zero.\<close>

definition f_truncated :: "float64 \<Rightarrow> int" where
  "f_truncated w =
     (let n = f_mantissa w * 2 ^ nat (f_scale w) div 2 ^ nat (- f_scale w)
      in if f_negative w then - n else n)"

text \<open>The cast to \<^verbatim>\<open>int64_t\<close>; undefined outside its range.\<close>

definition f_to_int64 :: "float64 \<Rightarrow> int option" where
  "f_to_int64 w =
     (if f_isnan w \<or> f_isinf w then None
      else let n = f_truncated w in if - (2 ^ 63) \<le> n \<and> n < 2 ^ 63 then Some n else None)"

definition f_integral :: "float64 \<Rightarrow> bool" where
  "f_integral w = (f_mantissa w * 2 ^ nat (f_scale w) mod 2 ^ nat (- f_scale w) = 0)"

text \<open>
  \<^verbatim>\<open>floor\<close>, \<^verbatim>\<open>ceil\<close> and \<^verbatim>\<open>round\<close> of a finite double; others are unchanged. A zero
  keeps the sign of the argument.
\<close>

definition f_from_integral :: "float64 \<Rightarrow> int \<Rightarrow> float64" where
  "f_from_integral w n = (if f_isnan w then F_NAN else if f_isinf w then w else f_make (f_negative w) n 0)"

definition f_floor :: "float64 \<Rightarrow> float64" where
  "f_floor w = f_from_integral w (if f_negative w \<and> \<not> f_integral w then f_truncated w - 1 else f_truncated w)"

definition f_ceil :: "float64 \<Rightarrow> float64" where
  "f_ceil w = f_from_integral w (if \<not> f_negative w \<and> \<not> f_integral w then f_truncated w + 1 else f_truncated w)"

definition f_nearest :: "float64 \<Rightarrow> float64" where
  "f_nearest w =
     (let n = (2 * (f_mantissa w * 2 ^ nat (f_scale w)) + 2 ^ nat (- f_scale w)) div (2 * 2 ^ nat (- f_scale w))
      in f_from_integral w (if f_negative w then - n else n))"

section \<open>Numbers in strings\<close>

definition isxdigit :: "char \<Rightarrow> bool" where
  "isxdigit c = (isdigit c \<or> c \<in> set ''abcdefABCDEF'')"

definition xdigit_value :: "char \<Rightarrow> int" where
  "xdigit_value c = (if isdigit c then digit_value c else (int (byte_of c) - 55) mod 32)"

definition digits_in :: "int \<Rightarrow> string \<Rightarrow> int" where
  "digits_in base ds = foldl (\<lambda>n c. n * base + xdigit_value c) 0 ds"

text \<open>An exponent after its letter: value and rest; the letter is not taken without digits.\<close>

definition scan_exponent :: "string \<Rightarrow> string \<Rightarrow> int \<times> string" where
  "scan_exponent letters s =
     (case s of
        [] \<Rightarrow> (0, s)
      | c # cs \<Rightarrow>
          let t = (if is_sign cs then tl cs else cs); ds = takeWhile isdigit t; n = digits_in 10 ds
          in if c \<notin> set letters \<or> ds = [] then (0, s)
             else (if cs \<noteq> [] \<and> hd cs = CHR ''-'' then - n else n, dropWhile isdigit t))"

text \<open>Digits with an optional point: the digits before and after it, and the rest.\<close>

definition scan_fixed :: "(char \<Rightarrow> bool) \<Rightarrow> string \<Rightarrow> string \<times> string \<times> string" where
  "scan_fixed digit s =
     (let ip = takeWhile digit s; t = dropWhile digit s
      in if t \<noteq> [] \<and> hd t = CHR ''.'' \<and> (ip \<noteq> [] \<or> tl t \<noteq> [] \<and> digit (hd (tl t)))
         then (ip, takeWhile digit (tl t), dropWhile digit (tl t))
         else (ip, [], t))"

definition scan_hex :: "bool \<Rightarrow> string \<Rightarrow> (float64 \<times> string) option" where
  "scan_hex neg s =
     (case s of
        z # x # t \<Rightarrow>
          let (ip, fp, u) = scan_fixed isxdigit t; (e, rest) = scan_exponent ''pP'' u
          in if z = CHR ''0'' \<and> x \<in> set ''xX'' \<and> ip @ fp \<noteq> []
             then Some (f_make neg ((if neg then - 1 else 1) * digits_in 16 (ip @ fp))
                    (e - 4 * int (length fp)), rest)
             else None
      | _ \<Rightarrow> None)"

definition scan_decimal :: "bool \<Rightarrow> string \<Rightarrow> (float64 \<times> string) option" where
  "scan_decimal neg s =
     (let (ip, fp, u) = scan_fixed isdigit s; (e, rest) = scan_exponent ''eE'' u;
          n = digits_in 10 (ip @ fp); k = e - int (length fp)
      in if ip @ fp = [] then None
         else Some (f_round neg (n * 10 ^ nat k) (10 ^ nat (- k)), rest))"

definition starts_with :: "string \<Rightarrow> string \<Rightarrow> bool" where
  "starts_with w s = (map cmap (take (length w) s) = w)"

definition is_n_char :: "char \<Rightarrow> bool" where
  "is_n_char c = (isdigit c \<or> 97 \<le> byte_of (cmap c) \<and> byte_of (cmap c) \<le> 122 \<or> c = CHR ''_'')"

definition scan_special :: "bool \<Rightarrow> string \<Rightarrow> (float64 \<times> string) option" where
  "scan_special neg s =
     (if starts_with ''infinity'' s then Some (f_inf neg, drop 8 s)
      else if starts_with ''inf'' s then Some (f_inf neg, drop 3 s)
      else if starts_with ''nan'' s
           then (let t = dropWhile is_n_char (drop 4 s)
                 in Some (F_NAN, if starts_with ''('' (drop 3 s) \<and> starts_with '')'' t then tl t else drop 3 s))
      else None)"

text \<open>\<^verbatim>\<open>strtod\<close>: value and rest; nothing is taken from a string that is no number.\<close>

definition strtod :: "string \<Rightarrow> float64 \<times> string" where
  "strtod s =
     (let s1 = dropWhile isspace s;
          neg = (s1 \<noteq> [] \<and> hd s1 = CHR ''-'');
          s2 = (if is_sign s1 then tl s1 else s1)
      in case scan_hex neg s2 of
           Some r \<Rightarrow> r
         | None \<Rightarrow>
             (case scan_decimal neg s2 of
                Some r \<Rightarrow> r
              | None \<Rightarrow> (case scan_special neg s2 of Some r \<Rightarrow> r | None \<Rightarrow> (0, s))))"

end
