(* ===== verification/Numbers.thy ===== *)
theory Numbers
  imports Floats Commands Objects "HOL-Library.Signed_Division"
begin

text \<open>
  Numbers (\<^verbatim>\<open>numbers.cc\<close>): reading them from strings, converting values to them,
  arithmetic and the built-in functions on them. Sums, differences and products of integers
  wrap around. \<open>None\<close> is a crash or a cast or a read that C leaves undefined: the
  quotient of the least integer and -1 among them, which traps. What the sources use of the mathematical library
  beyond rounding to integers is a parameter, a function to a result and
  \<^verbatim>\<open>errno\<close>.
\<close>

section \<open>Parsing\<close>

definition only_spaces :: "string \<Rightarrow> bool" where
  "only_spaces p = list_all (\<lambda>c. c = SPACE) p"

text \<open>
  The number read, or \<open>None\<close> where the function returns 0. The outer \<open>None\<close> is a
  cast out of range.
\<close>

definition parse_number :: "string \<Rightarrow> bool \<Rightarrow> num option option" where
  "parse_number str try_floating_point =
     (let (n, p) = strtol str
      in if try_floating_point \<and> (p = str \<or> (p \<noteq> [] \<and> hd p \<in> set ''.eE''))
         then (let (d, q) = strtod str
               in case f_to_int64 d of
                    None \<Rightarrow> None
                  | Some k \<Rightarrow> Some (if q \<noteq> str \<and> only_spaces q then Some (word_of_int k) else None))
         else Some (if p \<noteq> str \<and> only_spaces p then Some (word_of_int n) else None))"

definition parse_object :: "string \<Rightarrow> num option option" where
  "parse_object str =
     (let s = skip_spaces str
      in parse_number (if s \<noteq> [] \<and> hd s = CHR ''#'' then tl s else s) False)"

definition parse_float :: "string \<Rightarrow> float64 option" where
  "parse_float str =
     (let s = skip_spaces str;
          negative = (s \<noteq> [] \<and> hd s = CHR ''-'');
          t = (if negative then tl s else s);
          (d, p) = strtod t
      in if p = t \<or> \<not> only_spaces p then None
         else Some (if negative then f_neg d else d))"

section \<open>Conversions\<close>

text \<open>
  The error, or \<open>E_NONE\<close> and the number. The values of the types the interpreter keeps
  to itself are only logged; what is returned then is not initialized.
\<close>

definition become_integer :: "var \<Rightarrow> bool \<Rightarrow> (error + num) option" where
  "become_integer x called_from_toint =
     (case x of
        VINT n \<Rightarrow> Some (Inr n)
      | VSTR s \<Rightarrow>
          (case (if called_from_toint then parse_number s True else parse_object s) of
             None \<Rightarrow> None
           | Some r \<Rightarrow> Some (Inr (case r of None \<Rightarrow> 0 | Some n \<Rightarrow> n)))
      | VOBJ i \<Rightarrow> Some (Inr (word_of_int i))
      | VERR e \<Rightarrow> Some (Inr (word_of_int (error_code e)))
      | VFLOAT f \<Rightarrow>
          (if \<not> IS_REAL f then Some (Inl E_FLOAT)
           else map_option (\<lambda>k. Inr (word_of_int k)) (f_to_int64 f))
      | VBOOL b \<Rightarrow> Some (Inr (of_bool b))
      | VMAP _ \<Rightarrow> Some (Inl E_TYPE)
      | VLIST _ \<Rightarrow> Some (Inl E_TYPE)
      | VANON _ \<Rightarrow> Some (Inl E_TYPE)
      | VWAIF _ \<Rightarrow> Some (Inl E_TYPE)
      | _ \<Rightarrow> None)"

definition become_float :: "var \<Rightarrow> (error + float64) option" where
  "become_float x =
     (case x of
        VINT n \<Rightarrow> Some (Inr (f_of_int (sint n)))
      | VSTR s \<Rightarrow>
          Some (case parse_float s of
                  None \<Rightarrow> Inl E_INVARG
                | Some f \<Rightarrow> if IS_REAL f then Inr f else Inl E_INVARG)
      | VOBJ i \<Rightarrow> Some (Inr (f_of_int i))
      | VERR e \<Rightarrow> Some (Inr (f_of_int (error_code e)))
      | VFLOAT f \<Rightarrow> Some (Inr f)
      | VMAP _ \<Rightarrow> Some (Inl E_TYPE)
      | VLIST _ \<Rightarrow> Some (Inl E_TYPE)
      | VANON _ \<Rightarrow> Some (Inl E_TYPE)
      | VWAIF _ \<Rightarrow> Some (Inl E_TYPE)
      | VBOOL _ \<Rightarrow> Some (Inl E_TYPE)
      | _ \<Rightarrow> None)"

section \<open>Comparison\<close>

text \<open>At least one argument is a float.\<close>

definition do_equals :: "var \<Rightarrow> var \<Rightarrow> bool" where
  "do_equals lhs rhs = (type_of lhs = type_of rhs \<and> f_eq (v_fnum lhs) (v_fnum rhs))"

definition compare_integers :: "num \<Rightarrow> num \<Rightarrow> int" where
  "compare_integers a b = (if sint a < sint b then - 1 else if sint b < sint a then 1 else 0)"

text \<open>The arguments of this function and of arithmetic are numbers.\<close>

definition compare_numbers :: "var \<Rightarrow> var \<Rightarrow> var option" where
  "compare_numbers a b =
     (if type_of a \<noteq> type_of b then Some (VERR E_TYPE)
      else case (a, b) of
          (VINT m, VINT n) \<Rightarrow> Some (VINT (if sint m < sint n then - 1 else if sint n < sint m then 1 else 0))
        | (VFLOAT m, VFLOAT n) \<Rightarrow> Some (VINT (if f_less m n then - 1 else if f_less n m then 1 else 0))
        | _ \<Rightarrow> None)"

section \<open>Arithmetic\<close>

definition simple_binary ::
  "(num \<Rightarrow> num \<Rightarrow> num) \<Rightarrow> (float64 \<Rightarrow> float64 \<Rightarrow> float64) \<Rightarrow> var \<Rightarrow> var \<Rightarrow> var option" where
  "simple_binary iop fop a b =
     (if type_of a \<noteq> type_of b then Some (VERR E_TYPE)
      else case (a, b) of
          (VINT m, VINT n) \<Rightarrow> Some (VINT (iop m n))
        | (VFLOAT m, VFLOAT n) \<Rightarrow>
            (let d = fop m n in Some (if \<not> IS_REAL d then VERR E_FLOAT else VFLOAT d))
        | _ \<Rightarrow> None)"

definition do_add :: "var \<Rightarrow> var \<Rightarrow> var option" where
  "do_add = simple_binary (+) f_add"

definition do_subtract :: "var \<Rightarrow> var \<Rightarrow> var option" where
  "do_subtract = simple_binary (-) f_sub"

definition do_multiply :: "var \<Rightarrow> var \<Rightarrow> var option" where
  "do_multiply = simple_binary (*) f_mul"

text \<open>
  The quotient and the remainder of the processor, towards zero; it traps when the quotient
  is out of range. \<^verbatim>\<open>MININT\<close> of \<^verbatim>\<open>structures.h\<close> is not the least integer.
\<close>

definition MININT :: num where
  "MININT = word_of_int (- 9223372036854775807)"

definition INT64_MIN :: num where
  "INT64_MIN = word_of_int (- (2 ^ 63))"

definition idiv :: "num \<Rightarrow> num \<Rightarrow> num option" where
  "idiv n d =
     (if d = 0 \<or> (n = INT64_MIN \<and> d = - 1) then None else Some (word_of_int (sint n sdiv sint d)))"

definition irem :: "num \<Rightarrow> num \<Rightarrow> num option" where
  "irem n d =
     (if d = 0 \<or> (n = INT64_MIN \<and> d = - 1) then None else Some (word_of_int (sint n smod sint d)))"

definition do_modulus :: "var \<Rightarrow> var \<Rightarrow> var option" where
  "do_modulus a b =
     (if type_of a \<noteq> type_of b then Some (VERR E_TYPE)
      else case (a, b) of
          (VINT n, VINT d) \<Rightarrow>
            (if d = 0 then Some (VERR E_DIV)
             else case irem n d of
                    None \<Rightarrow> None
                  | Some r \<Rightarrow> map_option VINT (irem (r + d) d))
        | (VFLOAT n, VFLOAT d) \<Rightarrow>
            Some (if f_eq d 0 then VERR E_DIV else VFLOAT (f_mod (f_add (f_mod n d) d) d))
        | _ \<Rightarrow> None)"

definition do_divide :: "var \<Rightarrow> var \<Rightarrow> var option" where
  "do_divide a b =
     (if type_of a \<noteq> type_of b then Some (VERR E_TYPE)
      else case (a, b) of
          (VINT m, VINT n) \<Rightarrow>
            (if n = 0 then Some (VERR E_DIV)
             else if m = MININT \<and> n = - 1 then Some (VINT MININT)
             else map_option VINT (idiv m n))
        | (VFLOAT m, VFLOAT n) \<Rightarrow>
            (if f_eq n 0 then Some (VERR E_DIV)
             else let d = f_div m n in Some (if \<not> IS_REAL d then VERR E_FLOAT else VFLOAT d))
        | _ \<Rightarrow> None)"

text \<open>The loop of \<^verbatim>\<open>do_power\<close> on an exponent that is not negative.\<close>

function power_loop :: "num \<Rightarrow> num \<Rightarrow> num \<Rightarrow> num" where
  "power_loop r a b =
     (if b = 0 then r
      else power_loop (if b AND 1 \<noteq> 0 then r * a else r) (a * a) (drop_bit 1 b))"
  by auto
termination
  by (relation "measure (\<lambda>(r, a, b). unat b)") (auto simp: drop_bit_Suc unat_div_distrib unat_gt_0)

declare power_loop.simps [simp del]

definition do_power :: "(float64 \<Rightarrow> float64 \<Rightarrow> float64 \<times> int) \<Rightarrow> var \<Rightarrow> var \<Rightarrow> var" where
  "do_power pow lhs rhs =
     (let float_power = (\<lambda>x y. let (d, errno) = pow x y
                                in if errno \<noteq> 0 \<or> \<not> IS_REAL d then VERR E_FLOAT else VFLOAT d)
      in case lhs of
          VINT a \<Rightarrow>
            (case rhs of
               VINT b \<Rightarrow>
                 (if sint b < 0
                  then (if a = - 1 then VINT (if b AND 1 \<noteq> 0 then 1 else - 1)
                        else if a = 0 then VERR E_DIV
                        else if a = 1 then VINT 1
                        else VINT 0)
                  else VINT (power_loop 1 a b))
             | _ \<Rightarrow> VERR E_TYPE)
        | VFLOAT x \<Rightarrow>
            (case rhs of
               VINT b \<Rightarrow> float_power x (f_of_int (sint b))
             | VFLOAT y \<Rightarrow> float_power x y
             | _ \<Rightarrow> VERR E_TYPE)
        | _ \<Rightarrow> VERR E_TYPE)"

section \<open>Built-in functions\<close>

definition bf_toint :: "var list \<Rightarrow> 'd package option" where
  "bf_toint arglist =
     (case arglist of
        [x] \<Rightarrow> map_option (\<lambda>r. case r of Inl e \<Rightarrow> BI_RAISE e | Inr n \<Rightarrow> BI_RETURN (VINT n)) (become_integer x True)
      | _ \<Rightarrow> None)"

definition bf_tofloat :: "var list \<Rightarrow> 'd package option" where
  "bf_tofloat arglist =
     (case arglist of
        [x] \<Rightarrow> map_option (\<lambda>r. case r of Inl e \<Rightarrow> BI_RAISE e | Inr f \<Rightarrow> BI_RETURN (VFLOAT f)) (become_float x)
      | _ \<Rightarrow> None)"

text \<open>
  The loops of \<^verbatim>\<open>min\<close> and \<^verbatim>\<open>max\<close>: the best number so far, and whether a
  number of the other type was met.
\<close>

fun best_int :: "(num \<Rightarrow> num \<Rightarrow> bool) \<Rightarrow> num \<Rightarrow> bool \<Rightarrow> var list \<Rightarrow> num \<times> bool" where
  "best_int better r bad [] = (r, bad)"
| "best_int better r bad (VINT n # xs) = best_int better (if better n r then n else r) bad xs"
| "best_int better r bad (_ # xs) = best_int better r True xs"

fun best_float :: "(float64 \<Rightarrow> float64 \<Rightarrow> bool) \<Rightarrow> float64 \<Rightarrow> bool \<Rightarrow> var list \<Rightarrow> float64 \<times> bool" where
  "best_float better r bad [] = (r, bad)"
| "best_float better r bad (VFLOAT f # xs) = best_float better (if better f r then f else r) bad xs"
| "best_float better r bad (_ # xs) = best_float better r True xs"

definition extremum :: "(num \<Rightarrow> num \<Rightarrow> bool) \<Rightarrow> (float64 \<Rightarrow> float64 \<Rightarrow> bool) \<Rightarrow> var list \<Rightarrow> 'd package option" where
  "extremum ibetter fbetter arglist =
     (case arglist of
        VINT n # xs \<Rightarrow>
          (let (r, bad_types) = best_int ibetter n False xs
           in Some (if bad_types then BI_RAISE E_TYPE else BI_RETURN (VINT r)))
      | VFLOAT f # xs \<Rightarrow>
          (let (r, bad_types) = best_float fbetter f False xs
           in Some (if bad_types then BI_RAISE E_TYPE else BI_RETURN (VFLOAT r)))
      | _ \<Rightarrow> None)"

definition bf_min :: "var list \<Rightarrow> 'd package option" where
  "bf_min = extremum (\<lambda>a b. sint a < sint b) f_less"

definition bf_max :: "var list \<Rightarrow> 'd package option" where
  "bf_max = extremum (\<lambda>a b. sint b < sint a) (\<lambda>a b. f_less b a)"

definition bf_abs :: "var list \<Rightarrow> 'd package option" where
  "bf_abs arglist =
     (case arglist of
        [VINT n] \<Rightarrow> Some (BI_RETURN (VINT (if sint n < 0 then - n else n)))
      | [VFLOAT f] \<Rightarrow> Some (BI_RETURN (VFLOAT (f_abs f)))
      | _ \<Rightarrow> None)"

definition EDOM :: int where
  "EDOM = 33"

definition float_pack :: "int \<Rightarrow> float64 \<Rightarrow> 'd package" where
  "float_pack errno d =
     (if errno = EDOM then BI_RAISE E_INVARG
      else if errno \<noteq> 0 \<or> \<not> IS_REAL d then BI_RAISE E_FLOAT
      else BI_RETURN (VFLOAT d))"

text \<open>\<^verbatim>\<open>MATH_FUNC\<close>, for a function of the mathematical library.\<close>

definition math_func :: "(float64 \<Rightarrow> float64 \<times> int) \<Rightarrow> var list \<Rightarrow> 'd package option" where
  "math_func f arglist =
     (case arglist of
        [VFLOAT x] \<Rightarrow> (let (d, errno) = f x in Some (float_pack errno d))
      | _ \<Rightarrow> None)"

definition bf_trunc :: "var list \<Rightarrow> 'd package option" where
  "bf_trunc arglist =
     (case arglist of
        [VFLOAT d] \<Rightarrow> Some (float_pack 0 (if f_less d 0 then f_ceil d else f_floor d))
      | _ \<Rightarrow> None)"

definition bf_atan ::
  "(float64 \<Rightarrow> float64 \<times> int) \<Rightarrow> (float64 \<Rightarrow> float64 \<Rightarrow> float64 \<times> int) \<Rightarrow> var list \<Rightarrow> 'd package option" where
  "bf_atan atan atan2 arglist =
     (case arglist of
        [VFLOAT d] \<Rightarrow> (let (r, errno) = atan d in Some (float_pack errno r))
      | [VFLOAT d, VFLOAT dd] \<Rightarrow> (let (r, errno) = atan2 d dd in Some (float_pack errno r))
      | _ \<Rightarrow> None)"

text \<open>
  \<^verbatim>\<open>bf_atan2\<close> does not reset \<^verbatim>\<open>errno\<close>: what an earlier call has left counts when
  this one leaves it alone.
\<close>

definition bf_atan2 :: "(float64 \<Rightarrow> float64 \<Rightarrow> float64 \<times> int) \<Rightarrow> int \<Rightarrow> var list \<Rightarrow> 'd package option" where
  "bf_atan2 atan2 left arglist =
     (case arglist of
        [VFLOAT y, VFLOAT x] \<Rightarrow>
          (let (r, errno) = atan2 y x
           in Some (if (if errno = 0 then left else errno) = EDOM then BI_RAISE E_INVARG else BI_RETURN (VFLOAT r)))
      | _ \<Rightarrow> None)"

text \<open>
  \<^verbatim>\<open>bf_random\<close>: \<open>draw\<close> is the uniform distribution between its arguments.
\<close>

definition bf_random :: "(num \<Rightarrow> num \<Rightarrow> num) \<Rightarrow> var list \<Rightarrow> 'd package option" where
  "bf_random draw arglist =
     (let between = (\<lambda>minnum maxnum.
            if sint maxnum < sint minnum then BI_RAISE E_INVARG else BI_RETURN (VINT (draw minnum maxnum)))
      in case arglist of
          [] \<Rightarrow> Some (between 1 (word_of_int (2 ^ 63 - 1)))
        | [VINT n] \<Rightarrow> Some (between 1 n)
        | [VINT m, VINT n] \<Rightarrow> Some (between m n)
        | _ \<Rightarrow> None)"

definition bf_round :: "var list \<Rightarrow> 'd package option" where
  "bf_round arglist =
     (case arglist of
        [VFLOAT f] \<Rightarrow> Some (BI_RETURN (VFLOAT (f_nearest f)))
      | _ \<Rightarrow> None)"

text \<open>
  \<^verbatim>\<open>bf_distance\<close> counts along the first list; the second may be shorter, and is read
  beyond its end then.
\<close>

definition v_double :: "var \<Rightarrow> float64 option" where
  "v_double x = (case x of VINT n \<Rightarrow> Some (f_of_int (sint n)) | VFLOAT f \<Rightarrow> Some f | _ \<Rightarrow> None)"

fun sum_of_squares :: "float64 \<Rightarrow> var list \<Rightarrow> var list \<Rightarrow> (error + float64) option" where
  "sum_of_squares ret [] ys = Some (Inr ret)"
| "sum_of_squares ret (x # xs) [] = (if v_double x = None then Some (Inl E_TYPE) else None)"
| "sum_of_squares ret (x # xs) (y # ys) =
     (case (v_double x, v_double y) of
        (Some a, Some b) \<Rightarrow> (let tmp = f_sub b a in sum_of_squares (f_add ret (f_mul tmp tmp)) xs ys)
      | _ \<Rightarrow> Some (Inl E_TYPE))"

definition bf_distance :: "(float64 \<Rightarrow> float64) \<Rightarrow> var list \<Rightarrow> 'd package option" where
  "bf_distance sqrt arglist =
     (case arglist of
        [VLIST xs, VLIST ys] \<Rightarrow>
          map_option (\<lambda>r. case r of Inl e \<Rightarrow> BI_RAISE e | Inr d \<Rightarrow> BI_RETURN (VFLOAT (sqrt d))) (sum_of_squares 0 xs ys)
      | _ \<Rightarrow> None)"

text \<open>
  \<^verbatim>\<open>bf_relative_heading\<close> reads three elements of each list, whatever their lengths, until one is no
  float. A bearing is cast to \<^verbatim>\<open>int\<close>, of 32 bits.
\<close>

fun first_three :: "var list \<Rightarrow> (error + float64 list) option" where
  "first_three (VFLOAT a # VFLOAT b # VFLOAT c # xs) = Some (Inr [a, b, c])"
| "first_three [] = None"
| "first_three [VFLOAT a] = None"
| "first_three [VFLOAT a, VFLOAT b] = None"
| "first_three _ = Some (Inl E_TYPE)"

definition f_to_int32 :: "float64 \<Rightarrow> int option" where
  "f_to_int32 w =
     (case f_to_int64 w of
        None \<Rightarrow> None
      | Some n \<Rightarrow> if - (2 ^ 31) \<le> n \<and> n < 2 ^ 31 then Some n else None)"

definition DEGREES :: float64 where
  "DEGREES = fst (strtod ''57.2957795130823'')"

definition heading ::
  "(float64 \<Rightarrow> float64 \<Rightarrow> float64) \<Rightarrow> (float64 \<Rightarrow> float64) \<Rightarrow> float64 list \<Rightarrow> float64 list \<Rightarrow> 'd package option" where
  "heading atan2 sqrt p q =
     (let dx = f_sub (q ! 0) (p ! 0); dy = f_sub (q ! 1) (p ! 1); dz = f_sub (q ! 2) (p ! 2);
          xy = f_mul (atan2 dy dx) DEGREES;
          xy = (if f_less xy 0 then f_add xy (f_of_int 360) else xy);
          z = f_mul (atan2 dz (sqrt (f_add (f_mul dx dx) (f_mul dy dy)))) DEGREES
      in case (f_to_int32 xy, f_to_int32 z) of
          (Some m, Some n) \<Rightarrow> Some (BI_RETURN (VLIST [VINT (word_of_int m), VINT (word_of_int n)]))
        | _ \<Rightarrow> None)"

definition bf_relative_heading ::
  "(float64 \<Rightarrow> float64 \<Rightarrow> float64) \<Rightarrow> (float64 \<Rightarrow> float64) \<Rightarrow> var list \<Rightarrow> 'd package option" where
  "bf_relative_heading atan2 sqrt arglist =
     (case arglist of
        [VLIST xs, VLIST ys] \<Rightarrow>
          (case first_three xs of
             None \<Rightarrow> None
           | Some (Inl e) \<Rightarrow> Some (BI_RAISE e)
           | Some (Inr p) \<Rightarrow>
               (case first_three ys of
                  None \<Rightarrow> None
                | Some (Inl e) \<Rightarrow> Some (BI_RAISE e)
                | Some (Inr q) \<Rightarrow> heading atan2 sqrt p q))
      | _ \<Rightarrow> None)"

end
