(* ===== verification/NumberProps.thy ===== *)
theory NumberProps
  imports Numbers
begin

text \<open>
  What arithmetic does: quotients and remainders of integers against division on the
  integers, powers, which operations yield only real floats, and the lists that are read
  beyond their end.
\<close>

section \<open>Signed readings\<close>

lemma sint_in: "- (2 ^ 63) \<le> sint (w :: num)" "sint (w :: num) < 2 ^ 63"
  using sint_greater_eq [of w] sint_less [of w] by simp_all

lemma sint_of: "- (2 ^ 63) \<le> k \<Longrightarrow> k < 2 ^ 63 \<Longrightarrow> sint (word_of_int k :: num) = k"
  by (simp add: signed_take_bit_int_eq_self sint_sbintrunc')

lemma sint_eqI: "sint (a :: num) = sint b \<Longrightarrow> a = b"
  using signed_word_eqI by blast

lemma least_iff: "n = INT64_MIN \<longleftrightarrow> sint n = - (2 ^ 63)"
  unfolding INT64_MIN_def using sint_of [of "- (2 ^ 63)"] sint_eqI [of n "word_of_int (- (2 ^ 63))"] by auto

lemma minint_iff: "n = MININT \<longleftrightarrow> sint n = - (2 ^ 63) + 1"
  unfolding MININT_def using sint_of [of "- (2 ^ 63) + 1"] sint_eqI [of n "word_of_int (- 9223372036854775807)"] by auto

lemma minus_one_iff: "(d :: num) = - 1 \<longleftrightarrow> sint d = - 1"
  using sint_of [of "- 1"] sint_eqI [of d "- 1"] by auto

lemma sint_zero_iff: "(d :: num) = 0 \<longleftrightarrow> sint d = 0"
  using sint_eqI [of d 0] by auto

section \<open>Division towards zero\<close>

lemma smod_bounds:
  assumes "(d :: int) \<noteq> 0"
  shows "\<bar>n smod d\<bar> < \<bar>d\<bar>" "0 < n \<Longrightarrow> 0 \<le> n smod d" "n \<le> 0 \<Longrightarrow> n smod d \<le> 0"
proof -
  have "0 \<le> \<bar>n\<bar> mod \<bar>d\<bar>" "\<bar>n\<bar> mod \<bar>d\<bar> < \<bar>d\<bar>" using assms by simp_all
  then show "\<bar>n smod d\<bar> < \<bar>d\<bar>" "0 < n \<Longrightarrow> 0 \<le> n smod d" "n \<le> 0 \<Longrightarrow> n smod d \<le> 0"
    unfolding smod_int_alt_def using assms by (auto simp: sgn_if)
qed

lemma smod_congr: "(n :: int) smod d mod d = n mod d"
proof -
  have "n mod d = (n sdiv d * d + n smod d) mod d" by (simp only: sdiv_mult_smod_eq)
  then show ?thesis by simp
qed

lemma smod_pos: "0 \<le> (x :: int) \<Longrightarrow> 0 < d \<Longrightarrow> x smod d = x mod d"
  by (auto simp: smod_int_alt_def sgn_if)

lemma smod_neg: "(x :: int) \<le> 0 \<Longrightarrow> d < 0 \<Longrightarrow> x smod d = x mod d"
  by (auto simp: smod_int_alt_def sgn_if)

lemma smod_plus:
  assumes "(d :: int) \<noteq> 0"
  shows "(n smod d + d) smod d = n mod d"
proof -
  have "\<bar>n smod d\<bar> < \<bar>d\<bar>" using smod_bounds assms by blast
  then have "(n smod d + d) smod d = (n smod d + d) mod d"
    using assms smod_pos [of "n smod d + d" d] smod_neg [of "n smod d + d" d] by (cases "0 < d") simp_all
  then show ?thesis by (simp add: smod_congr)
qed

lemma sdiv_range:
  assumes "- (2 ^ 63) \<le> n" "n < 2 ^ 63" "d \<noteq> 0" "\<not> (n = - (2 ^ 63) \<and> d = - 1)"
  shows "- (2 ^ 63) \<le> n sdiv d" "n sdiv d < (2 :: int) ^ 63"
proof -
  have "0 \<le> \<bar>n\<bar> div \<bar>d\<bar>" using assms(3) by (simp add: pos_imp_zdiv_nonneg_iff)
  then have abs: "\<bar>n sdiv d\<bar> = \<bar>n\<bar> div \<bar>d\<bar>" using assms(3)
    by (cases "n = 0") (simp_all add: signed_divide_int_def abs_mult abs_sgn_eq)
  consider "d = 1" | "d = - 1" | "2 \<le> \<bar>d\<bar>" using assms(3) by linarith
  then have "- (2 ^ 63) \<le> n sdiv d \<and> n sdiv d < 2 ^ 63"
  proof cases
    case 3
    have "\<bar>n\<bar> div \<bar>d\<bar> \<le> \<bar>n\<bar> div 2" by (rule zdiv_mono2) (use 3 in auto)
    then show ?thesis using abs assms by linarith
  qed (use assms in auto)
  then show "- (2 ^ 63) \<le> n sdiv d" "n sdiv d < (2 :: int) ^ 63" by auto
qed

lemma sint_idiv:
  "b \<noteq> 0 \<Longrightarrow> idiv a b = (if sint a = - (2 ^ 63) \<and> sint b = - 1 then None else Some (word_of_int (sint a sdiv sint b)))"
  by (simp add: idiv_def least_iff minus_one_iff)

lemma sint_irem:
  "b \<noteq> 0 \<Longrightarrow> irem a b = (if sint a = - (2 ^ 63) \<and> sint b = - 1 then None else Some (word_of_int (sint a smod sint b)))"
  by (simp add: irem_def least_iff minus_one_iff)

text \<open>The sum in \<^verbatim>\<open>do_modulus\<close>, which may wrap around.\<close>

lemma wrapped_sum:
  assumes "- (2 ^ 64) < s" "s < (2 :: int) ^ 64"
  shows "sint (word_of_int s :: num) = (if s < - (2 ^ 63) then s + 2 ^ 64 else if s < 2 ^ 63 then s else s - 2 ^ 64)"
proof -
  have e: "(word_of_int (s - 2 ^ 64) :: num) = word_of_int s" "(word_of_int (s + 2 ^ 64) :: num) = word_of_int s"
    by simp_all
  show ?thesis
    using assms sint_of [of s] sint_of [of "s - 2 ^ 64", unfolded e(1)] sint_of [of "s + 2 ^ 64", unfolded e(2)] by auto
qed

lemma modulus_wraps:
  fixes n d :: int
  assumes "n smod d + d < - (2 ^ 63) \<or> 2 ^ 63 \<le> n smod d + d" "- (2 ^ 63) \<le> d" "d < 2 ^ 63" "d \<noteq> 0"
    and w: "w = (if n smod d + d < - (2 ^ 63) then n smod d + d + 2 ^ 64 else n smod d + d - 2 ^ 64)"
  shows "w smod d \<noteq> n mod d"
proof -
  have lt: "\<bar>n smod d\<bar> < \<bar>d\<bar>" using smod_bounds assms(4) by blast
  have same: "n mod d = n smod d" if "0 < n smod d \<and> 0 < d \<or> n smod d < 0 \<and> d < 0"
    using that lt smod_congr [of n d] by auto
  show ?thesis
  proof (cases "2 ^ 63 \<le> n smod d + d")
    case True
    then have "0 < n smod d" "0 < d" "w \<le> 0" using lt assms(2,3) w by auto
    then show ?thesis using smod_bounds(3) [OF assms(4), of w] same by auto
  next
    case False
    then have "n smod d < 0" "d < 0" "0 < w" using lt assms w by auto
    then show ?thesis using smod_bounds(2) [OF assms(4), of w] same by auto
  qed
qed

lemma modulus_result:
  assumes "b \<noteq> 0" "\<not> (sint a = - (2 ^ 63) \<and> sint b = - 1)"
  obtains r where "do_modulus (VINT a) (VINT b) = Some (VINT r)"
    "sint r = sint a mod sint b \<longleftrightarrow> - (2 ^ 63) \<le> sint a smod sint b + sint b \<and> sint a smod sint b + sint b < 2 ^ 63"
proof -
  let ?a = "sint a" and ?b = "sint b"
  let ?s = "?a smod ?b + ?b"
  define W :: num where "W = word_of_int (?a smod ?b) + b"
  let ?w = "sint W"
  have b: "?b \<noteq> 0" using assms by (simp add: sint_zero_iff)
  have lt: "\<bar>?a smod ?b\<bar> < \<bar>?b\<bar>" using smod_bounds b by blast
  have w: "?w = (if ?s < - (2 ^ 63) then ?s + 2 ^ 64 else if ?s < 2 ^ 63 then ?s else ?s - 2 ^ 64)"
    using wrapped_sum [of ?s] lt sint_in [of b] by (simp add: W_def)
  have "?b = - 1 \<Longrightarrow> ?w \<noteq> - (2 ^ 63)" using lt w by auto
  then have m: "do_modulus (VINT a) (VINT b) = Some (VINT (word_of_int (?w smod ?b)))"
    using assms by (auto simp: do_modulus_def sint_irem W_def [symmetric])
  have "\<bar>?w smod ?b\<bar> < \<bar>?b\<bar>" using smod_bounds b by blast
  then have r: "sint (word_of_int (?w smod ?b) :: num) = ?w smod ?b"
    by (intro sint_of) (use sint_in [of b] in auto)
  have "?w smod ?b = ?a mod ?b \<longleftrightarrow> - (2 ^ 63) \<le> ?s \<and> ?s < 2 ^ 63"
  proof (cases "- (2 ^ 63) \<le> ?s \<and> ?s < 2 ^ 63")
    case True
    then show ?thesis using w smod_plus [OF b, of ?a] by auto
  next
    case False
    then show ?thesis using modulus_wraps [of ?a ?b ?w] w sint_in [of b] b by auto
  qed
  then show ?thesis using that [OF m] r by simp
qed

lemma quotient_result:
  assumes "b \<noteq> 0" "\<not> (sint a = - (2 ^ 63) \<and> sint b = - 1)"
  obtains q where "do_divide (VINT a) (VINT b) = Some (VINT q)"
    "sint q = sint a sdiv sint b \<longleftrightarrow> \<not> (a = MININT \<and> b = - 1)"
proof (cases "a = MININT \<and> b = - 1")
  case True
  then have "sint a = - (2 ^ 63) + 1" "sint b = - 1" by (simp_all add: minint_iff)
  then show ?thesis using that [of MININT] True by (simp add: do_divide_def minint_iff [symmetric])
next
  case False
  have b: "sint b \<noteq> 0" using assms by (simp add: sint_zero_iff)
  show ?thesis
    using that [of "word_of_int (sint a sdiv sint b)"] sint_of sdiv_range [OF sint_in b assms(2)] assms False
    by (auto simp: do_divide_def sint_idiv)
qed

text \<open>
  C14: Integer division truncates towards zero and integer remainder rounds towards minus
  infinity, with three exceptions: both trap for the least integer and -1; the quotient is
  wrong for the least integer plus one and -1, where a guard meant for the trap stands; and
  the remainder is wrong exactly when the sum in it wraps around.
\<close>

theorem integer_division:
  assumes "b \<noteq> 0"
  shows "(do_divide (VINT a) (VINT b) = None \<longleftrightarrow> a = INT64_MIN \<and> b = - 1)
    \<and> (do_modulus (VINT a) (VINT b) = None \<longleftrightarrow> a = INT64_MIN \<and> b = - 1)
    \<and> (a \<noteq> INT64_MIN \<or> b \<noteq> - 1 \<longrightarrow>
        (\<exists>q r. do_divide (VINT a) (VINT b) = Some (VINT q) \<and> do_modulus (VINT a) (VINT b) = Some (VINT r)
          \<and> (sint q = sint a sdiv sint b \<longleftrightarrow> \<not> (a = MININT \<and> b = - 1))
          \<and> (sint r = sint a mod sint b \<longleftrightarrow> - (2 ^ 63) \<le> sint a smod sint b + sint b \<and> sint a smod sint b + sint b < 2 ^ 63)))"
proof (cases "a = INT64_MIN \<and> b = - 1")
  case True
  then have "sint a = - (2 ^ 63)" "sint b = - 1" "a \<noteq> MININT"
    using least_iff [of a] minint_iff [of a] by auto
  then show ?thesis using True assms by (simp add: do_divide_def do_modulus_def sint_idiv sint_irem)
next
  case False
  then have f: "\<not> (sint a = - (2 ^ 63) \<and> sint b = - 1)" by (simp add: least_iff minus_one_iff)
  obtain q where "do_divide (VINT a) (VINT b) = Some (VINT q)" "sint q = sint a sdiv sint b \<longleftrightarrow> \<not> (a = MININT \<and> b = - 1)"
    by (rule quotient_result [OF assms f])
  moreover obtain r where "do_modulus (VINT a) (VINT b) = Some (VINT r)"
    "sint r = sint a mod sint b \<longleftrightarrow> - (2 ^ 63) \<le> sint a smod sint b + sint b \<and> sint a smod sint b + sint b < 2 ^ 63"
    by (rule modulus_result [OF assms f])
  ultimately show ?thesis using False by auto
qed

theorem integer_division_witness:
  "do_divide (VINT INT64_MIN) (VINT (- 1)) = None
   \<and> (\<exists>q. do_divide (VINT MININT) (VINT (- 1)) = Some (VINT q) \<and> sint q \<noteq> sint MININT sdiv - 1)"
  using integer_division [of "- 1" INT64_MIN] integer_division [of "- 1" MININT]
  by (auto simp: INT64_MIN_def MININT_def)


section \<open>Powers\<close>

lemma odd_unat: "b AND 1 \<noteq> 0 \<longleftrightarrow> odd (unat b)" for b :: num
  by (simp add: and_one_eq odd_iff_mod_2_eq_one unat_mod_distrib flip: unat_eq_zero)

lemma odd_sint: "b AND 1 \<noteq> 0 \<longleftrightarrow> odd (sint b)" for b :: num
proof -
  have "bit (sint b) 0 = bit b 0" by (simp only: bit_sint_iff) simp
  then show ?thesis using odd_iff_mod_2_eq_one [of b] by (simp add: and_one_eq bit_0)
qed

lemma power_loop: "power_loop r a b = r * a ^ unat b"
proof (induction r a b rule: power_loop.induct)
  case (1 r a b)
  show ?case
  proof (cases "b = 0")
    case False
    have "unat (drop_bit 1 b) = unat b div 2" by (simp add: unat_div_distrib drop_bit_Suc)
    then have "power_loop r a b = (if odd (unat b) then r * a else r) * (a * a) ^ (unat b div 2)"
      using 1 False by (subst power_loop.simps) (simp add: odd_unat)
    also have "\<dots> = r * a ^ unat b"
      by (cases "even (unat b)") (auto elim!: evenE oddE simp: power_mult power2_eq_square power_add)
    finally show ?thesis .
  qed (simp add: power_loop.simps)
qed

text \<open>
  C15: Integer exponentiation ends and gives the power modulo 2^64 for an exponent that is
  not negative; for a negative one it is the power truncated to an integer, E_DIV for 0,
  except for -1, where the sign is the wrong one.
\<close>

theorem do_power_int:
  "do_power pow (VINT a) (VINT b) =
     (if 0 \<le> sint b then VINT (a ^ nat (sint b))
      else if a = 0 then VERR E_DIV
      else if a = 1 then VINT 1
      else if a = - 1 then VINT (- ((- 1) ^ nat (- sint b)))
      else VINT 0)"
proof (cases "0 \<le> sint b")
  case True
  have "uint b = take_bit 64 (sint b)" using uint_sint [of b] by simp
  then have "uint b = sint b" using True sint_in(2) [of b] by (simp add: take_bit_int_eq_self)
  then have "nat (sint b) = unat b" by (metis nat_uint_eq)
  then show ?thesis using True by (simp add: do_power_def power_loop)
next
  case False
  then have "odd (nat (- sint b)) \<longleftrightarrow> b AND 1 \<noteq> 0" by (simp add: odd_sint even_nat_iff)
  then show ?thesis using False by (auto simp: do_power_def)
qed


section \<open>Floats\<close>

lemma uint_mod_63: "uint (w :: float64) mod 2 ^ 63 = (if uint w < 2 ^ 63 then uint w else uint w - 2 ^ 63)"
proof -
  have "uint w < 2 * 2 ^ 63" using uint_bounded [of w] by simp
  then show ?thesis using uint_ge_0 [of w] mod_pos_pos_trivial [of "uint w" "2 ^ 63"]
      mod_pos_pos_trivial [of "uint w - 2 ^ 63" "2 ^ 63"] mod_mult_self1 [of "uint w - 2 ^ 63" 1 "2 ^ 63"] by auto
qed

lemma IS_REAL_iff: "IS_REAL w \<longleftrightarrow> \<not> f_isnan w \<and> \<not> f_isinf w"
proof -
  have c: "uint DBL_MAX = 2047 * 2 ^ 52 - 1" "uint (f_neg DBL_MAX) = 2 ^ 63 + 2047 * 2 ^ 52 - 1"
    by (simp_all add: DBL_MAX_def f_neg_def)
  define u where "u = uint w"
  have "0 \<le> u" "u < 2 ^ 64" using uint_bounded [of w] by (simp_all add: u_def)
  moreover have "u mod 2 ^ 63 = (if u < 2 ^ 63 then u else u - 2 ^ 63)" unfolding u_def by (rule uint_mod_63)
  ultimately show ?thesis using c
    unfolding IS_REAL_def f_less_def f_eq_def f_isnan_def f_isinf_def f_ord_def u_def [symmetric]
    by (auto split: if_splits)
qed

lemma simple_binary_real: "simple_binary iop fop x y = Some (VFLOAT f) \<Longrightarrow> IS_REAL f"
  by (auto simp: simple_binary_def Let_def split: if_splits var.splits)

lemma do_divide_real: "do_divide x y = Some (VFLOAT f) \<Longrightarrow> IS_REAL f"
  by (auto simp: do_divide_def Let_def split: if_splits var.splits)

lemma do_power_real: "do_power pow x y = VFLOAT f \<Longrightarrow> IS_REAL f"
  by (auto simp: do_power_def Let_def split: if_splits var.splits prod.splits)

lemma ilog2_double: "1 \<le> n \<Longrightarrow> ilog2 (n * 2 ^ k) = ilog2 n + int k"
proof (induction k)
  case (Suc k)
  have "1 * 1 \<le> n * 2 ^ k" using Suc.prems by (intro mult_mono) auto
  then have "\<not> n * 2 ^ Suc k < 2" "n * 2 ^ Suc k div 2 = n * 2 ^ k" by auto
  then show ?case using Suc by (subst ilog2.simps) simp
qed simp

lemma ilog2_bounds: "1 \<le> n \<Longrightarrow> 0 \<le> ilog2 n \<and> 2 ^ nat (ilog2 n) \<le> n \<and> n < 2 * 2 ^ nat (ilog2 n)"
proof (induction n rule: ilog2.induct)
  case (1 n)
  show ?case
  proof (cases "n < 2")
    case False
    then have "0 \<le> ilog2 (n div 2) \<and> 2 ^ nat (ilog2 (n div 2)) \<le> n div 2 \<and> n div 2 < 2 * 2 ^ nat (ilog2 (n div 2))"
      using 1 by simp
    then show ?thesis using False by (subst (1 2 3) ilog2.simps) (auto simp: nat_add_distrib)
  qed (use 1 in \<open>simp add: ilog2.simps\<close>)
qed

lemma ilog2_ge:
  assumes "2 ^ k \<le> n"
  shows "int k \<le> ilog2 n"
proof (rule ccontr)
  assume "\<not> int k \<le> ilog2 n"
  moreover have n: "1 \<le> n" using assms one_le_power [of "2 :: int" k] by linarith
  ultimately have "Suc (nat (ilog2 n)) \<le> k" using ilog2_bounds [OF n] by linarith
  then have "(2 :: int) ^ Suc (nat (ilog2 n)) \<le> 2 ^ k" by (rule power_increasing) simp
  then show False using ilog2_bounds [OF n] assms by simp
qed

lemma ilog2_eq: "2 ^ k \<le> n \<Longrightarrow> n < 2 ^ Suc k \<Longrightarrow> ilog2 n = int k"
proof -
  assume a: "2 ^ k \<le> n" "n < 2 ^ Suc k"
  have "1 \<le> n" using a(1) one_le_power [of "2 :: int" k] by linarith
  then have "2 ^ nat (ilog2 n) < (2 :: int) ^ Suc k" "0 \<le> ilog2 n" using ilog2_bounds [of n] a(2) by auto
  then have "nat (ilog2 n) < Suc k" by (simp only: power_strict_increasing_iff) 
  then show ?thesis using ilog2_ge [OF a(1)] by linarith
qed

lemma round_half_even_scale: "0 < c \<Longrightarrow> round_half_even (a * c) (b * c) = round_half_even a b"
  by (simp add: round_half_even_def Let_def mult.commute [of _ c] flip: mult_mod_right)

text \<open>A number with at least 53 bits, scaled up: only its own bits matter.\<close>

lemma f_make_large:
  assumes "2 ^ 52 \<le> n" "0 \<le> s"
  shows "f_make z n s =
     (let m = round_half_even n (2 ^ nat (ilog2 n - 52)); magnitude = (ilog2 n + s + 1022) * 2 ^ 52 + m
      in if 2047 * 2 ^ 52 \<le> magnitude then f_inf False else word_of_int magnitude)"
proof -
  have n: "1 \<le> n" using assms by simp
  have l: "52 \<le> ilog2 n" using ilog2_ge [of 52 n] assms(1) by simp
  let ?e = "ilog2 n + s - 52"
  have q: "max (- 1074) (quotient_log (n * 2 ^ nat s) 1 - 52) = ?e"
    using ilog2_bounds [OF n] l assms(2) ilog2_double [OF n, of "nat s"] ilog2.simps [of 1]
    by (simp add: quotient_log_def nat_add_distrib power_add)
  have "round_half_even (n * 2 ^ nat s) (2 ^ nat ?e) = round_half_even n (2 ^ nat (ilog2 n - 52))"
    using round_half_even_scale [of "2 ^ nat s" n "2 ^ nat (ilog2 n - 52)"] assms l
    by (simp flip: power_add nat_add_distrib add: algebra_simps)
  then show ?thesis using n assms l q by (simp add: f_make_def f_round_def Let_def add_ac)
qed

text \<open>The greatest double and the one before it.\<close>

abbreviation "BELOW_MAX \<equiv> 0x7FEFFFFFFFFFFFFE :: float64"

lemma parts_of_max:
  "f_negative DBL_MAX = False" "f_scale DBL_MAX = 971" "f_mantissa DBL_MAX = 2 ^ 53 - 1" "f_isnan DBL_MAX = False" "f_isinf DBL_MAX = False"
  "f_negative BELOW_MAX = False" "f_scale BELOW_MAX = 971" "f_mantissa BELOW_MAX = 2 ^ 53 - 2" "f_isnan BELOW_MAX = False" "f_isinf BELOW_MAX = False"
  by (simp_all add: f_negative_def f_scale_def f_mantissa_def f_exponent_def f_fraction_def f_isnan_def f_isinf_def DBL_MAX_def)

lemma modulus_nan: "do_modulus (VFLOAT BELOW_MAX) (VFLOAT DBL_MAX) = Some (VFLOAT F_NAN)"
proof -
  have l: "ilog2 (2 ^ 53 - 2) = 52" "ilog2 (2 ^ 54 - 3) = 53" using ilog2_eq [of 52 "2 ^ 53 - 2"] ilog2_eq [of 53 "2 ^ 54 - 3"] by simp_all
  have "f_mod BELOW_MAX DBL_MAX = BELOW_MAX"
    using f_make_large [of "2 ^ 53 - 2" 971 False] l
    by (simp add: f_mod_def parts_of_max f_at_def f_signed_def round_half_even_def)
  moreover have "f_add BELOW_MAX DBL_MAX = f_inf False"
    using f_make_large [of "2 ^ 54 - 3" 971 False] l
    by (simp add: f_add_def parts_of_max f_at_def f_signed_def round_half_even_def)
  moreover have "f_mod (f_inf False) DBL_MAX = F_NAN"
    by (simp add: f_mod_def f_inf_def f_isinf_def)
  moreover have "\<not> f_eq DBL_MAX 0" by (simp add: f_eq_def f_ord_def DBL_MAX_def)
  ultimately show ?thesis by (simp add: do_modulus_def)
qed



section \<open>Lists of coordinates\<close>

lemma sum_of_squares_none:
  "sum_of_squares ret xs ys = None \<longleftrightarrow>
     length ys < length xs \<and> (\<forall>x\<in>set (take (Suc (length ys)) xs) \<union> set ys. v_double x \<noteq> None)"
  by (induction ret xs ys rule: sum_of_squares.induct) (auto simp: Let_def split: option.splits)

text \<open>
  C17: \<^verbatim>\<open>distance\<close> reads beyond the end of its second list exactly when that is the
  shorter one and all elements read before are numbers; the built-in has no check of the
  lengths.
\<close>

theorem distance_overrun:
  "bf_distance sqrt [VLIST xs, VLIST ys] = None \<longleftrightarrow>
     length ys < length xs \<and> (\<forall>x\<in>set (take (Suc (length ys)) xs) \<union> set ys. v_double x \<noteq> None)"
  by (simp add: bf_distance_def sum_of_squares_none)

theorem distance_overrun_witness: "bf_distance (\<lambda>x. x) [VLIST [VINT 1], VLIST []] = (None :: unit package option)"
  using distance_overrun [of "\<lambda>x. x" "[VINT 1]" "[]"] by (simp add: v_double_def)

lemma heading_overrun: "bf_relative_heading atan2 sqrt [VLIST [], VLIST ys] = None"
  by (simp add: bf_relative_heading_def)

section \<open>Numbers read back\<close>

text \<open>
  C38: \<^verbatim>\<open>toint\<close> of a printed integer is the integer.
\<close>

theorem toint_printed: "bf_toint [VSTR (print_int (sint n) @ replicate k SPACE)] = Some (BI_RETURN (VINT n))"
proof -
  let ?rest = "replicate k SPACE"
  have "strtol (print_int (sint n) @ ?rest) = (sint n, ?rest)"
    by (rule strtol_print_int) (use sint_in [of n] in \<open>auto simp: isdigit_def byte_of_def\<close>)
  moreover have "print_int (sint n) \<noteq> []" using print_nat_ok by (simp add: print_int_def)
  moreover have "?rest = [] \<or> hd ?rest = SPACE" by (cases k) simp_all
  ultimately show ?thesis
    by (auto simp: bf_toint_def become_integer_def parse_number_def only_spaces_def list_all_iff)
qed

end
